(* ===== verification/Prelude.thy ===== *)
theory Prelude
  imports Complex_Main "HOL-Library.AList" "HOL-Library.Multiset"
begin

text \<open>
  The shared prelude. It holds what every component of the library uses of Python: the
  exceptions as an error type with a result type and its bind, list indexing with negative
  indices, insertion-ordered dictionaries as association lists, the iteration helpers of
  \<^verbatim>\<open>itertools\<close>, the string methods \<^verbatim>\<open>replace\<close> and \<^verbatim>\<open>split\<close>, and the 64-bit product of
  \<^verbatim>\<open>np.prod\<close>. Python's unbounded integers are \<open>int\<close>; floating point numbers are \<open>rat\<close>.
  The collection \<open>py_simps\<close> carries the component proofs.
\<close>

named_theorems py_simps "unfolding of results, dictionaries and Python list operations"

section \<open>Errors as values\<close>

datatype py_error =
    AssertionError
  | IndexError
  | KeyError
  | TypeError
  | ValueError
  | ZeroDivisionError
  | RuntimeError
  | AttributeError
  | FileNotFoundError
  | OSError
  | StructError

type_synonym 'a py = "py_error + 'a"

definition bindE :: "'a py \<Rightarrow> ('a \<Rightarrow> 'b py) \<Rightarrow> 'b py" where
  "bindE m f = (case m of Inl e \<Rightarrow> Inl e | Inr x \<Rightarrow> f x)"

definition assertE :: "bool \<Rightarrow> unit py" where
  "assertE b = (if b then Inr () else Inl AssertionError)"

fun mapE :: "('a \<Rightarrow> 'b py) \<Rightarrow> 'a list \<Rightarrow> 'b list py" where
  "mapE f [] = Inr []"
| "mapE f (x # xs) = bindE (f x) (\<lambda>y. bindE (mapE f xs) (\<lambda>ys. Inr (y # ys)))"

fun foldE :: "('a \<Rightarrow> 's \<Rightarrow> 's py) \<Rightarrow> 'a list \<Rightarrow> 's \<Rightarrow> 's py" where
  "foldE f [] s = Inr s"
| "foldE f (x # xs) s = bindE (f x s) (foldE f xs)"

lemma bindE_Inl [simp]: "bindE (Inl e) f = Inl e"
  by (simp add: bindE_def)

lemma bindE_Inr [simp]: "bindE (Inr x) f = f x"
  by (simp add: bindE_def)

lemma bindE_eq_Inr_iff [simp]: "bindE m f = Inr y \<longleftrightarrow> (\<exists>x. m = Inr x \<and> f x = Inr y)"
  by (cases m) auto

lemma bindE_eq_Inl_iff:
  "bindE m f = Inl e \<longleftrightarrow> m = Inl e \<or> (\<exists>x. m = Inr x \<and> f x = Inl e)"
  by (cases m) auto

lemma bindE_assoc: "bindE (bindE m f) g = bindE m (\<lambda>x. bindE (f x) g)"
  by (cases m) auto

lemma bindE_cong [fundef_cong]:
  "m = m' \<Longrightarrow> (\<And>x. m' = Inr x \<Longrightarrow> f x = f' x) \<Longrightarrow> bindE m f = bindE m' f'"
  by (cases m') auto

lemma assertE_Inr_iff [simp]: "assertE b = Inr u \<longleftrightarrow> b"
  by (simp add: assertE_def)

lemma assertE_True [simp]: "assertE True = Inr ()"
  by (simp add: assertE_def)

lemma assertE_False [simp]: "assertE False = Inl AssertionError"
  by (simp add: assertE_def)

lemma mapE_Inr_iff: "mapE f xs = Inr ys \<longleftrightarrow> list_all2 (\<lambda>x y. f x = Inr y) xs ys"
  by (induction xs arbitrary: ys) (auto simp: list_all2_Cons1)

lemma mapE_total: "(\<And>x. x \<in> set xs \<Longrightarrow> f x = Inr (g x)) \<Longrightarrow> mapE f xs = Inr (map g xs)"
  by (induction xs) auto

lemma mapE_length: "mapE f xs = Inr ys \<Longrightarrow> length ys = length xs"
  by (auto simp: mapE_Inr_iff list_all2_lengthD)

lemma bindE_Inr_right [simp]: "bindE m Inr = m"
  by (cases m) auto

lemma mapE_append:
  "mapE f (xs @ ys) = bindE (mapE f xs) (\<lambda>us. bindE (mapE f ys) (\<lambda>vs. Inr (us @ vs)))"
  by (induction xs) (auto simp: bindE_assoc)

lemma foldE_append: "foldE f (xs @ ys) s = bindE (foldE f xs s) (foldE f ys)"
proof (induction xs arbitrary: s)
  case (Cons x xs)
  then show ?case by (cases "f x s") auto
qed simp

lemma foldE_invariant:
  assumes "foldE f xs s = Inr s'" and "P s"
    and "\<And>x s s'. x \<in> set xs \<Longrightarrow> P s \<Longrightarrow> f x s = Inr s' \<Longrightarrow> P s'"
  shows "P s'"
  using assms by (induction xs arbitrary: s) auto

section \<open>State and exceptions\<close>

text \<open>
  A method of an object is a function of the object's state that returns the new state with a
  result or an exception; the state an exception leaves behind is kept, as in Python.
\<close>

type_synonym ('s, 'a) st = "'s \<Rightarrow> 's \<times> 'a py"

definition returnS :: "'a \<Rightarrow> ('s, 'a) st" where
  "returnS x s = (s, Inr x)"

definition liftS :: "'a py \<Rightarrow> ('s, 'a) st" where
  "liftS r s = (s, r)"

definition bindS :: "('s, 'a) st \<Rightarrow> ('a \<Rightarrow> ('s, 'b) st) \<Rightarrow> ('s, 'b) st" where
  "bindS m f s = (case m s of (s', Inl e) \<Rightarrow> (s', Inl e) | (s', Inr x) \<Rightarrow> f x s')"

definition modifyS :: "('s \<Rightarrow> 's) \<Rightarrow> ('s, unit) st" where
  "modifyS f s = (f s, Inr ())"

definition getS :: "('s \<Rightarrow> 'a) \<Rightarrow> ('s, 'a) st" where
  "getS f s = (s, Inr (f s))"

lemma returnS_apply [simp]: "returnS x s = (s, Inr x)"
  by (simp add: returnS_def)

lemma liftS_apply [simp]: "liftS r s = (s, r)"
  by (simp add: liftS_def)

lemma modifyS_apply [simp]: "modifyS f s = (f s, Inr ())"
  by (simp add: modifyS_def)

lemma getS_apply [simp]: "getS f s = (s, Inr (f s))"
  by (simp add: getS_def)

lemma bindS_Inr [simp]: "m s = (s', Inr x) \<Longrightarrow> bindS m f s = f x s'"
  by (simp add: bindS_def)

lemma bindS_Inl [simp]: "m s = (s', Inl e) \<Longrightarrow> bindS m f s = (s', Inl e)"
  by (simp add: bindS_def)

lemma bindS_code [code]:
  "bindS m f s = (let (s', r) = m s in case r of Inl e \<Rightarrow> (s', Inl e) | Inr x \<Rightarrow> f x s')"
  by (simp add: bindS_def split: prod.splits sum.splits)

lemma bindS_eq_Inr:
  "bindS m f s = (s2, Inr y) \<longleftrightarrow> (\<exists>s1 x. m s = (s1, Inr x) \<and> f x s1 = (s2, Inr y))"
  by (auto simp: bindS_def split: prod.splits sum.splits)

lemma bindS_eq_Inl:
  "bindS m f s = (s2, Inl e) \<longleftrightarrow>
     m s = (s2, Inl e) \<or> (\<exists>s1 x. m s = (s1, Inr x) \<and> f x s1 = (s2, Inl e))"
  by (auto simp: bindS_def split: prod.splits sum.splits)

section \<open>Lists and dictionaries\<close>

text \<open>\<^verbatim>\<open>xs[i]\<close>: a negative index counts from the end.\<close>

definition py_nth :: "'a list \<Rightarrow> int \<Rightarrow> 'a py" where
  "py_nth xs i =
     (if i \<ge> 0 then (if i < int (length xs) then Inr (xs ! nat i) else Inl IndexError)
      else if - i \<le> int (length xs) then Inr (xs ! (length xs - nat (- i)))
      else Inl IndexError)"

lemma py_nth_in_range [simp]:
  "0 \<le> i \<Longrightarrow> i < int (length xs) \<Longrightarrow> py_nth xs i = Inr (xs ! nat i)"
  by (simp add: py_nth_def)

lemma py_nth_of_nat: "py_nth xs (int i) = (if i < length xs then Inr (xs ! i) else Inl IndexError)"
  by (auto simp: py_nth_def)

lemma py_nth_mem: "py_nth xs i = Inr x \<Longrightarrow> x \<in> set xs"
  by (auto simp: py_nth_def Let_def split: if_splits)

text \<open>\<^verbatim>\<open>xs.index(x)\<close>: the first position, \<^verbatim>\<open>ValueError\<close> where there is none.\<close>

fun py_index :: "'a list \<Rightarrow> 'a \<Rightarrow> nat py" where
  "py_index [] x = Inl ValueError"
| "py_index (y # ys) x = (if y = x then Inr 0 else bindE (py_index ys x) (\<lambda>i. Inr (Suc i)))"

lemma py_index_Inr: "py_index xs x = Inr i \<Longrightarrow> i < length xs \<and> xs ! i = x"
  by (induction xs arbitrary: i) (auto split: if_splits)

lemma py_index_total: "x \<in> set xs \<Longrightarrow> \<exists>i. py_index xs x = Inr i"
  by (induction xs) auto

lemma py_index_Inl: "x \<notin> set xs \<Longrightarrow> py_index xs x = Inl ValueError"
  by (induction xs) auto

text \<open>
  A dictionary with insertion order is an association list: \<^const>\<open>AList.update\<close> replaces in
  place or appends at the end, as \<^verbatim>\<open>d[k] = v\<close> does. \<^verbatim>\<open>d[k]\<close> raises \<^verbatim>\<open>KeyError\<close>.
\<close>

type_synonym ('k, 'v) dict = "('k \<times> 'v) list"

definition dict_get :: "('k, 'v) dict \<Rightarrow> 'k \<Rightarrow> 'v py" where
  "dict_get d k = (case map_of d k of None \<Rightarrow> Inl KeyError | Some v \<Rightarrow> Inr v)"

lemma dict_get_Inr_iff [simp]: "dict_get d k = Inr v \<longleftrightarrow> map_of d k = Some v"
  by (simp add: dict_get_def split: option.splits)

lemma dict_get_total: "k \<in> fst ` set d \<Longrightarrow> \<exists>v. dict_get d k = Inr v"
  by (auto simp: dict_get_def map_of_eq_None_iff split: option.splits intro: ccontr)

lemma keys_update_mem:
  "map fst (AList.update k v d) = (if k \<in> fst ` set d then map fst d else map fst d @ [k])"
  by (induction d) auto

lemma update_new: "k \<notin> fst ` set d \<Longrightarrow> AList.update k v d = d @ [(k, v)]"
  by (induction d) auto

lemma set_update_distinct:
  "distinct (map fst d) \<Longrightarrow>
     set (AList.update k v d) = {p \<in> set d. fst p \<noteq> k} \<union> {(k, v)}"
  by (induction d) (auto simp: rev_image_eqI)

section \<open>Permutations and combinations as itertools lists them\<close>

definition drop_nth :: "nat \<Rightarrow> 'a list \<Rightarrow> 'a list" where
  "drop_nth i xs = take i xs @ drop (Suc i) xs"

lemma length_drop_nth [simp]: "i < length xs \<Longrightarrow> length (drop_nth i xs) = length xs - 1"
  by (simp add: drop_nth_def)

lemma mset_drop_nth: "i < length xs \<Longrightarrow> mset xs = add_mset (xs ! i) (mset (drop_nth i xs))"
  by (metis add_mset_add_single append_take_drop_id drop_nth_def id_take_nth_drop mset.simps(2)
      mset_append union_mset_add_mset_right)

text \<open>\<^verbatim>\<open>itertools.permutations\<close>: by position, in lexicographic order of the positions.\<close>

function permutations :: "'a list \<Rightarrow> 'a list list" where
  "permutations xs =
     (if xs = [] then [[]]
      else concat (map (\<lambda>i. map ((#) (xs ! i)) (permutations (drop_nth i xs))) [0..<length xs]))"
  by pat_completeness auto
termination
  by (relation "measure length") auto

declare permutations.simps [simp del]

lemma permutations_Nil [simp]: "permutations [] = [[]]"
  by (simp add: permutations.simps)

lemma mem_permutations_iff: "ys \<in> set (permutations xs) \<longleftrightarrow> mset ys = mset xs"
proof (induction xs arbitrary: ys rule: permutations.induct)
  case (1 xs)
  show ?case
  proof (cases "xs = []")
    case True
    then show ?thesis by simp
  next
    case False
    have "ys \<in> set (permutations xs) \<longleftrightarrow>
        (\<exists>i<length xs. \<exists>zs. ys = xs ! i # zs \<and> mset zs = mset (drop_nth i xs))"
      using False "1.IH"[OF False] by (subst permutations.simps) (fastforce simp: image_iff)
    also have "\<dots> \<longleftrightarrow> mset ys = mset xs"
    proof
      assume "\<exists>i<length xs. \<exists>zs. ys = xs ! i # zs \<and> mset zs = mset (drop_nth i xs)"
      then show "mset ys = mset xs" by (auto simp: mset_drop_nth)
    next
      assume eq: "mset ys = mset xs"
      with False obtain y zs where ys: "ys = y # zs" by (cases ys) auto
      with eq have "y \<in> set xs" by (metis list.set_intros(1) set_mset_mset)
      then obtain i where i: "i < length xs" "xs ! i = y" by (auto simp: in_set_conv_nth)
      with eq ys have "mset zs = mset (drop_nth i xs)"
        using mset_drop_nth[OF i(1)] by simp
      with i ys show "\<exists>i<length xs. \<exists>zs. ys = xs ! i # zs \<and> mset zs = mset (drop_nth i xs)"
        by auto
    qed
    finally show ?thesis .
  qed
qed

lemma length_permutations: "length (permutations xs) = fact (length xs)"
proof (induction xs rule: permutations.induct)
  case (1 xs)
  show ?case
  proof (cases "xs = []")
    case False
    have "length (permutations xs)
        = sum_list (map (\<lambda>i. length (permutations (drop_nth i xs))) [0..<length xs])"
      using False by (subst permutations.simps) (simp add: length_concat comp_def)
    also have "\<dots> = sum_list (map (\<lambda>i. fact (length xs - 1)) [0..<length xs])"
      using "1.IH"[OF False] by (intro arg_cong[of _ _ sum_list] map_cong) auto
    also have "\<dots> = fact (length xs)"
      using False by (simp add: sum_list_triv fact_num_eq_if)
    finally show ?thesis .
  qed simp
qed

text \<open>\<^verbatim>\<open>itertools.combinations(xs, k)\<close>.\<close>

fun combinations :: "'a list \<Rightarrow> nat \<Rightarrow> 'a list list" where
  "combinations xs 0 = [[]]"
| "combinations [] (Suc k) = []"
| "combinations (x # xs) (Suc k) = map ((#) x) (combinations xs k) @ combinations xs (Suc k)"

lemma length_combinations: "length (combinations xs k) = length xs choose k"
  by (induction xs k rule: combinations.induct) auto

section \<open>Strings\<close>

text \<open>\<^verbatim>\<open>s.split(c)\<close> with a one-character separator.\<close>

fun py_split :: "char \<Rightarrow> string \<Rightarrow> string list" where
  "py_split c [] = [[]]"
| "py_split c (x # xs) =
     (if x = c then [] # py_split c xs
      else (x # hd (py_split c xs)) # tl (py_split c xs))"

definition is_prefix :: "'a list \<Rightarrow> 'a list \<Rightarrow> bool" where
  "is_prefix p s = (take (length p) s = p)"

text \<open>\<^verbatim>\<open>s.replace(old, new)\<close>, left to right, for a non-empty \<^verbatim>\<open>old\<close>.\<close>

function py_replace :: "string \<Rightarrow> string \<Rightarrow> string \<Rightarrow> string" where
  "py_replace old new s =
     (if old = [] \<or> s = [] then s
      else if is_prefix old s then new @ py_replace old new (drop (length old) s)
      else hd s # py_replace old new (tl s))"
  by pat_completeness auto
termination
  by (relation "measure (\<lambda>(old, new, s). length s)") auto

declare py_replace.simps [simp del]

section \<open>Integer products of numpy\<close>

text \<open>\<^verbatim>\<open>np.prod\<close> of a list of integers multiplies in \<^verbatim>\<open>int64\<close>: it wraps around.\<close>

definition wrap64 :: "int \<Rightarrow> int" where
  "wrap64 x = (x + 2 ^ 63) mod 2 ^ 64 - 2 ^ 63"

definition np_prod :: "int list \<Rightarrow> int" where
  "np_prod xs = wrap64 (prod_list xs)"

lemma wrap64_id: "- (2 ^ 63) \<le> x \<Longrightarrow> x < 2 ^ 63 \<Longrightarrow> wrap64 x = x"
  by (simp add: wrap64_def)

lemma np_prod_small [simp]:
  "0 \<le> prod_list xs \<Longrightarrow> prod_list xs < 2 ^ 63 \<Longrightarrow> np_prod xs = prod_list xs"
  unfolding np_prod_def by (rule wrap64_id) auto

lemma prod_list_pos: "(\<And>x. x \<in> set xs \<Longrightarrow> 0 < x) \<Longrightarrow> 0 < prod_list (xs :: int list)"
  by (induction xs) auto

lemma prod_list_ge_1: "(\<And>x. x \<in> set xs \<Longrightarrow> 1 \<le> x) \<Longrightarrow> 1 \<le> prod_list (xs :: int list)"
  using prod_list_pos[of xs] by force

lemma dvd_prod_list: "x \<in> set xs \<Longrightarrow> x dvd prod_list (xs :: int list)"
  by (induction xs) auto

end
