(* ===== verification/Factors.thy ===== *)
theory Factors
  imports Prelude
begin

text \<open>
  Factor enumeration of \<^verbatim>\<open>python/tvm/autotvm/task/space.py\<close>: \<^verbatim>\<open>get_factors\<close> and
  \<^verbatim>\<open>get_pow2s\<close>, the candidate generators of the split knobs. \<^verbatim>\<open>int(math.sqrt(n))\<close> and
  \<^verbatim>\<open>math.floor(math.log2(n))\<close> are the exact integer square root and logarithm, which the
  double precision functions return for every axis length below $2^{48}$. The lemmas
  show that the trial division up to the square root finds exactly the positive divisors,
  in increasing order, and that the powers of two are exactly those not above the length.
\<close>

section \<open>Integer square root and logarithm\<close>

fun isqrt :: "nat \<Rightarrow> nat" where
  "isqrt 0 = 0"
| "isqrt (Suc n) = (let r = isqrt n in if (r + 1) * (r + 1) \<le> Suc n then r + 1 else r)"

lemma isqrt_bounds: "isqrt n * isqrt n \<le> n \<and> n < (isqrt n + 1) * (isqrt n + 1)"
  by (induction n) (auto simp: Let_def)

fun ilog2 :: "nat \<Rightarrow> nat" where
  "ilog2 n = (if n < 2 then 0 else Suc (ilog2 (n div 2)))"

declare ilog2.simps [simp del]

lemma ilog2_bounds: "0 < n \<Longrightarrow> 2 ^ ilog2 n \<le> n \<and> n < 2 ^ Suc (ilog2 n)"
proof (induction n rule: ilog2.induct)
  case (1 n)
  show ?case
  proof (cases "n < 2")
    case True
    with "1.prems" show ?thesis by (simp add: ilog2.simps)
  next
    case False
    with "1.IH" have "2 ^ ilog2 (n div 2) \<le> n div 2" "n div 2 < 2 ^ Suc (ilog2 (n div 2))" by auto
    then have "2 * 2 ^ ilog2 (n div 2) \<le> n" "n < 4 * 2 ^ ilog2 (n div 2)" by simp_all
    with False show ?thesis by (simp add: ilog2.simps[of n])
  qed
qed

lemma pow2_le_iff_ilog2: "0 < n \<Longrightarrow> 2 ^ k \<le> n \<longleftrightarrow> k \<le> ilog2 n"
proof
  assume n: "0 < n" and "2 ^ k \<le> n"
  then have "2 ^ k < (2::nat) ^ Suc (ilog2 n)" using ilog2_bounds[OF n] by linarith
  then have "k < Suc (ilog2 n)" by (rule power_less_imp_less_exp[rotated]) simp
  then show "k \<le> ilog2 n" by simp
next
  assume n: "0 < n" and "k \<le> ilog2 n"
  then have "(2::nat) ^ k \<le> 2 ^ ilog2 n" by simp
  then show "2 ^ k \<le> n" using ilog2_bounds[OF n] by linarith
qed

section \<open>The enumerations of the source\<close>

text \<open>\<^verbatim>\<open>range(lo, hi, step)\<close> for a positive step.\<close>

definition py_range :: "int \<Rightarrow> int \<Rightarrow> int \<Rightarrow> int list" where
  "py_range lo hi step = filter (\<lambda>i. (i - lo) mod step = 0) [lo..hi - 1]"

definition get_factors :: "int \<Rightarrow> int list py" where
  "get_factors n =
     (if n < 0 then Inl ValueError
      else
        let step = (if n mod 2 \<noteq> 0 then 2 else 1);
            pairs = concat (map (\<lambda>i. [i, n div i])
              (filter (\<lambda>i. n mod i = 0) (py_range 1 (int (isqrt (nat n)) + 1) step)))
        in if pairs = [] then Inl TypeError else Inr (sort (remdups pairs)))"

definition get_pow2s :: "int \<Rightarrow> int list py" where
  "get_pow2s n =
     (if n \<le> 0 then Inl ValueError
      else Inr (map (\<lambda>x. 2 ^ x) [0..<ilog2 (nat n) + 1]))"

section \<open>Correctness\<close>

definition divisors :: "int \<Rightarrow> int set" where
  "divisors n = {d. 0 < d \<and> d dvd n}"

lemma small_divisor_le_isqrt:
  assumes "0 < n" and "0 < d" and "d * d \<le> n"
  shows "d \<le> int (isqrt (nat n))"
proof (rule ccontr)
  assume "\<not> d \<le> int (isqrt (nat n))"
  then have "int (isqrt (nat n)) + 1 \<le> d" by simp
  then have "(int (isqrt (nat n)) + 1) * (int (isqrt (nat n)) + 1) \<le> d * d"
    using assms(2) by (intro mult_mono) auto
  moreover have "n < (int (isqrt (nat n)) + 1) * (int (isqrt (nat n)) + 1)"
  proof -
    have "int (nat n) < int ((isqrt (nat n) + 1) * (isqrt (nat n) + 1))"
      using isqrt_bounds[of "nat n"] by (simp only: of_nat_less_iff)
    then show ?thesis using assms(1) by (simp add: algebra_simps)
  qed
  ultimately show False using assms(3) by linarith
qed

lemma odd_divisor: "n mod 2 \<noteq> 0 \<Longrightarrow> d dvd n \<Longrightarrow> (d - 1) mod 2 = (0 :: int)"
proof -
  assume "n mod 2 \<noteq> 0" and "d dvd n"
  then have "odd n" by presburger
  then have "odd d" using \<open>d dvd n\<close> by (blast intro: dvd_trans)
  then show "(d - 1) mod 2 = 0" by presburger
qed

lemma trial_divisors:
  assumes "0 < n"
  shows "set (filter (\<lambda>i. n mod i = 0)
           (py_range 1 (int (isqrt (nat n)) + 1) (if n mod 2 \<noteq> 0 then 2 else 1)))
         = {d. 0 < d \<and> d dvd n \<and> d \<le> int (isqrt (nat n))}"
proof (rule set_eqI)
  fix d
  have "(d - 1) mod (if n mod 2 \<noteq> 0 then 2 else 1) = 0" if "d dvd n"
    using odd_divisor[of n d] that by simp
  moreover have "d \<in> set [1..int (isqrt (nat n)) + 1 - 1] \<longleftrightarrow> 0 < d \<and> d \<le> int (isqrt (nat n))"
    by auto
  moreover have "n mod d = 0 \<longleftrightarrow> d dvd n" by (simp add: mod_eq_0_iff_dvd)
  ultimately show "d \<in> set (filter (\<lambda>i. n mod i = 0)
           (py_range 1 (int (isqrt (nat n)) + 1) (if n mod 2 \<noteq> 0 then 2 else 1)))
         \<longleftrightarrow> d \<in> {d. 0 < d \<and> d dvd n \<and> d \<le> int (isqrt (nat n))}"
    unfolding py_range_def by (simp only: set_filter mem_Collect_eq) blast
qed

lemma divisor_pairs:
  assumes "0 < n"
  shows "(\<Union>i \<in> {d. 0 < d \<and> d dvd n \<and> d \<le> int (isqrt (nat n))}. {i, n div i}) = divisors n"
    (is "?L = _")
proof
  show "?L \<subseteq> divisors n"
    using assms by (auto simp: divisors_def pos_imp_zdiv_pos_iff zdvd_imp_le)
next
  show "divisors n \<subseteq> ?L"
  proof
    fix d assume "d \<in> divisors n"
    then have d: "0 < d" "d dvd n" by (auto simp: divisors_def)
    then obtain e where n: "n = d * e" by auto
    with assms d have e: "0 < e" by (simp add: zero_less_mult_iff)
    show "d \<in> ?L"
    proof (cases "d * d \<le> n")
      case True
      with assms d show ?thesis using small_divisor_le_isqrt by force
    next
      case False
      with n d e have "e \<le> d" by auto
      with n e have "e * e \<le> n" by (simp add: mult_right_mono)
      with assms e have "e \<le> int (isqrt (nat n))" by (rule small_divisor_le_isqrt)
      moreover have "n div e = d" "e dvd n" using n e by auto
      ultimately show ?thesis using e by blast
    qed
  qed
qed

lemma get_factors_pos:
  assumes "0 < n"
  shows "\<exists>fs. get_factors n = Inr fs \<and> set fs = divisors n \<and> sorted fs \<and> distinct fs"
proof -
  let ?is = "filter (\<lambda>i. n mod i = 0)
    (py_range 1 (int (isqrt (nat n)) + 1) (if n mod 2 \<noteq> 0 then 2 else 1))"
  let ?ps = "concat (map (\<lambda>i. [i, n div i]) ?is)"
  have "set ?ps = (\<Union>i \<in> set ?is. {i, n div i})" by auto
  then have set: "set ?ps = divisors n"
    using trial_divisors[OF assms] divisor_pairs[OF assms] by simp
  moreover have "1 \<in> divisors n" by (simp add: divisors_def)
  ultimately have "?ps \<noteq> []" by (metis empty_iff list.set(1))
  with assms have "get_factors n = Inr (sort (remdups ?ps))"
    by (simp add: get_factors_def Let_def del: concat_eq_Nil_conv)
  with set show ?thesis by simp
qed

lemma get_factors_Inr:
  assumes "get_factors n = Inr fs"
  shows "0 < n" "set fs = divisors n" "sorted fs" "distinct fs"
proof -
  have "0 < n"
  proof (rule ccontr)
    assume "\<not> 0 < n"
    with assms show False
      by (cases "n = 0") (simp_all add: get_factors_def py_range_def)
  qed
  with assms get_factors_pos[of n]
  show "0 < n" "set fs = divisors n" "sorted fs" "distinct fs" by auto
qed

lemma get_factors_error: "n \<le> 0 \<Longrightarrow> get_factors n = Inl (if n = 0 then TypeError else ValueError)"
  by (auto simp: get_factors_def py_range_def)

lemma get_pow2s_pos:
  assumes "0 < n"
  shows "\<exists>ps. get_pow2s n = Inr ps \<and> set ps = {p. \<exists>k. p = 2 ^ k \<and> p \<le> n} \<and> sorted ps \<and> distinct ps"
proof -
  let ?ps = "map (\<lambda>x. (2::int) ^ x) [0..<ilog2 (nat n) + 1]"
  have pow: "(2::int) ^ k \<le> n \<longleftrightarrow> k \<le> ilog2 (nat n)" for k
  proof -
    have "(2::int) ^ k \<le> n \<longleftrightarrow> int (2 ^ k) \<le> int (nat n)" using assms by simp
    also have "\<dots> \<longleftrightarrow> 2 ^ k \<le> nat n" by (simp only: of_nat_le_iff)
    finally show ?thesis using assms pow2_le_iff_ilog2[of "nat n" k] by simp
  qed
  have "set ?ps = (\<lambda>x. 2 ^ x) ` {k. k \<le> ilog2 (nat n)}"
    by (simp only: set_map set_upt Suc_eq_plus1[symmetric] atLeastLessThanSuc_atLeastAtMost
        atMost_def[symmetric] atLeast0AtMost)
  also have "\<dots> = {p. \<exists>k. p = 2 ^ k \<and> p \<le> n}"
    by (simp only: pow[symmetric]) blast
  finally have "set ?ps = {p. \<exists>k. p = 2 ^ k \<and> p \<le> n}" .
  moreover have "sorted ?ps"
    by (rule sorted_map[THEN iffD2, OF sorted_wrt_mono_rel[OF _ sorted_wrt_upt]]) simp
  moreover have "distinct ?ps" by (auto simp: distinct_map inj_on_def)
  moreover have "get_pow2s n = Inr ?ps" using assms by (simp only: get_pow2s_def) simp
  ultimately show ?thesis by blast
qed

end
