(* ===== verification/Knob.thy ===== *)
theory Knob
  imports Factors
begin

text \<open>
  The data model of the template configuration space
  (\<^verbatim>\<open>python/tvm/autotvm/task/space.py\<close>): axes, the entities a knob can take and the spaces
  a knob ranges over. A subclass of \<^verbatim>\<open>TransformSpace\<close> is a constructor of \<open>space\<close> and a
  subclass of entity a constructor of \<open>entity\<close>; \<open>'v\<close> is the type of the values of an
  \<^verbatim>\<open>OtherOptionEntity\<close>.
\<close>

section \<open>Axes\<close>

text \<open>
  An axis of a template is a \<^verbatim>\<open>VirtualAxis\<close> (its name and length) or an \<^verbatim>\<open>Axis\<close> tuple, the
  output of an earlier transform, named by the knob that made it (\<open>None\<close> where the transform
  was not recorded) and its position.
\<close>

datatype axis = VirtualAxis string int | Axis "string option" nat

text \<open>What a template passes where an axis is expected.\<close>

datatype axis_var =
    IntVar int
  | IterVar string "int option"
  | AxisVar axis
  | OtherVar

fun digits :: "nat \<Rightarrow> string" where
  "digits n =
     (if n < 10 then [char_of (48 + n)] else digits (n div 10) @ [char_of (48 + n mod 10)])"

declare digits.simps [simp del]

text \<open>
  \<^verbatim>\<open>VirtualAxis.__init__\<close>: the class counter \<^verbatim>\<open>name_ct\<close> moves whenever no name is given, an
  iteration variable keeps its own name, and a variable without a domain has length -1.
\<close>

definition virtual_axis_init :: "nat \<Rightarrow> axis_var \<Rightarrow> string option \<Rightarrow> nat \<times> axis py" where
  "virtual_axis_init name_ct var nm =
     (let (ct', name) = (case nm of None \<Rightarrow> (Suc name_ct, ''axis_'' @ digits name_ct)
                                  | Some s \<Rightarrow> (name_ct, s))
      in (ct',
          case var of
            IntVar n \<Rightarrow> Inr (VirtualAxis name n)
          | IterVar s ext \<Rightarrow> Inr (VirtualAxis s (case ext of None \<Rightarrow> -1 | Some e \<Rightarrow> e))
          | AxisVar (VirtualAxis s n) \<Rightarrow> Inr (VirtualAxis name n)
          | _ \<Rightarrow> Inl RuntimeError))"

fun axis_length :: "axis \<Rightarrow> int py" where
  "axis_length (VirtualAxis s n) = Inr n"
| "axis_length (Axis s i) = Inl AttributeError"

section \<open>Entities and spaces\<close>

text \<open>
  The annotations of an \<^verbatim>\<open>AnnotateEntity\<close> are strings, or axis positions under the policy
  \<^verbatim>\<open>locate_cache\<close>.
\<close>

datatype ann = AnnName string | AnnIndex nat

datatype 'v entity =
    SplitEntity "int list"
  | ReorderEntity "nat list"
  | AnnotateEntity "ann list"
  | OtherOptionEntity 'v

datatype 'v space =
    SplitSpace string int nat "'v entity list"
  | ReorderSpace string nat "'v entity list"
  | AnnotateSpace string nat "'v entity list"
  | OtherOptionSpace "'v entity list"

fun space_entities :: "'v space \<Rightarrow> 'v entity list" where
  "space_entities (SplitSpace p n k es) = es"
| "space_entities (ReorderSpace p k es) = es"
| "space_entities (AnnotateSpace p k es) = es"
| "space_entities (OtherOptionSpace es) = es"

fun num_output :: "'v space \<Rightarrow> nat" where
  "num_output (SplitSpace p n k es) = k"
| "num_output (ReorderSpace p k es) = k"
| "num_output (AnnotateSpace p k es) = k"
| "num_output (OtherOptionSpace es) = 0"

definition space_len :: "'v space \<Rightarrow> int" where
  "space_len sp = int (length (space_entities sp))"

definition space_getitem :: "'v space \<Rightarrow> int \<Rightarrow> 'v entity py" where
  "space_getitem sp i = py_nth (space_entities sp) i"

text \<open>Replacing the first entity of a space, where an alias of it is written through.\<close>

fun space_set_entities :: "'v entity list \<Rightarrow> 'v space \<Rightarrow> 'v space" where
  "space_set_entities es' (SplitSpace p n k es) = SplitSpace p n k es'"
| "space_set_entities es' (ReorderSpace p k es) = ReorderSpace p k es'"
| "space_set_entities es' (AnnotateSpace p k es) = AnnotateSpace p k es'"
| "space_set_entities es' (OtherOptionSpace es) = OtherOptionSpace es'"

lemma space_entities_set [simp]: "space_entities (space_set_entities es sp) = es"
  by (cases sp) auto

lemma space_len_set [simp]:
  "length es = length (space_entities sp) \<Longrightarrow> space_len (space_set_entities es sp) = space_len sp"
  by (simp add: space_len_def)

lemma space_len_nonneg [simp]: "0 \<le> space_len sp"
  by (simp add: space_len_def)

lemma space_getitem_in_range:
  "0 \<le> i \<Longrightarrow> i < space_len sp \<Longrightarrow> space_getitem sp i = Inr (space_entities sp ! nat i)"
  by (simp add: space_getitem_def space_len_def)

lemma space_getitem_empty: "space_len sp = 0 \<Longrightarrow> space_getitem sp i = Inl IndexError"
  by (auto simp: space_getitem_def space_len_def py_nth_def)

end
