(* ===== verification/Split_Space.thy ===== *)
theory Split_Space
  imports Knob
begin

text \<open>
  \<^verbatim>\<open>SplitSpace\<close> and \<^verbatim>\<open>SplitEntity\<close> of \<^verbatim>\<open>python/tvm/autotvm/task/space.py\<close>: the depth-first
  enumeration of the split factors under each policy, and the application of one split to an
  axis. The order in which Python lists a set of integers (policy \<^verbatim>\<open>verbose\<close>) is the
  parameter \<open>set_list\<close>. The lemmas characterise the enumeration as the filtered list of all
  factor tuples, its completeness for the divisors, and the extents of the axes a split makes.
\<close>

section \<open>The space\<close>

record 'v split_kwargs =
  kw_max_factor :: "int option"
  kw_filter :: "('v entity \<Rightarrow> bool) option"
  kw_num_outputs :: "int option"
  kw_no_tail :: "bool option"
  kw_candidate :: "int list list option"

text \<open>
  \<^verbatim>\<open>_generate_space\<close>: \<open>k\<close> is the number of positions of \<^verbatim>\<open>tmp_stack\<close> still to fill, and
  \<open>stk\<close> the filled ones, the last one first, which is the order \<^verbatim>\<open>tmp_stack[::-1]\<close> gives.
  \<^verbatim>\<open>functools.reduce\<close> of an empty list raises \<^verbatim>\<open>TypeError\<close>.
\<close>

fun split_generate :: "int list \<Rightarrow> int \<Rightarrow> bool \<Rightarrow> nat \<Rightarrow> int list \<Rightarrow> 'v entity list py" where
  "split_generate factors product enforce_no_tail 0 stk =
     (if stk = [] then Inl TypeError
      else let pr = prod_list stk in
        if pr > product then Inr []
        else if pr = 0 then Inl ZeroDivisionError
        else if product mod pr = 0 \<or> (\<not> enforce_no_tail \<and> pr < product)
        then Inr [SplitEntity (-1 # stk)]
        else Inr [])"
| "split_generate factors product enforce_no_tail (Suc k) stk =
     bindE (mapE (\<lambda>f. split_generate factors product enforce_no_tail k (f # stk)) factors)
       (\<lambda>ess. Inr (concat ess))"

definition split_factors :: "(int list \<Rightarrow> int list) \<Rightarrow> string \<Rightarrow> int \<Rightarrow> int \<Rightarrow> int list py" where
  "split_factors set_list policy product max_factor =
     (if policy = ''verbose'' then
        bindE (get_factors product) (\<lambda>divisibles.
        bindE (get_pow2s product) (\<lambda>pow2s.
          Inr (filter (\<lambda>x. x \<le> max_factor) (set_list (divisibles @ pow2s)))))
      else if policy = ''factors'' then
        bindE (get_factors product) (\<lambda>fs. Inr (filter (\<lambda>x. x \<le> max_factor) fs))
      else if policy = ''power2'' then
        bindE (get_pow2s product) (\<lambda>fs. Inr (filter (\<lambda>x. x \<le> max_factor) fs))
      else Inl RuntimeError)"

definition split_candidates :: "int \<Rightarrow> int list list \<Rightarrow> 'v entity list py" where
  "split_candidates num_outputs cands =
     mapE (\<lambda>sz. bindE (assertE (int (length sz) = num_outputs)) (\<lambda>_. Inr (SplitEntity sz))) cands"

definition split_space_init ::
    "(int list \<Rightarrow> int list) \<Rightarrow> axis list \<Rightarrow> string \<Rightarrow> 'v split_kwargs \<Rightarrow> 'v space py" where
  "split_space_init set_list axes policy kw =
     bindE (py_nth axes 0) (\<lambda>ax.
     let max_factor = (case kw_max_factor kw of None \<Rightarrow> 2 ^ 31 | Some m \<Rightarrow> m);
         fil = (case kw_filter kw of None \<Rightarrow> (\<lambda>_. True) | Some p \<Rightarrow> p);
         num_outputs = (case kw_num_outputs kw of None \<Rightarrow> 0 | Some n \<Rightarrow> n)
     in
     bindE (axis_length ax) (\<lambda>product.
     bindE (assertE (num_outputs > 0)) (\<lambda>_.
     bindE
       (if policy = ''candidate'' then
          (case kw_candidate kw of
             None \<Rightarrow> Inl KeyError
           | Some cands \<Rightarrow> split_candidates num_outputs cands)
        else
          bindE (split_factors set_list policy product max_factor) (\<lambda>factors.
          let no_tail = (case kw_no_tail kw of None \<Rightarrow> policy = ''factors'' | Some b \<Rightarrow> b)
          in split_generate factors product no_tail (nat (num_outputs - 1)) []))
       (\<lambda>entities.
          Inr (SplitSpace policy product (nat num_outputs) (filter fil entities))))))"

definition split_get_num_output :: "'v split_kwargs \<Rightarrow> nat py" where
  "split_get_num_output kw =
     (case kw_num_outputs kw of None \<Rightarrow> Inl KeyError | Some n \<Rightarrow> Inr (nat n))"

section \<open>Applying a split\<close>

text \<open>
  \<^verbatim>\<open>SplitEntity.apply\<close>. \<open>sch_split\<close> stands for \<^verbatim>\<open>sch[op].split(axis, factor)\<close>, which makes an
  outer and an inner axis; the axes already made are collected in \<open>ret\<close>.
\<close>

fun split_apply_loop ::
    "('ax \<Rightarrow> int \<Rightarrow> 'ax \<times> 'ax) \<Rightarrow> int list \<Rightarrow> nat list \<Rightarrow> 'ax list \<Rightarrow> 'ax \<Rightarrow> 'ax list" where
  "split_apply_loop sch_split sz [] ret ax = ret @ [ax]"
| "split_apply_loop sch_split sz (i # is) ret ax =
     (let (ax0, ax1) = sch_split ax (np_prod (drop i sz))
      in split_apply_loop sch_split sz is (ret @ [ax0]) ax1)"

definition split_apply :: "('ax \<Rightarrow> int \<Rightarrow> 'ax \<times> 'ax) \<Rightarrow> int list \<Rightarrow> 'ax \<Rightarrow> 'ax list" where
  "split_apply sch_split sz ax = split_apply_loop sch_split sz [1..<length sz] [] ax"

text \<open>
  What the schedule makes of a split by a factor (\<^verbatim>\<open>PassDownDomain\<close> of
  \<^verbatim>\<open>src/te/schedule/message_passing.cc\<close>): the extents of the outer and of the inner axis. The inner axis
  is tightened to the extent of its parent unless it leads to a thread or the pass is a preliminary
  one (\<open>keep\<close>).
\<close>

definition split_extent :: "bool \<Rightarrow> int \<Rightarrow> int \<Rightarrow> int \<times> int" where
  "split_extent keep e factor =
     (let outer = (if e mod factor = 0 then e div factor else (e + (factor - 1)) div factor);
          inner = (if keep \<or> e = 0 then factor else if e < factor then e else factor) in (outer, inner))"

section \<open>The enumeration is the filtered list of all factor tuples\<close>

definition split_ok :: "int \<Rightarrow> bool \<Rightarrow> int list \<Rightarrow> bool" where
  "split_ok product no_tail fs \<longleftrightarrow>
     prod_list fs \<le> product \<and> (product mod prod_list fs = 0 \<or> \<not> no_tail \<and> prod_list fs < product)"

lemma concat_of_concat: "concat (concat xss) = concat (map concat xss)"
  by (induction xss) auto

lemma n_lists_snoc:
  "List.n_lists (Suc k) xs = concat (map (\<lambda>x. map (\<lambda>ys. ys @ [x]) (List.n_lists k xs)) xs)"
proof (induction k)
  case 0
  then show ?case by (simp add: comp_def)
next
  case (Suc k)
  have "List.n_lists (Suc (Suc k)) xs
      = concat (map (\<lambda>ys. map (\<lambda>y. y # ys) xs) (List.n_lists (Suc k) xs))" by simp
  also have "\<dots> = concat (map (\<lambda>x. map (\<lambda>ys. ys @ [x]) (List.n_lists (Suc k) xs)) xs)"
    by (subst Suc.IH) (simp add: concat_of_concat map_concat comp_def)
  finally show ?case .
qed

lemma mem_n_lists: "ys \<in> set (List.n_lists k xs) \<longleftrightarrow> length ys = k \<and> set ys \<subseteq> set xs"
  by (simp add: set_n_lists)

lemma distinct_filter_map_split:
  "distinct yss \<Longrightarrow> distinct (map (\<lambda>ys. SplitEntity (-1 # ys)) (filter p yss))"
  by (auto simp: distinct_map inj_on_def)

lemma split_generate_eq:
  assumes pos: "\<forall>f \<in> set factors. 0 < f" "\<forall>f \<in> set stk. 0 < f" and ne: "0 < k \<or> stk \<noteq> []"
  shows "split_generate factors product nt k stk
       = Inr (map (\<lambda>fs. SplitEntity (-1 # fs) :: 'v entity)
           (filter (split_ok product nt) (map (\<lambda>ys. ys @ stk) (List.n_lists k factors))))"
  using pos(2) ne
proof (induction k arbitrary: stk)
  case 0
  then have "0 < prod_list stk" by (intro prod_list_pos) auto
  with 0 show ?case by (auto simp: split_ok_def Let_def)
next
  case (Suc k)
  let ?g = "\<lambda>f. map (\<lambda>fs. SplitEntity (-1 # fs) :: 'v entity)
    (filter (split_ok product nt) (map (\<lambda>ys. ys @ f # stk) (List.n_lists k factors)))"
  have "mapE (\<lambda>f. split_generate factors product nt k (f # stk)) factors = Inr (map ?g factors)"
  proof (rule mapE_total)
    fix f assume "f \<in> set factors"
    then show "split_generate factors product nt k (f # stk) = Inr (?g f)"
      using Suc.prems pos(1) by (intro Suc.IH) auto
  qed
  then have "split_generate factors product nt (Suc k) stk = Inr (concat (map ?g factors))"
    by simp
  also have "concat (map ?g factors) = map (\<lambda>fs. SplitEntity (-1 # fs))
      (filter (split_ok product nt) (map (\<lambda>ys. ys @ stk) (List.n_lists (Suc k) factors)))"
    by (simp only: n_lists_snoc) (simp add: map_concat filter_concat comp_def)
  finally show ?case .
qed

lemma split_factors_pos:
  assumes "split_factors set_list policy n m = Inr fs"
    and "\<And>xs. set (set_list xs) = set xs" and "f \<in> set fs"
  shows "0 < f \<and> f \<le> m"
proof -
  have pow: "0 < x" if "get_pow2s n = Inr ps" "x \<in> set ps" for ps x
    using that by (auto simp: get_pow2s_def split: if_splits)
  have div: "0 < x" if "get_factors n = Inr ds" "x \<in> set ds" for ds x
    using that get_factors_Inr(2) by (auto simp: divisors_def)
  show ?thesis
    using assms pow div by (auto simp: split_factors_def split: if_splits)
qed

lemma split_space_generated:
  assumes "py_nth axes 0 = Inr (VirtualAxis s n)"
    and "policy \<noteq> ''candidate''" and "kw_num_outputs kw = Some (int k)" and "1 < k"
    and "split_factors set_list policy n
          (case kw_max_factor kw of None \<Rightarrow> 2 ^ 31 | Some m \<Rightarrow> m) = Inr fs"
    and "\<forall>f \<in> set fs. 0 < f"
  shows "split_space_init set_list axes policy kw = Inr (SplitSpace policy n k
     (filter (case kw_filter kw of None \<Rightarrow> (\<lambda>_. True) | Some p \<Rightarrow> p)
       (map (\<lambda>ys. SplitEntity (-1 # ys))
         (filter (split_ok n (case kw_no_tail kw of None \<Rightarrow> policy = ''factors'' | Some b \<Rightarrow> b))
           (List.n_lists (k - 1) fs)))))"
proof -
  have "nat (int k - 1) = k - 1" by simp
  with assms show ?thesis by (simp add: split_space_init_def Let_def split_generate_eq)
qed

section \<open>Extents of the axes a split makes\<close>

lemma ceil_div_mult: "0 < d \<Longrightarrow> (m * d + d - 1) div d = (m :: int)"
proof -
  assume "0 < d"
  then have "((d - 1) + m * d) div d = m + (d - 1) div d" by (intro div_mult_self1) simp
  also have "(d - 1) div d = 0" using \<open>0 < d\<close> by (intro div_pos_pos_trivial) auto
  finally show ?thesis by (simp add: algebra_simps)
qed

text \<open>
  The contract of the split primitive, for axes of any kind that have an extent: the outer axis has as many
  turns as are needed, the inner one the length of the factor or of the parent if that is shorter.
\<close>

definition splits_extents :: "('ax \<Rightarrow> int) \<Rightarrow> ('ax \<Rightarrow> int \<Rightarrow> 'ax \<times> 'ax) \<Rightarrow> bool" where
  "splits_extents ext sch_split \<longleftrightarrow> (\<forall>ax f. 0 < ext ax \<longrightarrow> 0 < f \<longrightarrow>
     ext (fst (sch_split ax f)) = (ext ax + f - 1) div f \<and>
     (ext (snd (sch_split ax f)) = f \<or> ext (snd (sch_split ax f)) = min (ext ax) f))"

lemma splits_extentsD:
  assumes "splits_extents ext sch_split" "0 < ext ax" "0 < f" "sch_split ax f = (a, b)"
  shows "ext a = (ext ax + f - 1) div f" "ext b = f \<or> ext b = min (ext ax) f"
  using assms unfolding splits_extents_def by (metis fst_conv, metis snd_conv)

lemma ceil_div_cover: "0 < d \<Longrightarrow> n \<le> (n + d - 1) div d * d \<and> (n + d - 1) div d * d < n + (d :: int)"
proof -
  assume d: "0 < d"
  have "(n + d - 1) div d * d = (n + d - 1) - (n + d - 1) mod d" by (simp add: minus_mod_eq_div_mult)
  moreover have "0 \<le> (n + d - 1) mod d" "(n + d - 1) mod d < d" using d by simp_all
  ultimately show ?thesis by linarith
qed

lemma ceil_div_exact: "0 < d \<Longrightarrow> d dvd n \<Longrightarrow> (n + d - 1) div d = n div (d :: int)"
  using ceil_div_mult[of d] by (auto elim!: dvdE simp: mult.commute)

lemma split_extent_splits: "splits_extents id (split_extent keep)"
  by (auto simp: splits_extents_def split_extent_def Let_def ceil_div_exact mod_eq_0_iff_dvd algebra_simps)

text \<open>
  The loop from position \<open>j\<close> on, for an axis no longer than the rest of the sizes. The axes cover it and none
  is longer than its size; if the axis is as long as the rest of the sizes, these are the extents.
\<close>

lemma split_apply_loop_tail:
  assumes "splits_extents ext sp" "\<forall>f \<in> set (drop j sz). 0 < f" "prod_list (drop j sz) < 2 ^ 63" "j < length sz"
    and "0 < ext ax" "ext ax \<le> prod_list (drop j sz)"
  shows "\<exists>axs. split_apply_loop sp sz [Suc j..<length sz] ret ax = ret @ axs \<and> ext ax \<le> prod_list (map ext axs) \<and>
     list_all2 (\<lambda>a f. 0 < ext a \<and> ext a \<le> f) axs (drop j sz) \<and>
     (ext ax = prod_list (drop j sz) \<longrightarrow> map ext axs = drop j sz)"
  using assms(2-6)
proof (induction "length sz - j" arbitrary: j ret ax)
  case (Suc m)
  let ?r = "drop (Suc j) sz" and ?P = "prod_list (drop (Suc j) sz)"
  have split: "drop j sz = sz ! j # ?r" using Suc.prems(3) by (rule Cons_nth_drop_Suc[symmetric])
  have r: "\<forall>f \<in> set ?r. 0 < f" "0 < sz ! j" using Suc.prems(1) split by auto
  then have P: "0 < ?P" by (intro prod_list_pos) auto
  have "?P \<le> prod_list (drop j sz)" using P r(2) by (simp add: split mult_le_cancel_right1)
  with Suc.prems(2) have small: "?P < 2 ^ 63" by simp
  show ?case
  proof (cases "Suc j < length sz")
    case False
    then show ?thesis using Suc.prems by (intro exI[of _ "[ax]"]) (simp add: split)
  next
    case True
    obtain a b where ab: "sp ax ?P = (a, b)" by fastforce
    note e = splits_extentsD[OF assms(1) Suc.prems(4) P ab]
    have cover: "ext ax \<le> ext a * ?P" "ext a * ?P < ext ax + ?P" using ceil_div_cover[OF P, of "ext ax"] e(1) by simp_all
    have pa: "0 < ext a" using cover(1) Suc.prems(4) P by (smt (verit) mult_nonpos_nonneg)
    have "ext a * ?P < (sz ! j + 1) * ?P" using cover(2) Suc.prems(5) by (simp add: split distrib_right)
    then have la: "ext a \<le> sz ! j" using P by (simp add: mult_less_cancel_right)
    have pb: "0 < ext b" "ext b \<le> ?P" using e(2) P Suc.prems(4) by auto
    have run: "split_apply_loop sp sz [Suc j..<length sz] ret ax = split_apply_loop sp sz [Suc (Suc j)..<length sz] (ret @ [a]) b"
      using True P small ab by (simp add: upt_conv_Cons)
    have m: "m = length sz - Suc j" using Suc.hyps(2) by simp
    obtain axs where axs: "split_apply_loop sp sz [Suc (Suc j)..<length sz] (ret @ [a]) b = (ret @ [a]) @ axs"
        "ext b \<le> prod_list (map ext axs)" "list_all2 (\<lambda>a f. 0 < ext a \<and> ext a \<le> f) axs ?r" "ext b = ?P \<longrightarrow> map ext axs = ?r"
      using Suc.hyps(1)[OF m r(1) small True pb, of "ret @ [a]"] by auto
    have "ext ax \<le> ext a * ext b"
    proof (cases "ext b = ?P")
      case False
      then have "ext b = ext ax" using e(2) by (simp add: min_def split: if_splits)
      then show ?thesis using pa Suc.prems(4) by (simp add: mult_le_cancel_right1)
    qed (use cover(1) in simp)
    also have "\<dots> \<le> ext a * prod_list (map ext axs)" using axs(2) pa by simp
    finally have "ext ax \<le> prod_list (map ext (a # axs))" by simp
    moreover have "map ext (a # axs) = drop j sz" if full: "ext ax = prod_list (drop j sz)"
    proof -
      have "ext a = sz ! j" using e(1) ceil_div_mult[OF P, of "sz ! j"] by (simp add: full split)
      moreover have "?P \<le> ext ax" using full \<open>?P \<le> prod_list (drop j sz)\<close> by simp
      then have "ext b = ?P" using e(2) by auto
      ultimately show ?thesis using axs(4) split by simp
    qed
    ultimately show ?thesis using run axs(1,3) pa la by (intro exI[of _ "a # axs"]) (simp add: split)
  qed
qed simp

lemma split_apply_extents:
  assumes "splits_extents ext sp" "fs \<noteq> []" "\<forall>f \<in> set fs. 0 < f" "prod_list fs < 2 ^ 63" "0 < ext ax"
  shows "\<exists>a axs. split_apply sp (x # fs) ax = a # axs \<and> ext a = (ext ax + prod_list fs - 1) div prod_list fs \<and>
     ext ax \<le> prod_list (map ext (a # axs)) \<and> list_all2 (\<lambda>a f. 0 < ext a \<and> ext a \<le> f) axs fs \<and>
     (prod_list fs \<le> ext ax \<or> ext (snd (sp ax (prod_list fs))) = prod_list fs \<longrightarrow> map ext axs = fs)"
proof -
  let ?P = "prod_list fs"
  have P: "0 < ?P" using assms(3) by (intro prod_list_pos) auto
  obtain a b where ab: "sp ax ?P = (a, b)" by fastforce
  note e = splits_extentsD[OF assms(1,5) P ab]
  have cover: "ext ax \<le> ext a * ?P" using ceil_div_cover[OF P, of "ext ax"] e(1) by simp
  have pa: "0 < ext a" using cover assms(5) P by (smt (verit) mult_nonpos_nonneg)
  have run: "split_apply sp (x # fs) ax = split_apply_loop sp (x # fs) [Suc 1..<length (x # fs)] [a] b"
    using assms(2,4) P ab by (cases fs) (simp_all add: split_apply_def upt_conv_Cons del: upt_Suc)
  have "0 < ext b" "ext b \<le> ?P" using e(2) P assms(5) by auto
  then obtain axs where axs: "split_apply_loop sp (x # fs) [Suc 1..<length (x # fs)] [a] b = [a] @ axs"
      "ext b \<le> prod_list (map ext axs)" "list_all2 (\<lambda>a f. 0 < ext a \<and> ext a \<le> f) axs fs" "ext b = ?P \<longrightarrow> map ext axs = fs"
    using split_apply_loop_tail[OF assms(1), of 1 "x # fs" b "[a]"] assms(2-4) by auto
  have "ext ax \<le> ext a * ext b"
  proof (cases "ext b = ?P")
    case False
    then have "ext b = ext ax" using e(2) by (simp add: min_def split: if_splits)
    then show ?thesis using pa assms(5) by (simp add: mult_le_cancel_right1)
  qed (use cover in simp)
  also have "\<dots> \<le> ext a * prod_list (map ext axs)" using axs(2) pa by simp
  finally have "ext ax \<le> prod_list (map ext (a # axs))" by simp
  moreover have "map ext axs = fs" if "?P \<le> ext ax \<or> ext (snd (sp ax ?P)) = ?P" using that e(2) axs(4) ab by auto
  ultimately show ?thesis using run axs(1,3) e(1) by auto
qed

section \<open>Properties\<close>

lemma factor_tuples_of_divisor:
  assumes "0 < n"
  shows "{fs. length fs = j \<and> set fs \<subseteq> {f \<in> divisors n. f \<le> m} \<and> split_ok n True fs}
       = {fs. length fs = j \<and> (\<forall>f \<in> set fs. 0 < f \<and> f \<le> m) \<and> prod_list fs dvd n}"
proof -
  have "set fs \<subseteq> {f \<in> divisors n. f \<le> m} \<and> split_ok n True fs
      \<longleftrightarrow> (\<forall>f \<in> set fs. 0 < f \<and> f \<le> m) \<and> prod_list fs dvd n" for fs
    using assms dvd_prod_list[of _ fs]
    by (auto simp: split_ok_def divisors_def mod_eq_0_iff_dvd zdvd_imp_le intro: dvd_trans)
  then show ?thesis by auto
qed

text \<open>C2: Under the policy "factors" a split knob of an axis of length n into k axes (k at least
  two) enumerates exactly once every tuple of k-1 inner factors whose product divides n, none of
  them above the maximum factor, restricted to the entities the caller's filter accepts; the
  outermost size is left as -1.\<close>

theorem split_space_factors_complete:
  assumes "0 < n" and "1 < k"
  shows "\<exists>es. split_space_init set_list [VirtualAxis s n] ''factors''
            \<lparr>kw_max_factor = Some m, kw_filter = Some p, kw_num_outputs = Some (int k),
             kw_no_tail = None, kw_candidate = c\<rparr> = Inr (SplitSpace ''factors'' n k es)
          \<and> distinct es
          \<and> set es = {SplitEntity (-1 # fs) | fs. length fs = k - 1
               \<and> (\<forall>f \<in> set fs. 0 < f \<and> f \<le> m) \<and> prod_list fs dvd n \<and> p (SplitEntity (-1 # fs))}"
proof -
  obtain ds where ds: "get_factors n = Inr ds" "set ds = divisors n" "distinct ds"
    using get_factors_pos[OF assms(1)] by auto
  let ?fs = "filter (\<lambda>x. x \<le> m) ds"
  let ?es = "filter p (map (\<lambda>ys. SplitEntity (-1 # ys))
    (filter (split_ok n True) (List.n_lists (k - 1) ?fs)))"
  have "split_space_init set_list [VirtualAxis s n] ''factors''
      \<lparr>kw_max_factor = Some m, kw_filter = Some p, kw_num_outputs = Some (int k),
       kw_no_tail = None, kw_candidate = c\<rparr> = Inr (SplitSpace ''factors'' n k ?es)"
    using assms ds by (subst split_space_generated[where fs = ?fs and n = n])
      (auto simp: split_factors_def divisors_def)
  moreover have "distinct ?es"
    using ds(3) by (intro distinct_filter distinct_filter_map_split distinct_n_lists) simp
  moreover have "set ?es = {SplitEntity (-1 # fs) | fs. length fs = k - 1
               \<and> (\<forall>f \<in> set fs. 0 < f \<and> f \<le> m) \<and> prod_list fs dvd n \<and> p (SplitEntity (-1 # fs))}"
    using factor_tuples_of_divisor[OF assms(1), of "k - 1" m] ds(2)
    by (auto simp: mem_n_lists)
  ultimately show ?thesis by blast
qed

theorem split_space_factors_complete_witness:
  "(0::int) < 12 \<and> (1::nat) < 3 \<and>
   (\<exists>es. split_space_init remdups [VirtualAxis ''x'' 12] ''factors''
        \<lparr>kw_max_factor = Some 4, kw_filter = Some (\<lambda>e. e \<noteq> SplitEntity [-1, 1, 1]),
         kw_num_outputs = Some 3, kw_no_tail = None, kw_candidate = None\<rparr>
      = Inr (SplitSpace ''factors'' 12 3 es)
     \<and> distinct es \<and> SplitEntity [-1, 2, 3] \<in> set es \<and> SplitEntity [-1, 1, 1] \<notin> set es
     \<and> SplitEntity [-1, 6, 1] \<notin> set (es :: nat entity list))"
proof -
  from split_space_factors_complete[of 12 3 remdups "''x''" 4
      "\<lambda>e. e \<noteq> (SplitEntity [-1, 1, 1] :: nat entity)" None]
  obtain es where es: "split_space_init remdups [VirtualAxis ''x'' 12] ''factors''
        \<lparr>kw_max_factor = Some 4, kw_filter = Some (\<lambda>e. e \<noteq> (SplitEntity [-1, 1, 1] :: nat entity)),
         kw_num_outputs = Some 3, kw_no_tail = None, kw_candidate = None\<rparr>
      = Inr (SplitSpace ''factors'' 12 3 es)" "distinct es"
    and set: "set es = {SplitEntity (-1 # fs) | fs. length fs = 3 - 1
               \<and> (\<forall>f \<in> set fs. 0 < f \<and> f \<le> 4) \<and> prod_list fs dvd 12
               \<and> SplitEntity (-1 # fs) \<noteq> (SplitEntity [-1, 1, 1] :: nat entity)}"
    by auto
  have "SplitEntity [-1, 2, 3] \<in> set es"
    unfolding set by (rule CollectI, rule exI[of _ "[2, 3]"]) simp
  with es show ?thesis by (auto simp: set)
qed

text \<open>A split entity the policy "factors" offers for an axis of length n leaves no tail:
  applied with the schedule primitive that makes an outer axis of the rounded-up quotient and an
  inner axis of the factor, the extents of the axes it makes multiply to exactly n, and the inner
  ones are the entity's sizes.\<close>

theorem split_apply_no_tail:
  assumes "split_space_init set_list [VirtualAxis s n] ''factors''
            \<lparr>kw_max_factor = Some m, kw_filter = fil, kw_num_outputs = Some (int k),
             kw_no_tail = None, kw_candidate = c\<rparr> = Inr (SplitSpace ''factors'' n k es)"
    and "1 < k" and "n < 2 ^ 63" and "SplitEntity sz \<in> set es"
  shows "prod_list (split_apply (split_extent keep) sz n) = n \<and> tl (split_apply (split_extent keep) sz n) = tl sz"
proof -
  obtain ds where ds: "get_factors n = Inr ds"
    using assms(1,2) by (auto simp: split_space_init_def split_factors_def Let_def)
  note n = get_factors_Inr[OF ds]
  let ?fs = "filter (\<lambda>x. x \<le> m) ds"
  have "es = filter (case fil of None \<Rightarrow> (\<lambda>_. True) | Some p \<Rightarrow> p) (map (\<lambda>ys. SplitEntity (-1 # ys))
    (filter (split_ok n True) (List.n_lists (k - 1) ?fs)))"
    using assms(1,2) ds n
    by (subst (asm) split_space_generated[where fs = ?fs and n = n])
      (auto simp: split_factors_def divisors_def)
  with assms(4) obtain fs where sz: "sz = -1 # fs" and len: "length fs = k - 1"
    and pos: "\<forall>f \<in> set fs. 0 < f" and ok: "split_ok n True fs"
    using n(2) by (auto simp: mem_n_lists divisors_def)
  then have P: "0 < prod_list fs" "prod_list fs dvd n" "prod_list fs < 2 ^ 63"
    using assms(3) by (auto simp: split_ok_def mod_eq_0_iff_dvd intro: prod_list_pos)
  have "fs \<noteq> []" using len assms(2) by auto
  have "0 < n" using n(1) .
  moreover from this have "prod_list fs \<le> n" using P by (intro zdvd_imp_le) auto
  ultimately obtain a where "split_apply (split_extent keep) sz n = a # fs" "a = (n + prod_list fs - 1) div prod_list fs"
    using split_apply_extents[OF split_extent_splits[of keep] \<open>fs \<noteq> []\<close> pos P(3), of n "-1"] by (auto simp: sz)
  with P show ?thesis by (simp add: sz ceil_div_exact)
qed

theorem split_apply_no_tail_witness:
  "\<exists>es. split_space_init remdups [VirtualAxis ''x'' 12] ''factors''
        \<lparr>kw_max_factor = Some 12, kw_filter = None,
         kw_num_outputs = Some 3, kw_no_tail = None, kw_candidate = None\<rparr>
      = Inr (SplitSpace ''factors'' 12 3 es) \<and> SplitEntity [-1, 2, 3] \<in> set (es :: nat entity list)
     \<and> prod_list (split_apply (split_extent False) [-1, 2, 3] 12) = 12
     \<and> tl (split_apply (split_extent False) [-1, 2, 3] 12) = [2, 3]"
proof -
  let ?kw = "\<lparr>kw_max_factor = Some 12, kw_filter = None, kw_num_outputs = Some (int 3),
    kw_no_tail = None, kw_candidate = None\<rparr> :: nat split_kwargs"
  have "split_space_init remdups [VirtualAxis ''x'' 12] ''factors'' ?kw
      = Inr (SplitSpace ''factors'' 12 3 (map (\<lambda>ys. SplitEntity (-1 # ys))
          (filter (split_ok 12 True) (List.n_lists 2 [1, 2, 3, 4, 6, 12]))))" (is "_ = Inr (SplitSpace _ _ _ ?es)")
    by code_simp
  moreover have "SplitEntity [-1, 2, 3] \<in> set ?es" by code_simp
  ultimately show ?thesis
    using split_apply_no_tail[of remdups "''x''" 12 12 None 3 None ?es "[-1, 2, 3]"] by auto
qed

text \<open>C6: Applying a split with positive inner sizes, for every split primitive whose outer axis has the rounded-up
  quotient as extent and whose inner axis has the factor (or the shorter parent) as extent. The outer extent is the
  least number of inner tiles that covers the axis, no inner axis is longer than its size, all axes together cover
  the axis, and where the axis has room for one tile, or the primitive keeps the factor, the inner extents are exactly
  the sizes of the entity.\<close>

theorem split_apply_covers:
  assumes "splits_extents ext sch_split" "0 < ext ax" "fs \<noteq> []" "\<forall>f \<in> set fs. 0 < f" "prod_list fs < 2 ^ 63"
  shows "\<exists>a axs. split_apply sch_split (x # fs) ax = a # axs \<and>
     (ext a - 1) * prod_list fs < ext ax \<and> ext ax \<le> ext a * prod_list fs \<and>
     ext ax \<le> prod_list (map ext (a # axs)) \<and> list_all2 (\<lambda>b f. 0 < ext b \<and> ext b \<le> f) axs fs \<and>
     (prod_list fs \<le> ext ax \<or> ext (snd (sch_split ax (prod_list fs))) = prod_list fs \<longrightarrow> map ext axs = fs)"
proof -
  have P: "0 < prod_list fs" using assms(4) by (intro prod_list_pos) auto
  obtain a axs where s: "split_apply sch_split (x # fs) ax = a # axs" "ext a = (ext ax + prod_list fs - 1) div prod_list fs"
     "ext ax \<le> prod_list (map ext (a # axs))" "list_all2 (\<lambda>b f. 0 < ext b \<and> ext b \<le> f) axs fs"
     "prod_list fs \<le> ext ax \<or> ext (snd (sch_split ax (prod_list fs))) = prod_list fs \<longrightarrow> map ext axs = fs"
    using split_apply_extents[OF assms(1,3,4,5,2), of x] by blast
  have "ext ax \<le> ext a * prod_list fs" "(ext a - 1) * prod_list fs < ext ax"
    using ceil_div_cover[OF P, of "ext ax"] unfolding s(2) by (simp_all add: left_diff_distrib)
  with s show ?thesis by blast
qed

theorem split_apply_covers_witness:
  "splits_extents id (split_extent False) \<and> split_apply (split_extent False) [-1, 4, 8] 100 = [4, 4, 8]"
proof -
  have s: "splits_extents id (split_extent False)" by (rule split_extent_splits)
  from split_apply_covers[OF s, of 100 "[4, 8]" "-1"] obtain a axs where
    *: "split_apply (split_extent False) [-1, 4, 8] 100 = a # axs" "(a - 1) * 32 < 100" "100 \<le> a * 32" "axs = [4, 8]" by auto
  from *(2,3) have "a = 4" by presburger
  with s * show ?thesis by auto
qed

text \<open>With a single output axis no generating policy produces a space, although the source
  admits every positive number of outputs: the product over an empty tuple is taken with a
  reduction that has no initial value, which raises a type error.\<close>

theorem split_space_single_output_raises:
  assumes "0 < n" and "policy \<in> {''factors'', ''power2'', ''verbose''}"
  shows "split_space_init set_list [VirtualAxis s n] policy
           \<lparr>kw_max_factor = mf, kw_filter = fil, kw_num_outputs = Some 1,
            kw_no_tail = nt, kw_candidate = c\<rparr> = Inl TypeError"
  using assms get_factors_pos[OF assms(1)] get_pow2s_pos[OF assms(1)]
  by (auto simp: split_space_init_def split_factors_def Let_def)

theorem split_space_single_output_raises_witness:
  "split_space_init remdups [VirtualAxis ''x'' 8] ''power2''
     \<lparr>kw_max_factor = None, kw_filter = None, kw_num_outputs = Some 1,
      kw_no_tail = None, kw_candidate = None\<rparr> = (Inl TypeError :: nat space py)"
  by (rule split_space_single_output_raises) auto

end
