(* ===== verification/Reorder_Space.thy ===== *)
theory Reorder_Space
  imports Knob "HOL-Library.Sublist"
begin

text \<open>
  \<^verbatim>\<open>ReorderSpace\<close> and \<^verbatim>\<open>ReorderEntity\<close> of \<^verbatim>\<open>python/tvm/autotvm/task/space.py\<close>: the orderings
  each policy offers, the chain merge behind the interleaving policies, and the application of
  an ordering to a list of axes. The lemmas show which orderings each policy offers for the arguments
  it is meant for, that they are permutations, and that the chain merge yields exactly one
  interleaving.
\<close>

section \<open>Chain merge\<close>

text \<open>\<^verbatim>\<open>np.argmax\<close>: the first position of the maximum.\<close>

fun np_argmax :: "int list \<Rightarrow> nat" where
  "np_argmax [] = 0"
| "np_argmax [x] = 0"
| "np_argmax (x # y # ys) =
     (let j = np_argmax (y # ys) in if (y # ys) ! j \<le> x then 0 else Suc j)"

text \<open>
  \<^verbatim>\<open>_merge_dfs\<close>: \<open>pt\<close> is \<^verbatim>\<open>tmp_pt\<close> and \<open>stk\<close> is \<^verbatim>\<open>tmp_stack\<close>; the two decrements after the
  recursive call restore them, so the recursion works on copies. \<open>pt\<close> has one entry per chain.
\<close>

function merge_dfs :: "'a list list \<Rightarrow> nat list \<Rightarrow> 'a list \<Rightarrow> 'a list list" where
  "merge_dfs chs pt stk =
     (if sum_list pt = sum_list (map length chs) then [stk]
      else concat (map (\<lambda>i.
        if i < length pt \<and> pt ! i < length (chs ! i)
           \<and> i = np_argmax (map (\<lambda>x. int (length (chs ! x)) - int (pt ! x)) [0..<length chs])
        then merge_dfs chs (pt[i := pt ! i + 1]) (stk @ [chs ! i ! (pt ! i)])
        else []) [0..<length chs]))"
  by pat_completeness auto
termination
proof (relation "measure (\<lambda>(chs, pt, stk). \<Sum>j<length pt. length (chs ! j) - pt ! j)", goal_cases)
  case (2 chs pt stk i)
  then have i: "i < length pt" "pt ! i < length (chs ! i)" by auto
  have "(\<Sum>j<length pt. length (chs ! j) - (pt[i := pt ! i + 1]) ! j)
      < (\<Sum>j<length pt. length (chs ! j) - pt ! j)"
    using i by (intro sum_strict_mono_ex1) (auto simp: nth_list_update intro!: bexI[of _ i])
  then show ?case by simp
qed auto

declare merge_dfs.simps [simp del]

definition merge_chain :: "'a list list \<Rightarrow> 'a list list" where
  "merge_chain chs = merge_dfs chs (replicate (length chs) 0) []"

lemma np_argmax_less: "xs \<noteq> [] \<Longrightarrow> np_argmax xs < length xs"
  by (induction xs rule: np_argmax.induct) (auto simp: Let_def)

lemma np_argmax_max: "x \<in> set xs \<Longrightarrow> x \<le> xs ! np_argmax xs"
proof (induction xs rule: np_argmax.induct)
  case (3 x y ys)
  then show ?case by (fastforce simp: Let_def)
qed auto

definition remaining :: "'a list list \<Rightarrow> nat list \<Rightarrow> 'a list list" where
  "remaining chs pt = map2 drop pt chs"

definition pt_ok :: "'a list list \<Rightarrow> nat list \<Rightarrow> bool" where
  "pt_ok chs pt \<longleftrightarrow> length pt = length chs \<and> (\<forall>i < length chs. pt ! i \<le> length (chs ! i))"

lemma length_remaining [simp]: "length pt = length chs \<Longrightarrow> length (remaining chs pt) = length chs"
  by (simp add: remaining_def)

lemma nth_remaining [simp]:
  "length pt = length chs \<Longrightarrow> i < length chs \<Longrightarrow> remaining chs pt ! i = drop (pt ! i) (chs ! i)"
  by (simp add: remaining_def)

lemma sum_length_remaining:
  "pt_ok chs pt \<Longrightarrow> sum_list pt + length (concat (remaining chs pt)) = sum_list (map length chs)"
proof (induction chs arbitrary: pt)
  case Nil
  then show ?case by (simp add: pt_ok_def remaining_def)
next
  case (Cons c chs)
  then obtain p pt' where pt: "pt = p # pt'" by (cases pt) (auto simp: pt_ok_def)
  have nth: "(p # pt') ! i \<le> length ((c # chs) ! i)" if "i < Suc (length chs)" for i
    using Cons.prems that by (auto simp: pt_ok_def pt)
  have "p \<le> length c" using nth[of 0] by simp
  moreover have "pt_ok chs pt'"
    using Cons.prems nth[of "Suc i" for i] by (auto simp: pt_ok_def pt)
  ultimately show ?case using Cons.IH[of pt'] by (simp add: pt remaining_def)
qed

lemma remaining_step:
  assumes "pt_ok chs pt" and "i < length chs" and "pt ! i < length (chs ! i)"
  shows "remaining chs (pt[i := pt ! i + 1]) = (remaining chs pt)[i := drop (pt ! i + 1) (chs ! i)]"
    and "remaining chs pt ! i = chs ! i ! (pt ! i) # drop (pt ! i + 1) (chs ! i)"
  using assms by (auto simp: pt_ok_def nth_list_update Cons_nth_drop_Suc intro!: nth_equalityI)

lemma mset_concat_update:
  assumes "i < length xss" and "xss ! i = x # ys"
  shows "mset (concat xss) = add_mset x (mset (concat (xss[i := ys])))"
  using assms by (subst id_take_nth_drop[OF assms(1)]) (simp add: upd_conv_take_nth_drop)

lemma concat_map_single: "i < n \<Longrightarrow> concat (map (\<lambda>j. if j = i then r else []) [0..<n]) = r"
proof (induction n)
  case (Suc n)
  have "concat (map (\<lambda>j. if j = n then r else []) [0..<n]) = []" by simp
  with Suc show ?case by (cases "i = n") auto
qed simp

text \<open>
  One step of the merge: exactly one chain is at the maximum, so the loop over the chains makes
  exactly one recursive call.
\<close>

lemma merge_dfs_step:
  assumes ok: "pt_ok chs pt" and more: "concat (remaining chs pt) \<noteq> []"
  obtains i where "i < length chs" and "pt ! i < length (chs ! i)"
    and "merge_dfs chs pt stk
       = merge_dfs chs (pt[i := pt ! i + 1]) (stk @ [chs ! i ! (pt ! i)])"
proof -
  let ?ds = "map (\<lambda>x. int (length (chs ! x)) - int (pt ! x)) [0..<length chs]"
  let ?i = "np_argmax ?ds"
  let ?r = "merge_dfs chs (pt[?i := pt ! ?i + 1]) (stk @ [chs ! ?i ! (pt ! ?i)])"
  have len: "length pt = length chs" using ok by (simp add: pt_ok_def)
  obtain k where k: "k < length chs" "remaining chs pt ! k \<noteq> []"
    using more len by (auto simp: in_set_conv_nth)
  then have "pt ! k < length (chs ! k)" using len by auto
  moreover have "int (length (chs ! k)) - int (pt ! k) \<le> ?ds ! ?i"
    using k(1) by (intro np_argmax_max) auto
  moreover have i: "?i < length chs"
    using k(1) np_argmax_less[of ?ds] by (cases "chs = []") simp_all
  ultimately have lt: "pt ! ?i < length (chs ! ?i)" by simp
  have ne: "sum_list pt \<noteq> sum_list (map length chs)"
    using sum_length_remaining[OF ok] more by (cases "concat (remaining chs pt)") simp_all
  have "merge_dfs chs pt stk = concat (map (\<lambda>j. if j = ?i then ?r else []) [0..<length chs])"
    using ne lt i len by (subst merge_dfs.simps) (auto intro!: arg_cong[of _ _ concat] map_cong)
  also have "\<dots> = ?r" using i by (rule concat_map_single)
  finally show ?thesis using that i lt by blast
qed

lemma merge_dfs_single:
  assumes "pt_ok chs pt"
  shows "\<exists>r. merge_dfs chs pt stk = [stk @ r] \<and> mset r = mset (concat (remaining chs pt))
           \<and> (\<forall>i < length chs. subseq (remaining chs pt ! i) r)"
  using assms
proof (induction "length (concat (remaining chs pt))" arbitrary: pt stk)
  case 0
  then have "concat (remaining chs pt) = []" by simp
  moreover have "sum_list pt = sum_list (map length chs)"
    using sum_length_remaining[OF "0.prems"] 0 by simp
  moreover have "remaining chs pt ! i = []" if "i < length chs" for i
  proof -
    have "i < length (remaining chs pt)" using that "0.prems" by (simp add: pt_ok_def)
    then have "remaining chs pt ! i \<in> set (remaining chs pt)" by (rule nth_mem)
    with calculation(1) show ?thesis by (simp only: concat_eq_Nil_conv)
  qed
  ultimately show ?case by (subst merge_dfs.simps) auto
next
  case (Suc n)
  from Suc.hyps(2) have "concat (remaining chs pt) \<noteq> []" by (cases "concat (remaining chs pt)") simp_all
  with Suc.prems obtain i where i: "i < length chs" "pt ! i < length (chs ! i)"
    and eq: "merge_dfs chs pt stk
       = merge_dfs chs (pt[i := pt ! i + 1]) (stk @ [chs ! i ! (pt ! i)])"
    by (rule merge_dfs_step)
  let ?pt = "pt[i := pt ! i + 1]" and ?x = "chs ! i ! (pt ! i)"
  have ok: "pt_ok chs ?pt" using Suc.prems i by (auto simp: pt_ok_def nth_list_update)
  have len: "length pt = length chs" using Suc.prems by (simp add: pt_ok_def)
  note step = remaining_step[OF Suc.prems i]
  have ms: "mset (concat (remaining chs pt)) = add_mset ?x (mset (concat (remaining chs ?pt)))"
    using i len step by (simp add: mset_concat_update)
  have "length (concat (remaining chs pt)) = Suc (length (concat (remaining chs ?pt)))"
    using arg_cong[OF ms, of size] by (simp only: size_mset size_add_mset)
  with Suc.hyps(2) have "n = length (concat (remaining chs ?pt))" by simp
  from Suc.hyps(1)[OF this ok] obtain r where r:
    "merge_dfs chs ?pt (stk @ [?x]) = [(stk @ [?x]) @ r]" "mset r = mset (concat (remaining chs ?pt))"
    "\<forall>j < length chs. subseq (remaining chs ?pt ! j) r" by blast
  have "subseq (remaining chs pt ! j) (?x # r)" if "j < length chs" for j
    using r(3)[rule_format, OF that] that i len step
    by (cases "j = i") (auto simp: nth_list_update)
  with r ms eq show ?case by auto
qed

lemma merge_chain_single:
  "\<exists>r. merge_chain chs = [r] \<and> mset r = mset (concat chs) \<and> (\<forall>c \<in> set chs. subseq c r)"
proof -
  have "remaining chs (replicate (length chs) 0) = chs"
    by (auto simp: remaining_def intro!: nth_equalityI)
  with merge_dfs_single[of chs "replicate (length chs) 0" "[]"] show ?thesis
    by (auto simp: merge_chain_def pt_ok_def in_set_conv_nth)
qed

section \<open>The space\<close>

record 'a reorder_kwargs =
  kw_interval :: "(nat \<times> nat) option"
  kw_candidate_axes :: "'a list list option"
  kw_spatial :: "'a list list option"
  kw_reduce :: "'a list list option"

text \<open>A missing keyword argument raises \<^verbatim>\<open>KeyError\<close>.\<close>

definition kw_get :: "'b option \<Rightarrow> 'b py" where
  "kw_get x = (case x of None \<Rightarrow> Inl KeyError | Some v \<Rightarrow> Inr v)"

definition axis_positions :: "'a list \<Rightarrow> 'a list list \<Rightarrow> nat list list py" where
  "axis_positions axes chs = mapE (mapE (py_index axes)) chs"

text \<open>\<^verbatim>\<open>x[-1:]\<close>\<close>

definition last_slice :: "'a list \<Rightarrow> 'a list" where
  "last_slice x = (if x = [] then [] else [last x])"

definition reorder_perms :: "'a list \<Rightarrow> string \<Rightarrow> 'a reorder_kwargs \<Rightarrow> nat list list py" where
  "reorder_perms axes policy kw =
     (let n = length axes in
      if policy = ''identity'' then Inr [[0..<n]]
      else if policy = ''all'' then Inr (permutations [0..<n])
      else if policy = ''interval_all'' then
        bindE (kw_get (kw_interval kw)) (\<lambda>(b, e).
          Inr (map (\<lambda>x. [0..<b] @ x @ [e..<n]) (permutations [b..<e])))
      else if policy = ''candidate'' then
        bindE (kw_get (kw_candidate_axes kw)) (axis_positions axes)
      else if policy = ''interleave'' then
        bindE (kw_get (kw_spatial kw)) (\<lambda>sp. bindE (kw_get (kw_reduce kw)) (\<lambda>rd.
        bindE (axis_positions axes sp) (\<lambda>spatial. bindE (axis_positions axes rd) (\<lambda>red.
          Inr (concat (map (\<lambda>o1. map (\<lambda>i1. o1 @ i1) (merge_chain (map last_slice spatial @ red)))
                 (merge_chain (map butlast spatial))))))))
      else if policy = ''interleave_cuda'' then
        bindE (kw_get (kw_spatial kw)) (\<lambda>sp. bindE (kw_get (kw_reduce kw)) (\<lambda>rd.
        bindE (axis_positions axes sp) (\<lambda>spatial. bindE (axis_positions axes rd) (\<lambda>red.
        bindE (mapE (\<lambda>x. py_nth x (-1)) spatial) (\<lambda>inner_merged.
          Inr (concat (map (\<lambda>o1. map (\<lambda>r. o1 @ r @ inner_merged) (merge_chain red))
                 (merge_chain (map butlast spatial)))))))))
      else Inl RuntimeError)"

definition reorder_space_init :: "'a list \<Rightarrow> string \<Rightarrow> 'a reorder_kwargs \<Rightarrow> 'v space py" where
  "reorder_space_init axes policy kw =
     bindE (reorder_perms axes policy kw) (\<lambda>ps.
       Inr (ReorderSpace policy (length axes) (map ReorderEntity ps)))"

text \<open>
  \<^verbatim>\<open>ReorderEntity.apply\<close>: the new order, which is also the argument list of the one
  \<^verbatim>\<open>sch[op].reorder\<close> call it makes.
\<close>

definition reorder_apply :: "nat list \<Rightarrow> 'ax list \<Rightarrow> 'ax list py" where
  "reorder_apply perm axes =
     (if length axes = length perm then mapE (\<lambda>i. py_nth axes (int i)) perm
      else mapE (\<lambda>i. py_nth axes (int i)) (filter (\<lambda>i. i < length axes) perm))"

section \<open>Properties\<close>

lemma reorder_apply_perm:
  assumes "mset perm = mset [0..<length axes]"
  shows "\<exists>ys. reorder_apply perm axes = Inr ys \<and> ys = map ((!) axes) perm \<and> mset ys = mset axes"
proof -
  have "length perm = length axes" using arg_cong[OF assms, of size] by simp
  moreover have "set perm = {0..<length axes}" using arg_cong[OF assms, of set_mset] by simp
  ultimately have "reorder_apply perm axes = Inr (map ((!) axes) perm)"
    by (auto simp: reorder_apply_def py_nth_of_nat intro!: mapE_total)
  moreover have "mset (map ((!) axes) perm) = mset (map ((!) axes) [0..<length axes])"
    using assms by (simp only: mset_map)
  ultimately show ?thesis by (simp add: map_nth del: mset_map)
qed

lemma mset_interval: "b \<le> e \<Longrightarrow> e \<le> n \<Longrightarrow>
  mset [0..<n] = mset [0..<b] + mset [b..<e] + mset [e..<n]"
  using upt_add_eq_append[of 0 b "n - b"] upt_add_eq_append[of b e "n - e"]
  by (simp del: mset_upt add: mset_append[symmetric] del: mset_append)

section \<open>All policies\<close>

text \<open>Positions of distinct axes: the list can be read back, and a rearrangement of the axes gives a permutation.\<close>

lemma positions_read_back:
  "set c \<subseteq> set axes \<Longrightarrow> \<exists>p. mapE (py_index axes) c = Inr p \<and> map ((!) axes) p = c \<and> (\<forall>i \<in> set p. i < length axes)"
proof (induction c)
  case (Cons x c)
  then obtain i p where "py_index axes x = Inr i" "i < length axes" "axes ! i = x" "mapE (py_index axes) c = Inr p"
    "map ((!) axes) p = c" "\<forall>i \<in> set p. i < length axes"
    using py_index_total[of x axes] py_index_Inr[of axes x] by auto
  then show ?case by (intro exI[of _ "i # p"]) simp
qed simp

lemma axis_positions_read_back:
  "\<forall>c \<in> set chs. set c \<subseteq> set axes \<Longrightarrow> \<exists>ps. axis_positions axes chs = Inr ps \<and> map (map ((!) axes)) ps = chs \<and>
     (\<forall>i \<in> set (concat ps). i < length axes)"
proof (induction chs)
  case (Cons c chs)
  then obtain p ps where "mapE (py_index axes) c = Inr p" "map ((!) axes) p = c" "\<forall>i \<in> set p. i < length axes"
    "axis_positions axes chs = Inr ps" "map (map ((!) axes)) ps = chs" "\<forall>i \<in> set (concat ps). i < length axes"
    using positions_read_back[of c axes] by auto
  then show ?case by (intro exI[of _ "p # ps"]) (auto simp: axis_positions_def)
qed (simp add: axis_positions_def)

lemma permutation_of_axes:
  assumes "distinct axes" "\<forall>i \<in> set p. i < length axes" "mset (map ((!) axes) p) = mset axes"
  shows "mset p = mset [0..<length axes]"
proof -
  have d: "distinct (map ((!) axes) p)" using assms(1,3) by (metis mset_eq_imp_distinct_iff)
  then have "distinct p" by (simp add: distinct_map)
  moreover have "length p = length axes" using arg_cong[OF assms(3), of size] by simp
  then have "card (set p) = length axes" using \<open>distinct p\<close> by (simp add: distinct_card)
  then have "set p = {..<length axes}" using assms(2) by (intro card_subset_eq) auto
  ultimately show ?thesis by (subst set_eq_iff_mset_eq_distinct[symmetric]) (simp_all add: atLeast0LessThan)
qed

lemma mset_butlast_last:
  "mset (concat (map butlast cs)) + mset (concat (map last_slice cs)) = mset (concat cs)"
proof (induction cs)
  case (Cons c cs)
  have "butlast c @ last_slice c = c" by (simp add: last_slice_def)
  then have "mset (butlast c) + mset (last_slice c) = mset c" by (metis mset_append)
  with Cons show ?case by (simp add: ac_simps)
qed simp

text \<open>An interleaving policy offers one ordering. It holds every axis once, and each chain in its order.\<close>

lemma interleave_perm:
  assumes "policy \<in> {''interleave'', ''interleave_cuda''}" "kw_spatial kw = Some sp" "kw_reduce kw = Some rd"
    and "axis_positions axes sp = Inr spatial" "axis_positions axes rd = Inr red"
    and "policy = ''interleave_cuda'' \<longrightarrow> [] \<notin> set spatial"
  shows "\<exists>perm. reorder_perms axes policy kw = Inr [perm] \<and> mset perm = mset (concat spatial @ concat red) \<and>
     (\<forall>c \<in> set (spatial @ red). subseq c perm)"
proof -
  obtain o1 where o1: "merge_chain (map butlast spatial) = [o1]" "mset o1 = mset (concat (map butlast spatial))"
    "\<forall>c \<in> set (map butlast spatial). subseq c o1" using merge_chain_single by blast
  have split: "butlast c @ last_slice c = c" for c :: "nat list" by (simp add: last_slice_def)
  show ?thesis
  proof (cases "policy = ''interleave''")
    case True
    obtain i1 where i1: "merge_chain (map last_slice spatial @ red) = [i1]" "mset i1 = mset (concat (map last_slice spatial @ red))"
      "\<forall>c \<in> set (map last_slice spatial @ red). subseq c i1" using merge_chain_single by blast
    have "mset (o1 @ i1) = mset (concat spatial @ concat red)"
      using o1(2) i1(2) mset_butlast_last[of spatial] by (simp add: add.assoc[symmetric])
    moreover have "subseq c (o1 @ i1)" if "c \<in> set spatial" for c
      using that o1(3) i1(3) by (subst split[of c, symmetric]) (auto intro: list_emb_append_mono)
    moreover have "subseq c (o1 @ i1)" if "c \<in> set red" for c using that i1(3) by (auto intro: list_emb_append2)
    moreover have "reorder_perms axes policy kw = Inr [o1 @ i1]"
      using assms True o1(1) i1(1) by (simp add: reorder_perms_def kw_get_def)
    ultimately show ?thesis by auto
  next
    case False
    then have p: "policy = ''interleave_cuda''" using assms(1) by simp
    then have ne: "[] \<notin> set spatial" using assms(6) by simp
    obtain r1 where r1: "merge_chain red = [r1]" "mset r1 = mset (concat red)" "\<forall>c \<in> set red. subseq c r1"
      using merge_chain_single by blast
    have inner: "mapE (\<lambda>x. py_nth x (-1)) cs = Inr (map last cs)" "concat (map last_slice cs) = map last cs" if "[] \<notin> set cs" for cs :: "nat list list"
      using that by (induction cs) (auto simp: py_nth_def last_conv_nth last_slice_def Suc_le_eq)
    let ?perm = "o1 @ r1 @ map last spatial"
    have "mset ?perm = mset (concat spatial @ concat red)"
      using o1(2) r1(2) mset_butlast_last[of spatial] inner(2)[OF ne] by (simp add: ac_simps)
    moreover have "subseq c ?perm" if "c \<in> set spatial" for c
    proof -
      have "subseq (butlast c) o1" using o1(3) that by simp
      moreover have "subseq (last_slice c) (map last spatial)"
        using that ne by (auto simp: last_slice_def subseq_singleton_left)
      then have "subseq (last_slice c) (r1 @ map last spatial)" by (rule list_emb_append2)
      ultimately show ?thesis using list_emb_append_mono[of _ "butlast c" o1 "last_slice c"] split[of c] by metis
    qed
    moreover have "subseq c ?perm" if "c \<in> set red" for c using that r1(3) by (auto intro: list_emb_append2 subseq_rev_drop_many)
    moreover have "reorder_perms axes policy kw = Inr [?perm]"
      using assms(2-5) p o1(1) r1(1) inner(1)[OF ne] by (simp add: reorder_perms_def kw_get_def)
    ultimately show ?thesis by (intro exI[of _ ?perm]) auto
  qed
qed

text \<open>The arguments each policy is meant for.\<close>

definition reorder_args :: "'a list \<Rightarrow> string \<Rightarrow> 'a reorder_kwargs \<Rightarrow> bool" where
  "reorder_args axes policy kw \<longleftrightarrow>
     policy = ''identity'' \<or> policy = ''all'' \<or>
     policy = ''interval_all'' \<and> (case kw_interval kw of Some (b, e) \<Rightarrow> b \<le> e \<and> e \<le> length axes | None \<Rightarrow> False) \<or>
     policy = ''candidate'' \<and> (case kw_candidate_axes kw of Some cs \<Rightarrow> \<forall>c \<in> set cs. mset c = mset axes | None \<Rightarrow> False) \<or>
     policy \<in> {''interleave'', ''interleave_cuda''} \<and>
       (case (kw_spatial kw, kw_reduce kw) of
          (Some sp, Some rd) \<Rightarrow> mset (concat sp @ concat rd) = mset axes \<and> (policy = ''interleave_cuda'' \<longrightarrow> [] \<notin> set sp)
        | _ \<Rightarrow> False)"

text \<open>What the orderings of a policy are.\<close>

definition reorder_offers :: "'a list \<Rightarrow> string \<Rightarrow> 'a reorder_kwargs \<Rightarrow> nat list list \<Rightarrow> bool" where
  "reorder_offers axes policy kw ps \<longleftrightarrow>
     (let n = length axes; perms = {p. mset p = mset [0..<n]} in
      set ps \<subseteq> perms \<and>
      (if policy = ''identity'' then ps = [[0..<n]]
       else if policy = ''all'' then set ps = perms \<and> length ps = fact n
       else if policy = ''interval_all'' then
         (case kw_interval kw of Some (b, e) \<Rightarrow> set ps = {p \<in> perms. \<forall>i < n. i < b \<or> e \<le> i \<longrightarrow> p ! i = i} | None \<Rightarrow> False)
       else if policy = ''candidate'' then Some (map (map ((!) axes)) ps) = kw_candidate_axes kw
       else (\<exists>p. ps = [p] \<and> (\<forall>c \<in> set (the (kw_spatial kw) @ the (kw_reduce kw)). subseq c (map ((!) axes) p)))))"

lemma interval_perms:
  assumes "b \<le> e" "e \<le> n"
  shows "(\<lambda>x. [0..<b] @ x @ [e..<n]) ` {x. mset x = mset [b..<e]} = {p. mset p = mset [0..<n] \<and> (\<forall>i < n. i < b \<or> e \<le> i \<longrightarrow> p ! i = i)}"
    (is "?L = ?R")
proof
  have "mset ([0..<b] @ x @ [e..<n]) = mset [0..<n]" if "mset x = mset [b..<e]" for x
    using that mset_interval[OF assms] by simp
  moreover have "([0..<b] @ x @ [e..<n]) ! i = i" if "mset x = mset [b..<e]" "i < n" "i < b \<or> e \<le> i" for x i
  proof -
    have "length x = e - b" using arg_cong[OF that(1), of size] by simp
    with that assms show ?thesis by (auto simp: nth_append)
  qed
  ultimately show "?L \<subseteq> ?R" by blast
  show "?R \<subseteq> ?L"
  proof
    fix p assume "p \<in> ?R"
    then have p: "mset p = mset [0..<n]" "\<And>i. i < n \<Longrightarrow> i < b \<or> e \<le> i \<Longrightarrow> p ! i = i" by auto
    have len: "length p = n" using arg_cong[OF p(1), of size] by simp
    let ?x = "take (e - b) (drop b p)"
    have "take b p = [0..<b]" "drop e p = [e..<n]"
      using p(2) len assms by (auto intro!: nth_equalityI)
    moreover have "p = take b p @ ?x @ drop e p"
      by (metis append_take_drop_id assms(1) drop_drop le_add_diff_inverse2)
    ultimately have eq: "p = [0..<b] @ ?x @ [e..<n]" by simp
    have "mset ([0..<b] @ ?x @ [e..<n]) = mset [0..<b] + mset [b..<e] + mset [e..<n]"
      using p(1) mset_interval[OF assms] eq by metis
    then have "mset ?x = mset [b..<e]" by (simp del: mset_upt)
    with eq show "p \<in> ?L" by blast
  qed
qed

lemma reorder_perms_offers:
  assumes "distinct axes" "reorder_args axes policy kw"
  shows "\<exists>ps. reorder_perms axes policy kw = Inr ps \<and> reorder_offers axes policy kw ps"
proof -
  have "policy = ''identity'' \<or> policy = ''all'' \<or>
     policy = ''interval_all'' \<and> (\<exists>b e. kw_interval kw = Some (b, e) \<and> b \<le> e \<and> e \<le> length axes) \<or>
     policy = ''candidate'' \<and> (\<exists>cs. kw_candidate_axes kw = Some cs \<and> (\<forall>c \<in> set cs. mset c = mset axes)) \<or>
     policy \<in> {''interleave'', ''interleave_cuda''} \<and> (\<exists>sp rd. kw_spatial kw = Some sp \<and> kw_reduce kw = Some rd \<and>
        mset (concat sp @ concat rd) = mset axes \<and> (policy = ''interleave_cuda'' \<longrightarrow> [] \<notin> set sp))"
    using assms(2) unfolding reorder_args_def by (elim disj_forward conj_forward imp_forward; simp split: option.splits prod.splits)
  then show ?thesis
  proof (elim disjE conjE exE)
    assume "policy = ''identity''"
    then show ?thesis by (simp add: reorder_perms_def reorder_offers_def)
  next
    assume "policy = ''all''"
    then show ?thesis by (auto simp: reorder_perms_def reorder_offers_def Let_def mem_permutations_iff length_permutations)
  next
    fix b e assume 2: "policy = ''interval_all''" "kw_interval kw = Some (b, e)" "b \<le> e" "e \<le> length axes"
    then have "reorder_perms axes policy kw = Inr (map (\<lambda>x. [0..<b] @ x @ [e..<length axes]) (permutations [b..<e]))"
      by (simp add: reorder_perms_def kw_get_def)
    moreover have "set (map (\<lambda>x. [0..<b] @ x @ [e..<length axes]) (permutations [b..<e]))
        = {p. mset p = mset [0..<length axes] \<and> (\<forall>i < length axes. i < b \<or> e \<le> i \<longrightarrow> p ! i = i)}"
      unfolding interval_perms[OF 2(3,4), symmetric] by (auto simp: mem_permutations_iff)
    ultimately show ?thesis using 2(1,2) by (auto simp: reorder_offers_def Let_def simp del: mset_upt)
  next
    fix cs assume 3: "policy = ''candidate''" "kw_candidate_axes kw = Some cs" "\<forall>c \<in> set cs. mset c = mset axes"
    have "\<forall>c \<in> set cs. set c \<subseteq> set axes" using 3(3) by (metis mset_eq_setD order_refl)
    then obtain ps where ps: "axis_positions axes cs = Inr ps" "map (map ((!) axes)) ps = cs" "\<forall>i \<in> set (concat ps). i < length axes"
      using axis_positions_read_back by blast
    have "mset p = mset [0..<length axes]" if "p \<in> set ps" for p
      using ps(2,3) 3(3) that by (intro permutation_of_axes[OF assms(1)]) auto
    then show ?thesis using 3(1,2) ps(1,2) by (auto simp: reorder_perms_def reorder_offers_def kw_get_def Let_def)
  next
    fix sp rd assume 4: "policy \<in> {''interleave'', ''interleave_cuda''}" "kw_spatial kw = Some sp" "kw_reduce kw = Some rd"
      "mset (concat sp @ concat rd) = mset axes" "policy = ''interleave_cuda'' \<longrightarrow> [] \<notin> set sp"
    have "set (concat sp @ concat rd) = set axes" using 4(4) by (rule mset_eq_setD)
    then have sub: "\<forall>c \<in> set sp. set c \<subseteq> set axes" "\<forall>c \<in> set rd. set c \<subseteq> set axes" by auto
    obtain spatial where pos1: "axis_positions axes sp = Inr spatial" "map (map ((!) axes)) spatial = sp"
        "\<forall>i \<in> set (concat spatial). i < length axes" using axis_positions_read_back[OF sub(1)] by blast
    obtain red where pos2: "axis_positions axes rd = Inr red" "map (map ((!) axes)) red = rd"
        "\<forall>i \<in> set (concat red). i < length axes" using axis_positions_read_back[OF sub(2)] by blast
    have ne: "policy = ''interleave_cuda'' \<longrightarrow> [] \<notin> set spatial" using 4(5) pos1(2) by auto
    obtain perm where perm: "reorder_perms axes policy kw = Inr [perm]" "mset perm = mset (concat spatial @ concat red)"
        "\<forall>c \<in> set (spatial @ red). subseq c perm"
      using interleave_perm[OF 4(1-3) pos1(1) pos2(1) ne] by blast
    have "mset (map ((!) axes) perm) = mset (concat sp @ concat rd)"
      unfolding mset_map perm(2) by (simp add: pos1(2)[symmetric] pos2(2)[symmetric] mset_map[symmetric] map_concat[symmetric] del: mset_map)
    moreover have "\<forall>i \<in> set perm. i < length axes" using pos1(3) pos2(3) mset_eq_setD[OF perm(2)] by auto
    ultimately have "mset perm = mset [0..<length axes]" using permutation_of_axes[OF assms(1)] 4(4) by simp
    moreover have "subseq c (map ((!) axes) perm)" if "c \<in> set (sp @ rd)" for c
      using that perm(3) unfolding pos1(2)[symmetric] pos2(2)[symmetric] by (auto intro: subseq_map)
    ultimately show ?thesis using 4(1-3) perm(1) by (auto simp: reorder_offers_def Let_def)
  qed
qed

text \<open>C7: The reorder space of each of the six policies, for distinct axes and the arguments the policy is meant for
  (an interval inside the axes, candidates that rearrange the axes, chains that hold every axis once). The space is made
  without an error, and applying any of its orderings to a list of as many axes returns a rearrangement of that list.
  The orderings are the identity, all n! permutations, the permutations that move the interval only, the candidates in
  their order, and one interleaving in which every chain keeps its order.\<close>

theorem reorder_space_permutes:
  assumes "distinct axes" "reorder_args axes policy kw"
  shows "\<exists>ps. reorder_space_init axes policy kw = (Inr (ReorderSpace policy (length axes) (map ReorderEntity ps)) :: 'v space py) \<and>
     reorder_offers axes policy kw ps \<and>
     (\<forall>perm \<in> set ps. \<forall>xs :: 'b list. length xs = length axes \<longrightarrow> (\<exists>ys. reorder_apply perm xs = Inr ys \<and> mset ys = mset xs))"
proof -
  obtain ps where ps: "reorder_perms axes policy kw = Inr ps" "reorder_offers axes policy kw ps"
    using reorder_perms_offers[OF assms] by blast
  have "\<exists>ys. reorder_apply perm xs = Inr ys \<and> mset ys = mset xs" if "perm \<in> set ps" "length xs = length axes" for perm and xs :: "'b list"
  proof -
    have "mset perm = mset [0..<length xs]" using ps(2) that by (auto simp: reorder_offers_def Let_def simp del: mset_upt)
    then show ?thesis using reorder_apply_perm by blast
  qed
  with ps show ?thesis by (auto simp: reorder_space_init_def)
qed

theorem reorder_space_permutes_witness:
  "\<exists>p. reorder_space_init ''abcde'' ''interleave_cuda''
       \<lparr>kw_interval = None, kw_candidate_axes = None, kw_spatial = Some [''ab'', ''cd''], kw_reduce = Some [''e'']\<rparr>
      = (Inr (ReorderSpace ''interleave_cuda'' 5 [ReorderEntity p]) :: nat space py) \<and> subseq ''ab'' (map ((!) ''abcde'') p) \<and>
     (\<exists>ys. reorder_apply p [10, 11, 12, 13, 14 :: nat] = Inr ys \<and> mset ys = mset [10, 11, 12, 13, 14])"
proof -
  let ?kw = "\<lparr>kw_interval = None, kw_candidate_axes = None, kw_spatial = Some [''ab'', ''cd''], kw_reduce = Some [''e'']\<rparr>"
  have args: "distinct ''abcde''" "reorder_args ''abcde'' ''interleave_cuda'' ?kw" by (simp_all add: reorder_args_def)
  obtain ps where ps: "reorder_space_init ''abcde'' ''interleave_cuda'' ?kw
      = (Inr (ReorderSpace ''interleave_cuda'' (length ''abcde'') (map ReorderEntity ps)) :: nat space py)"
    "reorder_offers ''abcde'' ''interleave_cuda'' ?kw ps"
    "\<forall>perm \<in> set ps. \<forall>xs :: nat list. length xs = length ''abcde'' \<longrightarrow> (\<exists>ys. reorder_apply perm xs = Inr ys \<and> mset ys = mset xs)"
    using reorder_space_permutes[OF args, where 'v = nat and 'b = nat] by blast
  obtain p where p: "ps = [p]" "\<forall>c \<in> set [''ab'', ''cd'', ''e'']. subseq c (map ((!) ''abcde'') p)"
    using ps(2) by (auto simp: reorder_offers_def Let_def)
  have "\<exists>ys. reorder_apply p [10, 11, 12, 13, 14] = Inr ys \<and> mset ys = mset [10, 11, 12, 13, 14 :: nat]"
    using ps(3)[rule_format, of p "[10, 11, 12, 13, 14]"] p(1) by simp
  with ps(1) p show ?thesis by (intro exI[of _ p]) simp
qed

text \<open>The interleaving policy offers exactly one ordering. Merging chains returns a single
  merge, in which every axis occurs once and each chain keeps its order, although the merge is
  described as generating all combinations.\<close>

theorem reorder_interleave_single:
  assumes "kw_spatial kw = Some sp" and "kw_reduce kw = Some rd"
    and "axis_positions axes sp = Inr spatial" and "axis_positions axes rd = Inr red"
  shows "\<exists>perm. reorder_space_init axes ''interleave'' kw
            = (Inr (ReorderSpace ''interleave'' (length axes) [ReorderEntity perm]) :: 'v space py)
          \<and> mset perm = mset (concat spatial @ concat red)
          \<and> (\<forall>c \<in> set spatial. subseq c perm) \<and> (\<forall>c \<in> set red. subseq c perm)"
proof -
  have p: "''interleave'' \<in> {''interleave'', ''interleave_cuda''}" by simp
  have q: "''interleave'' = ''interleave_cuda'' \<longrightarrow> [] \<notin> set spatial" by simp
  from interleave_perm[OF p assms q] show ?thesis by (auto simp: reorder_space_init_def)
qed

theorem reorder_interleave_single_witness:
  "\<exists>perm. reorder_space_init ''abcde'' ''interleave''
       \<lparr>kw_interval = None, kw_candidate_axes = None,
        kw_spatial = Some [''ab'', ''cd''], kw_reduce = Some [''e'']\<rparr>
      = (Inr (ReorderSpace ''interleave'' 5 [ReorderEntity perm]) :: nat space py)
     \<and> mset perm = mset [0, 1, 2, 3, 4] \<and> subseq [0, 1] perm"
proof -
  have "axis_positions ''abcde'' [''ab'', ''cd''] = Inr [[0, 1], [2, 3]]"
    and "axis_positions ''abcde'' [''e''] = Inr [[4]]" by (simp_all add: axis_positions_def)
  from reorder_interleave_single[where 'v = nat and kw = "\<lparr>kw_interval = None, kw_candidate_axes = None,
        kw_spatial = Some [''ab'', ''cd''], kw_reduce = Some [''e'']\<rparr>", OF _ _ this]
  show ?thesis by (auto simp: eval_nat_numeral)
qed

end
