(* ===== verification/Annotate_Space.thy ===== *)
theory Annotate_Space
  imports Knob
begin

text \<open>
  \<^verbatim>\<open>AnnotateSpace\<close>, \<^verbatim>\<open>AnnotateEntity\<close> and \<^verbatim>\<open>OtherOptionSpace\<close> of
  \<^verbatim>\<open>python/tvm/autotvm/task/space.py\<close>: the annotations each policy offers and their
  application to a list of axes. A schedule primitive is recorded as an action; the axis that
  \<^verbatim>\<open>sch[op].fuse\<close> makes is the parameter \<open>fuse\<close>. The lemmas characterise the enumeration of
  the unroll and vectorize annotations and show that binding to GPU threads leaves no
  iteration unbound.
\<close>

section \<open>The space\<close>

text \<open>\<^verbatim>\<open>_generate_space\<close>: the first argument is the tail of \<^verbatim>\<open>self.anns\<close> from \<^verbatim>\<open>now\<close> on.\<close>

fun annotate_generate :: "string list list \<Rightarrow> string list \<Rightarrow> 'v entity list" where
  "annotate_generate [] stk =
     (if count_list stk ''vec'' \<in> {0, 1} then [AnnotateEntity (map AnnName stk)] else [])"
| "annotate_generate (anns # rest) stk =
     concat (map (\<lambda>a. annotate_generate rest (stk @ [a])) anns)"

definition bind_gpu_anns :: "nat \<Rightarrow> string list py" where
  "bind_gpu_anns n =
     (if n \<ge> 6 then Inr (replicate (n - 6) ''fuse'' @
        [''blockIdx.z'', ''blockIdx.y'', ''blockIdx.x'', ''threadIdx.z'', ''threadIdx.y'', ''threadIdx.x''])
      else if n \<ge> 4 then Inr (replicate (n - 4) ''fuse'' @
        [''blockIdx.y'', ''blockIdx.x'', ''threadIdx.y'', ''threadIdx.x''])
      else if n \<ge> 2 then Inr (replicate (n - 2) ''fuse'' @ [''blockIdx.x'', ''threadIdx.x''])
      else Inl RuntimeError)"

definition bind_gpu_virtual_anns :: "nat \<Rightarrow> string list py" where
  "bind_gpu_virtual_anns n =
     (if n \<ge> 9 then Inr (replicate (n - 9) ''fuse'' @
        [''blockIdx.z'', ''blockIdx.y'', ''blockIdx.x'', ''vthread'', ''vthread'', ''vthread'',
         ''threadIdx.z'', ''threadIdx.y'', ''threadIdx.x''])
      else if n \<ge> 6 then Inr (replicate (n - 6) ''fuse'' @
        [''blockIdx.y'', ''blockIdx.x'', ''vthread'', ''vthread'', ''threadIdx.y'', ''threadIdx.x''])
      else if n \<ge> 3 then Inr (replicate (n - 3) ''fuse'' @ [''blockIdx.x'', ''vthread'', ''threadIdx.x''])
      else Inl RuntimeError)"

definition annotate_space_init :: "'a list \<Rightarrow> string \<Rightarrow> nat option \<Rightarrow> 'v space py" where
  "annotate_space_init axes policy num_anchor =
     (let n = length axes in
      bindE
        (if policy = ''bind_gpu'' then
           bindE (bind_gpu_anns n) (\<lambda>as. Inr [AnnotateEntity (map AnnName as)])
         else if policy = ''bind_gpu_virtual'' then
           bindE (bind_gpu_virtual_anns n) (\<lambda>as. Inr [AnnotateEntity (map AnnName as)])
         else if policy = ''locate_cache'' then
           (case num_anchor of
              None \<Rightarrow> Inl KeyError
            | Some k \<Rightarrow> Inr (map (\<lambda>x. AnnotateEntity (map AnnIndex x)) (combinations [0..<n] k)))
         else
           let anns = py_split (CHR ''_'') (py_replace ''try'' ''none'' policy) in
           if \<exists>a \<in> set anns. a \<notin> {''none'', ''unroll'', ''vec''} then Inl RuntimeError
           else Inr (annotate_generate (replicate n anns) []))
        (\<lambda>es. Inr (AnnotateSpace policy n es)))"

definition other_option_space_init :: "'v list \<Rightarrow> 'v space" where
  "other_option_space_init cands = OtherOptionSpace (map OtherOptionEntity cands)"

section \<open>Applying annotations\<close>

datatype ('ax, 't) sched_action =
    Unroll 'ax
  | Vectorize 'ax
  | Bind 'ax string
  | Fuse 'ax 'ax
  | ComputeAt 't 'ax

definition bind_tags :: "string list" where
  "bind_tags = [''blockIdx.x'', ''blockIdx.y'', ''blockIdx.z'', ''threadIdx.x'', ''threadIdx.y'',
     ''threadIdx.z'', ''vthread'']"

text \<open>What \<^verbatim>\<open>AnnotateEntity.apply\<close> changes: the list of axes, the schedule, the errors of \<^verbatim>\<open>cfg\<close>.\<close>

record ('ax, 't) annotate_state =
  an_axes :: "'ax list"
  an_actions :: "('ax, 't) sched_action list"
  an_errors :: "string list"

record annotate_args =
  axis_lens :: "int list option"
  max_unroll :: "int option"
  vec_size :: "int list option"
  has_cfg :: bool

text \<open>\<^verbatim>\<open>cfg.raise_error(msg)\<close> records the message and goes on; without a \<^verbatim>\<open>cfg\<close> it is an attribute of \<^verbatim>\<open>None\<close>.\<close>

definition record_error ::
    "annotate_args \<Rightarrow> string \<Rightarrow> ('ax, 't) annotate_state \<Rightarrow> ('ax, 't) annotate_state py" where
  "record_error args msg s =
     (if has_cfg args then Inr (s\<lparr>an_errors := an_errors s @ [msg]\<rparr>) else Inl AttributeError)"

definition axis_len_at :: "annotate_args \<Rightarrow> nat \<Rightarrow> int py" where
  "axis_len_at args i = (case axis_lens args of None \<Rightarrow> Inl TypeError | Some ls \<Rightarrow> py_nth ls (int i))"

definition act ::
    "('ax \<Rightarrow> ('ax, 't) sched_action) \<Rightarrow> nat \<Rightarrow> ('ax, 't) annotate_state \<Rightarrow> ('ax, 't) annotate_state py" where
  "act f i s = bindE (py_nth (an_axes s) (int i)) (\<lambda>ax. Inr (s\<lparr>an_actions := an_actions s @ [f ax]\<rparr>))"

definition annotate_step ::
    "('ax \<Rightarrow> 'ax \<Rightarrow> 'ax) \<Rightarrow> annotate_args \<Rightarrow> nat \<Rightarrow> ann \<Rightarrow> ('ax, 't) annotate_state
     \<Rightarrow> ('ax, 't) annotate_state py" where
  "annotate_step fuse args i a s =
     (case a of
        AnnIndex j \<Rightarrow> Inl TypeError
      | AnnName an \<Rightarrow>
          if an = ''none'' then Inr s
          else if an = ''unroll'' then
            bindE (case max_unroll args of
                     None \<Rightarrow> Inr s
                   | Some m \<Rightarrow>
                       if m = 0 then Inr s
                       else bindE (axis_len_at args i) (\<lambda>l.
                         if l > m then record_error args ''Too large factor for unrolling'' s else Inr s))
              (act Unroll i)
          else if an = ''vec'' then
            bindE (case vec_size args of
                     None \<Rightarrow> Inr s
                   | Some vs \<Rightarrow>
                       if vs = [] then Inr s
                       else bindE (axis_len_at args i) (\<lambda>l.
                         if l \<notin> set vs then record_error args ''Wrong size of lanes in vectorization'' s
                         else Inr s))
              (act Vectorize i)
          else if an \<in> set bind_tags then act (\<lambda>ax. Bind ax an) i s
          else if an = ''fuse'' then
            (if i + 1 < length (an_axes s) then
               Inr (s\<lparr>an_axes := (an_axes s)[i + 1 := fuse (an_axes s ! i) (an_axes s ! (i + 1))],
                     an_actions := an_actions s @ [Fuse (an_axes s ! i) (an_axes s ! (i + 1))]\<rparr>)
             else Inl AssertionError)
          else Inl RuntimeError)"

fun annotate_loop ::
    "('ax \<Rightarrow> 'ax \<Rightarrow> 'ax) \<Rightarrow> annotate_args \<Rightarrow> nat \<Rightarrow> ann list \<Rightarrow> ('ax, 't) annotate_state
     \<Rightarrow> ('ax, 't) annotate_state py" where
  "annotate_loop fuse args i [] s = Inr s"
| "annotate_loop fuse args i (a # as) s =
     bindE (annotate_step fuse args i a s) (annotate_loop fuse args (Suc i) as)"

text \<open>The special case \<^verbatim>\<open>source\<close>: attach each group of cache tensors at the axis its annotation names.\<close>

fun attach_one :: "ann \<Rightarrow> 't \<Rightarrow> ('ax, 't) annotate_state \<Rightarrow> ('ax, 't) annotate_state py" where
  "attach_one (AnnName an) t s = Inl TypeError"
| "attach_one (AnnIndex j) t s =
     bindE (py_nth (an_axes s) (int j)) (\<lambda>ax. Inr (s\<lparr>an_actions := an_actions s @ [ComputeAt t ax]\<rparr>))"

definition annotate_apply ::
    "('ax \<Rightarrow> 'ax \<Rightarrow> 'ax) \<Rightarrow> annotate_args \<Rightarrow> 't list list option \<Rightarrow> ann list \<Rightarrow> 'ax list
     \<Rightarrow> ('ax, 't) annotate_state py" where
  "annotate_apply fuse args source anns axes =
     (let s0 = \<lparr>an_axes = axes, an_actions = [], an_errors = []\<rparr> in
      case source of
        Some srcs \<Rightarrow> foldE (\<lambda>(src, a) s. foldE (attach_one a) src s) (zip srcs anns) s0
      | None \<Rightarrow> annotate_loop fuse args 0 anns s0)"

section \<open>Properties\<close>

lemma mem_annotate_generate:
  "e \<in> set (annotate_generate ass stk) \<longleftrightarrow>
     (\<exists>ys. list_all2 (\<lambda>y as. y \<in> set as) ys ass \<and> count_list (stk @ ys) ''vec'' \<le> 1
           \<and> e = AnnotateEntity (map AnnName (stk @ ys)))"
proof (induction ass stk rule: annotate_generate.induct)
  case (1 stk)
  then show ?case by (auto simp: le_Suc_eq)
next
  case (2 anns rest stk)
  have "e \<in> set (annotate_generate (anns # rest) stk)
      \<longleftrightarrow> (\<exists>a \<in> set anns. e \<in> set (annotate_generate rest (stk @ [a])))" by auto
  also have "\<dots> \<longleftrightarrow> (\<exists>a \<in> set anns. \<exists>ys. list_all2 (\<lambda>y as. y \<in> set as) ys rest
      \<and> count_list (stk @ a # ys) ''vec'' \<le> 1 \<and> e = AnnotateEntity (map AnnName (stk @ a # ys)))"
    using "2.IH" by (intro bex_cong) (simp_all only: append_assoc append.simps)
  also have "\<dots> \<longleftrightarrow> (\<exists>ys. list_all2 (\<lambda>y as. y \<in> set as) ys (anns # rest)
      \<and> count_list (stk @ ys) ''vec'' \<le> 1 \<and> e = AnnotateEntity (map AnnName (stk @ ys)))"
    by (simp only: list_all2_Cons2) blast
  finally show ?case .
qed

lemma list_all2_replicate:
  "list_all2 (\<lambda>y as. y \<in> set as) ys (replicate n anns) \<longleftrightarrow> length ys = n \<and> set ys \<subseteq> set anns"
proof (induction n arbitrary: ys)
  case (Suc n)
  then show ?case by (cases ys) auto
qed auto

text \<open>An annotation policy that is an underscore-separated list of "none" (also written "try"),
  "unroll" and "vec" offers exactly the assignments of these annotations to the axes that
  vectorize at most one axis; the vectorized axis may be any of them, not only the innermost.\<close>

theorem annotate_space_at_most_one_vec:
  assumes "policy \<notin> {''bind_gpu'', ''bind_gpu_virtual'', ''locate_cache''}"
    and "anns = py_split (CHR ''_'') (py_replace ''try'' ''none'' policy)"
    and "set anns \<subseteq> {''none'', ''unroll'', ''vec''}"
  shows "\<exists>es. annotate_space_init axes policy k
             = (Inr (AnnotateSpace policy (length axes) es) :: 'v space py)
          \<and> set es = {AnnotateEntity (map AnnName ys) | ys.
               length ys = length axes \<and> set ys \<subseteq> set anns \<and> count_list ys ''vec'' \<le> 1}"
proof -
  let ?es = "annotate_generate (replicate (length axes) anns) [] :: 'v entity list"
  have "annotate_space_init axes policy k = Inr (AnnotateSpace policy (length axes) ?es)"
    using assms by (auto simp: annotate_space_init_def Let_def)
  moreover have "set ?es = {AnnotateEntity (map AnnName ys) | ys.
               length ys = length axes \<and> set ys \<subseteq> set anns \<and> count_list ys ''vec'' \<le> 1}"
    by (rule set_eqI) (auto simp: mem_annotate_generate list_all2_replicate)
  ultimately show ?thesis by blast
qed

theorem annotate_space_at_most_one_vec_witness:
  "\<exists>es. annotate_space_init [CHR ''i'', CHR ''j''] ''try_vec'' None
      = (Inr (AnnotateSpace ''try_vec'' 2 es) :: nat space py)
     \<and> AnnotateEntity [AnnName ''vec'', AnnName ''none''] \<in> set es
     \<and> AnnotateEntity [AnnName ''vec'', AnnName ''vec''] \<notin> set es"
proof -
  have anns: "py_split (CHR ''_'') (py_replace ''try'' ''none'' ''try_vec'') = [''none'', ''vec'']"
    by (simp add: py_replace.simps is_prefix_def)
  obtain es where es: "annotate_space_init [CHR ''i'', CHR ''j''] ''try_vec'' None
      = (Inr (AnnotateSpace ''try_vec'' 2 es) :: nat space py)"
    and set: "set es = {AnnotateEntity (map AnnName ys) | ys.
               length ys = 2 \<and> set ys \<subseteq> {''none'', ''vec''} \<and> count_list ys ''vec'' \<le> 1}"
    using annotate_space_at_most_one_vec[where 'v = nat, of "''try_vec''" "[''none'', ''vec'']"
        "[CHR ''i'', CHR ''j'']" None] anns by (auto simp: eval_nat_numeral)
  have "AnnotateEntity [AnnName ''vec'', AnnName ''none''] \<in> set es"
    unfolding set by (rule CollectI, rule exI[of _ "[''vec'', ''none'']"]) simp
  moreover have "AnnotateEntity [AnnName ''vec'', AnnName ''vec''] \<notin> set es"
  proof
    assume "AnnotateEntity [AnnName ''vec'', AnnName ''vec''] \<in> set es"
    then obtain ys where "[AnnName ''vec'', AnnName ''vec''] = map AnnName ys" "count_list ys ''vec'' \<le> 1"
      unfolding set by auto
    then show False by (auto simp: Cons_eq_map_conv)
  qed
  ultimately show ?thesis using es by blast
qed

text \<open>Fusing leading axes folds their extents into the next one.\<close>

lemma annotate_loop_append:
  "annotate_loop fuse args i (as @ bs) s
     = bindE (annotate_loop fuse args i as s) (annotate_loop fuse args (i + length as) bs)"
  by (induction as arbitrary: i s) (auto simp: bindE_assoc fun_eq_iff intro!: arg_cong2[of _ _ _ _ bindE])

lemma fuse_not_tag: "''fuse'' \<notin> set bind_tags" "''fuse'' \<noteq> ''none''" "''fuse'' \<noteq> ''unroll''" "''fuse'' \<noteq> ''vec''"
  by (simp_all add: bind_tags_def)

lemma tag_not_other: "t \<in> set bind_tags \<Longrightarrow> t \<noteq> ''none'' \<and> t \<noteq> ''unroll'' \<and> t \<noteq> ''vec'' \<and> t \<noteq> ''fuse''"
  by (auto simp: bind_tags_def)

lemma annotate_fuse_prefix:
  assumes "j + m < length (an_axes s)"
  shows "\<exists>s'. annotate_loop (*) args j (replicate m (AnnName ''fuse'')) s = Inr s'
     \<and> length (an_axes s') = length (an_axes s)
     \<and> prod_list (drop (j + m) (an_axes s')) = prod_list (drop j (an_axes s) :: int list)
     \<and> (\<exists>as. an_actions s' = an_actions s @ as \<and> (\<forall>a \<in> set as. \<exists>x y. a = Fuse x y))
     \<and> an_errors s' = an_errors s"
  using assms
proof (induction m arbitrary: j s)
  case 0
  then show ?case by simp
next
  case (Suc m)
  let ?xs = "an_axes s"
  let ?s = "s\<lparr>an_axes := ?xs[j + 1 := ?xs ! j * ?xs ! (j + 1)],
              an_actions := an_actions s @ [Fuse (?xs ! j) (?xs ! (j + 1))]\<rparr>"
  have step: "annotate_step (*) args j (AnnName ''fuse'') s = Inr ?s"
    using Suc.prems by (simp add: annotate_step_def fuse_not_tag)
  have j: "Suc j < length ?xs" using Suc.prems by simp
  have "drop j ?xs = ?xs ! j # ?xs ! Suc j # drop (Suc (Suc j)) ?xs"
    using j by (simp add: Cons_nth_drop_Suc)
  moreover have "drop (Suc j) (an_axes ?s) = (?xs ! j * ?xs ! Suc j) # drop (Suc (Suc j)) ?xs"
    using j by (simp add: drop_update_swap Cons_nth_drop_Suc[symmetric])
  ultimately have prod: "prod_list (drop (Suc j) (an_axes ?s)) = prod_list (drop j ?xs)"
    by (simp add: mult.assoc)
  have "Suc j + m < length (an_axes ?s)" using Suc.prems by simp
  from Suc.IH[OF this] obtain s' as where
    "annotate_loop (*) args (Suc j) (replicate m (AnnName ''fuse'')) ?s = Inr s'"
    "length (an_axes s') = length ?xs"
    "prod_list (drop (Suc j + m) (an_axes s')) = prod_list (drop j ?xs)"
    "an_actions s' = (an_actions s @ [Fuse (?xs ! j) (?xs ! (j + 1))]) @ as"
    "\<forall>a \<in> set as. \<exists>x y. a = Fuse x y" "an_errors s' = an_errors s"
    using prod by auto
  then show ?case using step by auto
qed

lemma annotate_bind_suffix:
  assumes "j + length tags \<le> length (an_axes s)" and "set tags \<subseteq> set bind_tags"
  shows "annotate_loop fuse args j (map AnnName tags) s
       = Inr (s\<lparr>an_actions := an_actions s
             @ map2 Bind (take (length tags) (drop j (an_axes s))) tags\<rparr>)"
  using assms
proof (induction tags arbitrary: j s)
  case Nil
  then show ?case by simp
next
  case (Cons t tags)
  have "annotate_step fuse args j (AnnName t) s
      = Inr (s\<lparr>an_actions := an_actions s @ [Bind (an_axes s ! j) t]\<rparr>)"
    using Cons.prems tag_not_other[of t]
    by (simp add: annotate_step_def act_def py_nth_of_nat)
  moreover have "take (length (t # tags)) (drop j (an_axes s))
      = an_axes s ! j # take (length tags) (drop (Suc j) (an_axes s))"
    using Cons.prems by (simp add: Cons_nth_drop_Suc[symmetric])
  ultimately show ?case using Cons by simp
qed

definition bound_extents :: "(int, 't) sched_action list \<Rightarrow> int list" where
  "bound_extents acts = concat (map (\<lambda>a. case a of Bind x t \<Rightarrow> [x] | _ \<Rightarrow> []) acts)"

definition bound_tags :: "('ax, 't) sched_action list \<Rightarrow> string list" where
  "bound_tags acts = concat (map (\<lambda>a. case a of Bind x t \<Rightarrow> [t] | _ \<Rightarrow> []) acts)"

lemma bound_append [simp]:
  "bound_extents (xs @ ys) = bound_extents xs @ bound_extents ys"
  "bound_tags (us @ vs) = bound_tags us @ bound_tags vs"
  by (simp_all add: bound_extents_def bound_tags_def)

lemma bound_fuses [simp]:
  "\<forall>a \<in> set as. \<exists>x y. a = Fuse x y \<Longrightarrow> bound_extents as = []"
  "\<forall>a \<in> set bs. \<exists>x y. a = Fuse x y \<Longrightarrow> bound_tags bs = []"
  by (auto simp: bound_extents_def bound_tags_def)

lemma bound_extents_binds [simp]:
  "length xs = length ts \<Longrightarrow> bound_extents (map2 Bind xs ts) = xs"
  by (induction xs ts rule: list_induct2) (auto simp: bound_extents_def)

lemma bound_tags_binds [simp]:
  "length us = length ss \<Longrightarrow> bound_tags (map2 Bind us ss) = ss"
  by (induction us ss rule: list_induct2) (auto simp: bound_tags_def)

lemma annotate_fuse_then_bind:
  assumes "m + length tags = length axes" and "tags \<noteq> []" and "set tags \<subseteq> set bind_tags"
  shows "\<exists>s. annotate_apply (*) args None (map AnnName (replicate m ''fuse'' @ tags)) axes
           = (Inr s :: (int, 't) annotate_state py)
     \<and> prod_list (bound_extents (an_actions s)) = prod_list (axes :: int list)
     \<and> bound_tags (an_actions s) = tags \<and> an_errors s = []"
proof -
  let ?s0 = "\<lparr>an_axes = axes, an_actions = [], an_errors = []\<rparr> :: (int, 't) annotate_state"
  have "0 + m < length (an_axes ?s0)" using assms(1,2) by (cases tags) auto
  from annotate_fuse_prefix[OF this, of args] obtain s' as where s':
    "annotate_loop (*) args 0 (replicate m (AnnName ''fuse'')) ?s0 = Inr s'"
    "length (an_axes s') = length axes" "prod_list (drop m (an_axes s')) = prod_list axes"
    "an_actions s' = as" "\<forall>a \<in> set as. \<exists>x y. a = Fuse x y" "an_errors s' = []" by auto
  have "annotate_apply (*) args None (map AnnName (replicate m ''fuse'' @ tags)) axes
      = annotate_loop (*) args m (map AnnName tags) s'"
    using s'(1) by (simp add: annotate_apply_def Let_def annotate_loop_append)
  also have "\<dots> = Inr (s'\<lparr>an_actions := as @ map2 Bind (drop m (an_axes s')) tags\<rparr>)"
    using annotate_bind_suffix[of m tags s' "(*)" args] assms s' by simp
  finally show ?thesis using s' assms by simp
qed

text \<open>C5: Binding to GPU threads covers the whole iteration space: for at least two axes (three with
  virtual threads) the entity's application raises nothing, fuses the leading axes so that the
  extents of the bound axes multiply to the product of all axis extents, and uses no
  block or thread index twice.\<close>

theorem bind_gpu_covers:
  assumes "policy = ''bind_gpu'' \<and> 2 \<le> length axes
         \<or> policy = ''bind_gpu_virtual'' \<and> 3 \<le> length axes"
  shows "\<exists>as s. annotate_space_init axes policy k
             = (Inr (AnnotateSpace policy (length axes) [AnnotateEntity as]) :: 'v space py)
          \<and> annotate_apply (*) args None as axes = (Inr s :: (int, 't) annotate_state py)
          \<and> prod_list (bound_extents (an_actions s)) = prod_list (axes :: int list)
          \<and> distinct (filter (\<lambda>t. t \<noteq> ''vthread'') (bound_tags (an_actions s)))
          \<and> an_errors s = []"
proof -
  obtain m tags where tags: "m + length tags = length axes" "tags \<noteq> []" "set tags \<subseteq> set bind_tags"
    "distinct (filter (\<lambda>t. t \<noteq> ''vthread'') tags)"
    and space: "annotate_space_init axes policy k = (Inr (AnnotateSpace policy (length axes)
        [AnnotateEntity (map AnnName (replicate m ''fuse'' @ tags))]) :: 'v space py)"
  proof -
    let ?n = "length axes"
    let ?g6 = "[''blockIdx.z'', ''blockIdx.y'', ''blockIdx.x'', ''threadIdx.z'', ''threadIdx.y'', ''threadIdx.x'']"
    let ?g4 = "[''blockIdx.y'', ''blockIdx.x'', ''threadIdx.y'', ''threadIdx.x'']"
    let ?g2 = "[''blockIdx.x'', ''threadIdx.x'']"
    let ?v9 = "[''blockIdx.z'', ''blockIdx.y'', ''blockIdx.x'', ''vthread'', ''vthread'', ''vthread'',
         ''threadIdx.z'', ''threadIdx.y'', ''threadIdx.x'']"
    let ?v6 = "[''blockIdx.y'', ''blockIdx.x'', ''vthread'', ''vthread'', ''threadIdx.y'', ''threadIdx.x'']"
    let ?v3 = "[''blockIdx.x'', ''vthread'', ''threadIdx.x'']"
    note defs = annotate_space_init_def bind_gpu_anns_def bind_gpu_virtual_anns_def bind_tags_def Let_def
    from assms consider "policy = ''bind_gpu''" "6 \<le> ?n" | "policy = ''bind_gpu''" "4 \<le> ?n" "?n < 6"
      | "policy = ''bind_gpu''" "2 \<le> ?n" "?n < 4" | "policy = ''bind_gpu_virtual''" "9 \<le> ?n"
      | "policy = ''bind_gpu_virtual''" "6 \<le> ?n" "?n < 9"
      | "policy = ''bind_gpu_virtual''" "3 \<le> ?n" "?n < 6" by linarith
    then show ?thesis
    proof cases
      case 1 then show ?thesis by (intro that[of "?n - 6" ?g6]) (simp_all add: defs)
    next
      case 2 then show ?thesis by (intro that[of "?n - 4" ?g4]) (simp_all add: defs)
    next
      case 3 then show ?thesis by (intro that[of "?n - 2" ?g2]) (simp_all add: defs)
    next
      case 4 then show ?thesis by (intro that[of "?n - 9" ?v9]) (simp_all add: defs)
    next
      case 5 then show ?thesis by (intro that[of "?n - 6" ?v6]) (simp_all add: defs)
    next
      case 6 then show ?thesis by (intro that[of "?n - 3" ?v3]) (simp_all add: defs)
    qed
  qed
  with annotate_fuse_then_bind[OF tags(1-3), of args] tags(4) show ?thesis by metis
qed

theorem bind_gpu_covers_witness:
  "\<exists>as s. annotate_space_init [4, 8, 16 :: int] ''bind_gpu'' None
      = (Inr (AnnotateSpace ''bind_gpu'' 3 [AnnotateEntity as]) :: nat space py)
     \<and> annotate_apply (*) \<lparr>axis_lens = None, max_unroll = None, vec_size = None, has_cfg = False\<rparr>
         None as [4, 8, 16 :: int] = (Inr s :: (int, nat) annotate_state py)
     \<and> prod_list (bound_extents (an_actions s)) = 512"
  using bind_gpu_covers[where 'v = nat and 't = nat, of "''bind_gpu''" "[4, 8, 16]" None
      "\<lparr>axis_lens = None, max_unroll = None, vec_size = None, has_cfg = False\<rparr>"]
  by (auto simp: eval_nat_numeral)

end
