(* ===== verification/Config_Space.thy ===== *)
theory Config_Space
  imports Split_Space Reorder_Space Annotate_Space
begin

text \<open>
  \<^verbatim>\<open>ConfigSpace\<close> of \<^verbatim>\<open>python/tvm/autotvm/task/space.py\<close> with its caches. The record holds the
  fields the methods read or write; \<^verbatim>\<open>_constraints\<close> and \<^verbatim>\<open>cost\<close> are created empty and never
  changed. Each method is a function of the record that returns the new record, so what a
  cached length or a cached filter table does to later calls is visible. Random draws are
  arguments: the list of values the generator returns, and a result \<open>None\<close> means that the
  draws ran out while the loop was still running.
\<close>

section \<open>State\<close>

text \<open>
  The entity of a knob in \<^verbatim>\<open>_entity_map\<close>: \<open>FirstOfSpace\<close> is the object \<^verbatim>\<open>space[0]\<close> of the
  space registered under the same name, shared with it; \<open>OwnEntity\<close> is an entity of its own.
\<close>

datatype 'v ent_ref = FirstOfSpace | OwnEntity "'v entity"

record 'v config_space =
  space_map :: "(string, 'v space) dict"
  collect :: bool
  c_length :: "int option"
  c_range_length :: "int option"
  c_dims :: "int list option"
  entity_map :: "(string, 'v ent_ref) dict"
  c_errors :: "string list"
  code_hash :: "string option"
  flop :: rat
  is_fallback :: bool
  shared_filter :: "((string, 'v entity) dict \<Rightarrow> bool) option"
  shared_filter_cache :: "bool list option"
  axis_name_ct :: nat

definition config_space_init :: "nat \<Rightarrow> 'v config_space" where
  "config_space_init name_ct =
     \<lparr>space_map = [], collect = True, c_length = None, c_range_length = None, c_dims = None,
      entity_map = [], c_errors = [], code_hash = None, flop = 0, is_fallback = False,
      shared_filter = None, shared_filter_cache = None, axis_name_ct = name_ct\<rparr>"

section \<open>Lengths and the filter table\<close>

definition clear_cache :: "'v config_space \<Rightarrow> 'v config_space" where
  "clear_cache cs =
     cs\<lparr>c_dims := None, c_length := None, c_range_length := None, shared_filter_cache := None\<rparr>"

definition space_lens :: "'v config_space \<Rightarrow> int list" where
  "space_lens cs = map (\<lambda>(name, sp). space_len sp) (space_map cs)"

definition range_length :: "('v config_space, int) st" where
  "range_length cs =
     (case c_range_length cs of
        Some r \<Rightarrow> (cs, Inr r)
      | None \<Rightarrow> let r = np_prod (space_lens cs) in (cs\<lparr>c_range_length := Some r\<rparr>, Inr r))"

definition dims :: "('v config_space, int list) st" where
  "dims cs =
     (case c_dims cs of
        Some ds \<Rightarrow> (cs, Inr ds)
      | None \<Rightarrow> (cs\<lparr>c_dims := Some (space_lens cs)\<rparr>, Inr (space_lens cs)))"

text \<open>
  The mixed-radix decoding shared by \<^verbatim>\<open>_make_shared_filter_cache\<close> and \<^verbatim>\<open>get\<close>:
  \<^verbatim>\<open>entities[name] = space[t % len(space)]; t //= len(space)\<close>.
\<close>

fun entities_at :: "(string, 'v space) dict \<Rightarrow> int \<Rightarrow> (string, 'v entity) dict py" where
  "entities_at [] t = Inr []"
| "entities_at ((name, sp) # rest) t =
     (if space_len sp = 0 then Inl ZeroDivisionError
      else bindE (space_getitem sp (t mod space_len sp)) (\<lambda>e.
           bindE (entities_at rest (t div space_len sp)) (\<lambda>es. Inr ((name, e) # es))))"

definition make_shared_filter_cache :: "('v config_space, unit) st" where
  "make_shared_filter_cache =
     bindS range_length (\<lambda>r.
     bindS (getS (\<lambda>cs. (space_map cs, shared_filter cs))) (\<lambda>(sm, fil).
     bindS (liftS (mapE (\<lambda>i. bindE (entities_at sm i)
                (\<lambda>es. case fil of None \<Rightarrow> Inl TypeError | Some f \<Rightarrow> Inr (f es))) [0..r - 1])) (\<lambda>table.
       modifyS (\<lambda>cs. cs\<lparr>shared_filter_cache := Some table,
                       c_length := Some (int (count_list table True))\<rparr>))))"

text \<open>The guard \<^verbatim>\<open>if self._shared_filter_cache is None\<close> before each use of the table.\<close>

definition filter_table :: "('v config_space, bool list) st" where
  "filter_table =
     bindS (getS shared_filter_cache) (\<lambda>c.
     bindS (case c of None \<Rightarrow> make_shared_filter_cache | Some t \<Rightarrow> returnS ()) (\<lambda>_.
     bindS (getS shared_filter_cache) (\<lambda>c'.
       case c' of None \<Rightarrow> liftS (Inl TypeError) | Some t \<Rightarrow> returnS t)))"

definition is_index_valid :: "int \<Rightarrow> ('v config_space, bool) st" where
  "is_index_valid index =
     bindS range_length (\<lambda>r.
     bindS (liftS (assertE (0 \<le> index \<and> index < r))) (\<lambda>_.
     bindS (getS shared_filter) (\<lambda>fil.
       if fil = None then returnS True
       else bindS filter_table (\<lambda>t. liftS (py_nth t index)))))"

definition multi_filter :: "((string, 'v entity) dict \<Rightarrow> bool) \<Rightarrow> 'v config_space \<Rightarrow> 'v config_space" where
  "multi_filter f cs =
     (if collect cs then (clear_cache cs)\<lparr>shared_filter := Some f\<rparr> else cs)"

definition subrange_length :: "int \<Rightarrow> int \<Rightarrow> ('v config_space, int) st" where
  "subrange_length start en =
     bindS range_length (\<lambda>r.
     bindS (liftS (assertE (0 \<le> start \<and> start \<le> en \<and> en \<le> r))) (\<lambda>_.
     bindS (getS shared_filter) (\<lambda>fil.
       if fil = None then returnS (en - start)
       else bindS filter_table (\<lambda>t.
         returnS (int (count_list (take (nat (en - start)) (drop (nat start) t)) True))))))"

definition cs_len :: "('v config_space, int) st" where
  "cs_len =
     bindS (getS shared_filter) (\<lambda>fil.
       if fil = None then range_length
       else bindS filter_table (\<lambda>t.
         bindS (getS c_length) (\<lambda>l. case l of None \<Rightarrow> liftS (Inl TypeError) | Some n \<Rightarrow> returnS n)))"

section \<open>Moving through the indices\<close>

text \<open>\<^verbatim>\<open>start or 0\<close> and \<^verbatim>\<open>end or self.range_length\<close>: zero counts as absent.\<close>

definition start_or_0 :: "int option \<Rightarrow> int" where
  "start_or_0 st = (case st of None \<Rightarrow> 0 | Some s \<Rightarrow> s)"

definition end_or_range :: "int option \<Rightarrow> ('v config_space, int) st" where
  "end_or_range en = (case en of None \<Rightarrow> range_length | Some e \<Rightarrow> if e = 0 then range_length else returnS e)"

text \<open>
  \<open>draws\<close> are the values of \<^verbatim>\<open>randrange(start, end)\<close>, which raises \<^verbatim>\<open>ValueError\<close> on an empty
  range: the bounds do not change in the loop, so the first call decides.
\<close>

fun rand_index_loop ::
    "int list \<Rightarrow> int list \<Rightarrow> ('v config_space, int option) st" where
  "rand_index_loop [] to_exclude = returnS None"
| "rand_index_loop (d # draws) to_exclude =
     bindS (is_index_valid d) (\<lambda>b.
       if b \<and> d \<notin> set to_exclude then returnS (Some d)
       else rand_index_loop draws to_exclude)"

definition get_rand_index ::
    "int list \<Rightarrow> int option \<Rightarrow> int option \<Rightarrow> int list \<Rightarrow> ('v config_space, int option) st" where
  "get_rand_index draws start en to_exclude =
     bindS (end_or_range en) (\<lambda>e.
       if start_or_0 start \<ge> e then liftS (Inl ValueError)
       else rand_index_loop draws to_exclude)"

function next_index_loop ::
    "bool \<Rightarrow> int \<Rightarrow> int \<Rightarrow> int \<Rightarrow> nat \<Rightarrow> ('v config_space, int option) st" where
  "next_index_loop up start en index counter cs =
     (if counter = 0 then (cs, Inr (Some index))
      else
        let index' = index + (if up then 1 else -1) in
        if index' < start \<or> index' \<ge> en then (cs, Inr None)
        else case is_index_valid index' cs of
               (cs', Inl e) \<Rightarrow> (cs', Inl e)
             | (cs', Inr b) \<Rightarrow> next_index_loop up start en index' (if b then counter - 1 else counter) cs')"
  by pat_completeness auto
termination
  by (relation "measure (\<lambda>(up, start, en, index, counter, cs).
        if up then nat (en - index) else nat (index - start + 1))") auto

declare next_index_loop.simps [simp del]

definition get_next_index ::
    "int \<Rightarrow> int \<Rightarrow> int option \<Rightarrow> int option \<Rightarrow> ('v config_space, int option) st" where
  "get_next_index index n start en =
     bindS (liftS (assertE (n \<noteq> 0))) (\<lambda>_.
     let st = start_or_0 start in
     bindS (end_or_range en) (\<lambda>e.
     bindS (getS shared_filter) (\<lambda>fil.
       if fil = None then
         returnS (if st \<le> index + n \<and> index + n < e then Some (index + n) else None)
       else next_index_loop (n > 0) st e index (nat \<bar>n\<bar>))))"

section \<open>Points and knobs\<close>

fun point_to_knob :: "int list \<Rightarrow> int \<Rightarrow> int list py" where
  "point_to_knob [] p = Inr []"
| "point_to_knob (d # ds) p =
     (if d = 0 then Inl ZeroDivisionError
      else bindE (point_to_knob ds (p div d)) (\<lambda>ks. Inr (p mod d # ks)))"

definition point2knob :: "int \<Rightarrow> ('v config_space, int list) st" where
  "point2knob p = bindS dims (\<lambda>ds. liftS (point_to_knob ds p))"

fun knob_to_point :: "int list \<Rightarrow> nat \<Rightarrow> int list \<Rightarrow> int \<Rightarrow> int" where
  "knob_to_point ds j [] p = p"
| "knob_to_point ds j (k # ks) p = knob_to_point ds (Suc j) ks (p + np_prod (take j ds) * k)"

definition knob2point :: "int list \<Rightarrow> ('v config_space, int) st" where
  "knob2point knob = bindS dims (\<lambda>ds. returnS (knob_to_point ds 0 knob 0))"

text \<open>\<^verbatim>\<open>sample_ints\<close>: the set \<^verbatim>\<open>vis\<close> in insertion order.\<close>

fun sample_loop :: "int list \<Rightarrow> int \<Rightarrow> int list \<Rightarrow> ('v config_space, int list option) st" where
  "sample_loop [] m vis = returnS (if m \<le> int (length vis) then Some vis else None)"
| "sample_loop (d # draws) m vis =
     (if m \<le> int (length vis) then returnS (Some vis)
      else bindS range_length (\<lambda>r. if r \<le> 0 then liftS (Inl ValueError) else
        bindS (is_index_valid d) (\<lambda>b.
        sample_loop draws m (if b \<and> d \<notin> set vis then vis @ [d] else vis))))"

definition sample_ints :: "int list \<Rightarrow> int \<Rightarrow> ('v config_space, int list option) st" where
  "sample_ints draws m =
     bindS cs_len (\<lambda>l. bindS (liftS (assertE (m \<le> l))) (\<lambda>_. sample_loop draws m []))"

fun walk_loop ::
    "(nat \<times> int) list \<Rightarrow> int list \<Rightarrow> int list \<Rightarrow> int \<Rightarrow> ('v config_space, int option) st" where
  "walk_loop [] old knob point =
     (if knob = old then returnS None
      else bindS (is_index_valid point) (\<lambda>b. returnS (if b then Some point else None)))"
| "walk_loop ((from_i, to_v) # draws) old knob point =
     bindS (if knob = old then returnS False else is_index_valid point) (\<lambda>b.
       if b then returnS (Some point)
       else if old = [] then liftS (Inl ValueError)
       else bindS (knob2point (knob[from_i := to_v])) (\<lambda>p.
              walk_loop draws old (knob[from_i := to_v]) p))"

definition random_walk :: "(nat \<times> int) list \<Rightarrow> int \<Rightarrow> ('v config_space, int option) st" where
  "random_walk draws point =
     bindS (point2knob point) (\<lambda>old.
     bindS (knob2point old) (\<lambda>p. walk_loop draws old old p))"

section \<open>Declaring knobs\<close>

definition to_axis :: "axis_var \<Rightarrow> ('v config_space, axis) st" where
  "to_axis x cs =
     (case x of
        AxisVar ax \<Rightarrow> (cs, Inr ax)
      | _ \<Rightarrow> let (ct, r) = virtual_axis_init (axis_name_ct cs) x None
             in (cs\<lparr>axis_name_ct := ct\<rparr>, r))"

fun to_axes :: "axis_var list \<Rightarrow> ('v config_space, axis list) st" where
  "to_axes [] = returnS []"
| "to_axes (x # xs) = bindS (to_axis x) (\<lambda>a. bindS (to_axes xs) (\<lambda>as. returnS (a # as)))"

text \<open>
  A knob declared a second time under its name: until \<^verbatim>\<open>_entity_map[name]\<close> is assigned again it
  still holds the first entity of the old space.
\<close>

definition detach :: "string \<Rightarrow> 'v config_space \<Rightarrow> 'v config_space" where
  "detach name cs =
     (case (map_of (entity_map cs) name, map_of (space_map cs) name) of
        (Some FirstOfSpace, Some sp) \<Rightarrow>
          (case space_entities sp of
             e # _ \<Rightarrow> cs\<lparr>entity_map := AList.update name (OwnEntity e) (entity_map cs)\<rparr>
           | [] \<Rightarrow> cs)
      | _ \<Rightarrow> cs)"

text \<open>
  \<^verbatim>\<open>_add_new_transform\<close>: \<open>mk\<close> is \<^verbatim>\<open>space_class(axes, policy, **kwargs)\<close>, \<open>outputs\<close> is
  \<^verbatim>\<open>space_class.get_num_output(axes, policy, **kwargs)\<close>, \<open>has_filter\<close> is
  \<^verbatim>\<open>kwargs.get("filter")\<close>. The space is registered before its first entity is read.
\<close>

definition add_new_transform ::
    "bool \<Rightarrow> (axis list \<Rightarrow> 'v space py) \<Rightarrow> nat py \<Rightarrow> string \<Rightarrow> axis_var list
     \<Rightarrow> ('v config_space, axis list) st" where
  "add_new_transform has_filter mk outputs name vars =
     bindS (modifyS (\<lambda>cs. if has_filter then clear_cache cs else cs)) (\<lambda>_.
     bindS (getS (\<lambda>cs. collect cs \<and> \<not> (is_fallback cs \<and> name \<in> fst ` set (entity_map cs)))) (\<lambda>new.
       if new then
         bindS (to_axes vars) (\<lambda>axes.
         bindS (liftS (mk axes)) (\<lambda>sp.
         bindS (modifyS (\<lambda>cs. (detach name cs)\<lparr>space_map := AList.update name sp (space_map cs)\<rparr>)) (\<lambda>_.
         bindS (liftS (space_getitem sp 0)) (\<lambda>e.
         bindS (modifyS (\<lambda>cs. cs\<lparr>entity_map := AList.update name FirstOfSpace (entity_map cs)\<rparr>)) (\<lambda>_.
           returnS (map (Axis (Some name)) [0..<num_output sp]))))))
       else liftS (bindE outputs (\<lambda>n. Inr (map (Axis None) [0..<n])))))"

definition define_split ::
    "(int list \<Rightarrow> int list) \<Rightarrow> string \<Rightarrow> axis_var \<Rightarrow> string \<Rightarrow> 'v split_kwargs
     \<Rightarrow> ('v config_space, axis list) st" where
  "define_split set_list name ax policy kw =
     add_new_transform (kw_filter kw \<noteq> None) (\<lambda>axes. split_space_init set_list axes policy kw)
       (split_get_num_output kw) name [ax]"

definition define_reorder ::
    "string \<Rightarrow> axis_var list \<Rightarrow> string \<Rightarrow> axis reorder_kwargs \<Rightarrow> ('v config_space, axis list) st" where
  "define_reorder name axes policy kw =
     add_new_transform False (\<lambda>axs. reorder_space_init axs policy kw) (Inr (length axes)) name axes"

definition define_annotate ::
    "string \<Rightarrow> axis_var list \<Rightarrow> string \<Rightarrow> nat option \<Rightarrow> ('v config_space, axis list) st" where
  "define_annotate name axes policy num_anchor =
     add_new_transform False (\<lambda>axs. annotate_space_init axs policy num_anchor)
       (Inr (length axes)) name axes"

definition define_knob :: "string \<Rightarrow> 'v list \<Rightarrow> ('v config_space, axis list) st" where
  "define_knob name cands =
     add_new_transform False (\<lambda>_. Inr (other_option_space_init cands)) (Inr 0) name []"

section \<open>Statistics, errors, lookup\<close>

definition add_flop :: "rat \<Rightarrow> 'v config_space \<Rightarrow> 'v config_space" where
  "add_flop f cs = cs\<lparr>flop := flop cs + f\<rparr>"

definition raise_error :: "string \<Rightarrow> 'v config_space \<Rightarrow> 'v config_space" where
  "raise_error msg cs = cs\<lparr>c_errors := c_errors cs @ [msg]\<rparr>"

definition valid :: "'v config_space \<Rightarrow> bool" where
  "valid cs \<longleftrightarrow> c_errors cs = []"

definition resolve :: "'v config_space \<Rightarrow> string \<Rightarrow> 'v ent_ref \<Rightarrow> 'v entity py" where
  "resolve cs name ref =
     (case ref of
        OwnEntity e \<Rightarrow> Inr e
      | FirstOfSpace \<Rightarrow> bindE (dict_get (space_map cs) name) (\<lambda>sp. space_getitem sp 0))"

definition cs_getitem :: "'v config_space \<Rightarrow> string \<Rightarrow> 'v entity py" where
  "cs_getitem cs name = bindE (dict_get (entity_map cs) name) (resolve cs name)"

definition cs_iter :: "'v config_space \<Rightarrow> string list" where
  "cs_iter cs = map fst (entity_map cs)"

text \<open>The fields \<^verbatim>\<open>ConfigEntity.__init__\<close> sets.\<close>

record 'v config_entity =
  ce_index :: int
  ce_code_hash :: "string option"
  ce_entities :: "(string, 'v entity) dict"

definition cs_get :: "int \<Rightarrow> ('v config_space, 'v config_entity) st" where
  "cs_get index =
     bindS range_length (\<lambda>r.
       if index < 0 \<or> index \<ge> r then liftS (Inl IndexError)
       else bindS (is_index_valid index) (\<lambda>b.
         if \<not> b then liftS (Inl IndexError)
         else bindS (getS (\<lambda>cs. (space_map cs, code_hash cs))) (\<lambda>(sm, h).
                liftS (bindE (entities_at sm index) (\<lambda>es.
                  Inr \<lparr>ce_index = index, ce_code_hash = h, ce_entities = es\<rparr>)))))"

end
