(* ===== verification/Config_Index.thy ===== *)
theory Config_Index
  imports Config_Space
begin

text \<open>
  What the queries of \<^verbatim>\<open>ConfigSpace\<close> promise. A space declares a mixed-radix numbering of the
  combinations of its knobs; \<open>decode\<close> and \<open>valid_at\<close> say which combination an index stands
  for and whether the shared filter admits it, without caches or errors. \<open>coherent\<close> is the
  invariant of the caches; \<open>yields\<close> says that a query returns a value and keeps the
  declarations and the invariant. The refinement lemmas below state each query in these terms.
\<close>

section \<open>The abstract space\<close>

definition num_points :: "'v config_space \<Rightarrow> int" where
  "num_points cs = prod_list (space_lens cs)"

fun decode :: "(string, 'v space) dict \<Rightarrow> int \<Rightarrow> (string, 'v entity) dict" where
  "decode [] t = []"
| "decode ((name, sp) # rest) t =
     (name, space_entities sp ! nat (t mod space_len sp)) # decode rest (t div space_len sp)"

definition valid_at :: "'v config_space \<Rightarrow> int \<Rightarrow> bool" where
  "valid_at cs i = (case shared_filter cs of None \<Rightarrow> True | Some f \<Rightarrow> f (decode (space_map cs) i))"

definition valid_table :: "'v config_space \<Rightarrow> bool list" where
  "valid_table cs = map (valid_at cs) [0..num_points cs - 1]"

text \<open>Every knob has a candidate and the size of the space fits \<^verbatim>\<open>int64\<close>.\<close>

definition proper :: "'v config_space \<Rightarrow> bool" where
  "proper cs \<longleftrightarrow> (\<forall>sp \<in> snd ` set (space_map cs). 0 < space_len sp) \<and> num_points cs < 2 ^ 63"

definition coherent :: "'v config_space \<Rightarrow> bool" where
  "coherent cs \<longleftrightarrow>
     (c_range_length cs = None \<or> c_range_length cs = Some (num_points cs)) \<and>
     (c_dims cs = None \<or> c_dims cs = Some (space_lens cs)) \<and>
     (shared_filter_cache cs = None \<or>
        shared_filter_cache cs = Some (valid_table cs) \<and>
        c_length cs = Some (int (count_list (valid_table cs) True)))"

definition yields :: "'v config_space \<Rightarrow> ('v config_space, 'a) st \<Rightarrow> 'a \<Rightarrow> bool" where
  "yields cs m r \<longleftrightarrow>
     (\<exists>cs'. m cs = (cs', Inr r) \<and> coherent cs' \<and> clear_cache cs' = clear_cache cs)"

section \<open>What the caches do not change\<close>

lemma coherent_clear [simp]: "coherent (clear_cache cs)"
  by (simp add: coherent_def clear_cache_def)

lemma clear_cache_fields:
  assumes "clear_cache cs' = clear_cache cs"
  shows "space_map cs' = space_map cs" and "shared_filter cs' = shared_filter cs"
    and "code_hash cs' = code_hash cs" and "entity_map cs' = entity_map cs"
    and "collect cs' = collect cs" and "is_fallback cs' = is_fallback cs"
proof -
  have eq: "f (clear_cache cs') = f (clear_cache cs)" for f :: "'a config_space \<Rightarrow> 'b"
    by (simp add: assms)
  show "space_map cs' = space_map cs" using eq[of space_map] by (simp add: clear_cache_def)
  show "shared_filter cs' = shared_filter cs" using eq[of shared_filter] by (simp add: clear_cache_def)
  show "code_hash cs' = code_hash cs" using eq[of code_hash] by (simp add: clear_cache_def)
  show "entity_map cs' = entity_map cs" using eq[of entity_map] by (simp add: clear_cache_def)
  show "collect cs' = collect cs" using eq[of collect] by (simp add: clear_cache_def)
  show "is_fallback cs' = is_fallback cs" using eq[of is_fallback] by (simp add: clear_cache_def)
qed

lemma core_determines:
  assumes "clear_cache cs' = clear_cache cs"
  shows "space_lens cs' = space_lens cs" and "num_points cs' = num_points cs"
    and "valid_at cs' = valid_at cs" and "valid_table cs' = valid_table cs"
    and "proper cs' = proper cs"
proof -
  note eqs = clear_cache_fields(1,2)[OF assms]
  show 1: "space_lens cs' = space_lens cs" by (simp add: space_lens_def eqs)
  then show 2: "num_points cs' = num_points cs" by (simp add: num_points_def)
  show 3: "valid_at cs' = valid_at cs" unfolding valid_at_def eqs ..
  with 2 show "valid_table cs' = valid_table cs" by (simp add: valid_table_def)
  from 2 show "proper cs' = proper cs" by (simp add: proper_def eqs)
qed

lemma space_lens_pos: "proper cs \<Longrightarrow> d \<in> set (space_lens cs) \<Longrightarrow> 0 < d"
  by (force simp: proper_def space_lens_def)

lemma num_points_pos: "proper cs \<Longrightarrow> 0 < num_points cs"
  unfolding num_points_def by (rule prod_list_pos) (rule space_lens_pos)

lemma np_prod_num_points: "proper cs \<Longrightarrow> np_prod (space_lens cs) = num_points cs"
  using num_points_pos[of cs] by (simp add: num_points_def proper_def)

lemma length_valid_table: "proper cs \<Longrightarrow> int (length (valid_table cs)) = num_points cs"
  using num_points_pos[of cs] by (simp add: valid_table_def)

lemma nth_valid_table:
  "0 \<le> i \<Longrightarrow> i < num_points cs \<Longrightarrow> valid_table cs ! nat i = valid_at cs i"
  by (simp add: valid_table_def nth_upto)

section \<open>Reasoning about queries\<close>

lemma yieldsI:
  "m cs = (cs', Inr r) \<Longrightarrow> coherent cs' \<Longrightarrow> clear_cache cs' = clear_cache cs \<Longrightarrow> yields cs m r"
  by (auto simp: yields_def)

lemma yields_return [simp]: "coherent cs \<Longrightarrow> yields cs (returnS x) x"
  by (simp add: yields_def)

lemma yields_lift: "coherent cs \<Longrightarrow> r = Inr x \<Longrightarrow> yields cs (liftS r) x"
  by (simp add: yields_def)

lemma yields_get: "coherent cs \<Longrightarrow> yields cs (getS f) (f cs)"
  by (simp add: yields_def)

lemma yields_bind:
  assumes "yields cs m x"
    and "\<And>cs'. coherent cs' \<Longrightarrow> clear_cache cs' = clear_cache cs \<Longrightarrow> yields cs' (f x) y"
  shows "yields cs (bindS m f) y"
proof -
  from assms(1) obtain cs1 where 1: "m cs = (cs1, Inr x)" "coherent cs1" "clear_cache cs1 = clear_cache cs"
    by (auto simp: yields_def)
  then have "yields cs1 (f x) y" by (intro assms(2))
  with 1 show ?thesis by (auto simp: yields_def)
qed

lemma yields_det: "yields cs m x \<Longrightarrow> yields cs m y \<Longrightarrow> x = y"
  by (auto simp: yields_def)

lemma range_length_yields:
  assumes "proper cs" "coherent cs"
  shows "yields cs range_length (num_points cs)"
proof (cases "c_range_length cs")
  case None
  let ?cs = "cs\<lparr>c_range_length := Some (num_points cs)\<rparr>"
  have core: "clear_cache ?cs = clear_cache cs" by (simp add: clear_cache_def)
  have "coherent ?cs"
    using assms core_determines[OF core] by (simp add: coherent_def)
  with None assms core show ?thesis
    by (auto simp: yields_def range_length_def np_prod_num_points Let_def)
next
  case (Some r)
  with assms show ?thesis by (auto simp: yields_def range_length_def coherent_def)
qed

lemma dims_yields:
  assumes "coherent cs"
  shows "yields cs dims (space_lens cs)"
proof (cases "c_dims cs")
  case None
  let ?cs = "cs\<lparr>c_dims := Some (space_lens cs)\<rparr>"
  have core: "clear_cache ?cs = clear_cache cs" by (simp add: clear_cache_def)
  have "coherent ?cs"
    using assms core_determines[OF core] by (simp add: coherent_def)
  with None core show ?thesis by (auto simp: yields_def dims_def)
next
  case (Some r)
  with assms show ?thesis by (auto simp: yields_def dims_def coherent_def)
qed

section \<open>Decoding an index\<close>

lemma entities_at_decode:
  assumes "\<And>sp. sp \<in> snd ` set sm \<Longrightarrow> 0 < space_len sp"
  shows "entities_at sm t = Inr (decode sm t)"
  using assms
proof (induction sm arbitrary: t)
  case (Cons p rest)
  obtain name sp where p: "p = (name, sp)" by (cases p)
  from Cons.prems[of sp] p have pos: "0 < space_len sp" by simp
  then have "space_getitem sp (t mod space_len sp) = Inr (space_entities sp ! nat (t mod space_len sp))"
    by (intro space_getitem_in_range) auto
  moreover have "entities_at rest u = Inr (decode rest u)" for u
    using Cons.prems by (intro Cons.IH) auto
  ultimately show ?case using pos p by simp
qed simp

lemma proper_decode: "proper cs \<Longrightarrow> entities_at (space_map cs) t = Inr (decode (space_map cs) t)"
  by (rule entities_at_decode) (auto simp: proper_def)

lemma make_cache_yields:
  assumes "proper cs" "coherent cs" "shared_filter cs = Some f"
  shows "\<exists>cs'. make_shared_filter_cache cs = (cs', Inr ()) \<and> coherent cs' \<and>
           clear_cache cs' = clear_cache cs \<and> shared_filter_cache cs' = Some (valid_table cs)"
proof -
  from range_length_yields[OF assms(1,2)] obtain cs1 where
    1: "range_length cs = (cs1, Inr (num_points cs))" "coherent cs1" "clear_cache cs1 = clear_cache cs"
    by (auto simp: yields_def)
  note eqs = clear_cache_fields[OF 1(3)] core_determines[OF 1(3)]
  have tab: "mapE (\<lambda>i. bindE (entities_at (space_map cs) i) (\<lambda>es. Inr (f es))) [0..num_points cs - 1]
      = Inr (valid_table cs)"
    unfolding valid_table_def
    by (rule mapE_total) (simp add: proper_decode[OF assms(1)] valid_at_def assms(3))
  let ?cs = "cs1\<lparr>shared_filter_cache := Some (valid_table cs),
      c_length := Some (int (count_list (valid_table cs) True))\<rparr>"
  have core: "clear_cache ?cs = clear_cache cs1" by (simp add: clear_cache_def)
  have "coherent ?cs"
    using 1(2) core_determines[OF core] eqs(10) by (simp add: coherent_def)
  moreover have "make_shared_filter_cache cs = (?cs, Inr ())"
    using 1(1) eqs tab assms(3) by (simp add: make_shared_filter_cache_def)
  ultimately show ?thesis using core 1(3) by auto
qed

lemma filter_table_yields:
  assumes "proper cs" "coherent cs" "shared_filter cs = Some f"
  shows "yields cs filter_table (valid_table cs)"
proof (cases "shared_filter_cache cs")
  case None
  with make_cache_yields[OF assms] show ?thesis by (auto simp: yields_def filter_table_def)
next
  case (Some t)
  with assms show ?thesis by (auto simp: yields_def filter_table_def coherent_def)
qed

section \<open>Validity and counting\<close>

lemma yields_range_bind:
  assumes "proper cs" "coherent cs"
    and "\<And>cs'. proper cs' \<Longrightarrow> coherent cs' \<Longrightarrow> clear_cache cs' = clear_cache cs \<Longrightarrow>
           yields cs' (f (num_points cs)) y"
  shows "yields cs (bindS range_length f) y"
  by (rule yields_bind[OF range_length_yields[OF assms(1,2)]])
     (auto intro: assms simp: core_determines(5) assms(1))

lemma yields_assert_bind:
  "b \<Longrightarrow> yields cs (f ()) y \<Longrightarrow> yields cs (bindS (liftS (assertE b)) f) y"
  by (simp add: yields_def)

lemma yields_get_bind: "yields cs (f (g cs)) y \<Longrightarrow> yields cs (bindS (getS g) f) y"
  by (simp add: yields_def)

lemma is_index_valid_yields:
  assumes "proper cs" "coherent cs" "0 \<le> i" "i < num_points cs"
  shows "yields cs (is_index_valid i) (valid_at cs i)"
  unfolding is_index_valid_def
proof (rule yields_range_bind[OF assms(1,2)], rule yields_assert_bind, goal_cases)
  case (2 cs')
  note eqs = core_determines[OF 2(3)]
  show ?case
  proof (rule yields_get_bind, cases "shared_filter cs'")
    case None
    with 2 eqs(3) show "yields cs' (if shared_filter cs' = None then returnS True
        else bindS filter_table (\<lambda>t. liftS (py_nth t i))) (valid_at cs i)"
      by (simp add: valid_at_def flip: eqs(3))
  next
    case (Some f)
    have "yields cs' (bindS filter_table (\<lambda>t. liftS (py_nth t i))) (valid_at cs i)"
      using assms(3,4) length_valid_table[OF 2(1)] nth_valid_table[of i cs] eqs
      by (intro yields_bind[OF filter_table_yields[OF 2(1,2) Some]] yields_lift) auto
    with Some show "yields cs' (if shared_filter cs' = None then returnS True
        else bindS filter_table (\<lambda>t. liftS (py_nth t i))) (valid_at cs i)"
      by simp
  qed
qed (use assms in auto)

lemma is_index_valid_out_of_range:
  assumes "proper cs" "coherent cs" "i < 0 \<or> num_points cs \<le> i"
  shows "\<exists>cs'. is_index_valid i cs = (cs', Inl AssertionError)"
proof -
  from range_length_yields[OF assms(1,2)] obtain cs1 where
    "range_length cs = (cs1, Inr (num_points cs))" by (auto simp: yields_def)
  with assms(3) show ?thesis by (auto simp: is_index_valid_def)
qed

lemma is_index_valid_bind:
  assumes "proper cs" "coherent cs" "0 \<le> i" "i < num_points cs"
  obtains cs' where "is_index_valid i cs = (cs', Inr (valid_at cs i))" "proper cs'" "coherent cs'"
    "clear_cache cs' = clear_cache cs"
  using is_index_valid_yields[OF assms] core_determines(5) assms(1) by (auto simp: yields_def)

text \<open>The numbers of a range that are valid, in order.\<close>

definition valid_in :: "'v config_space \<Rightarrow> int \<Rightarrow> int \<Rightarrow> int list" where
  "valid_in cs a b = filter (valid_at cs) [a..b - 1]"

lemma count_list_map_filter: "count_list (map P xs) True = length (filter P xs)"
  by (induction xs) auto

lemma take_drop_upto:
  assumes "0 \<le> a" "a \<le> b" "b \<le> n"
  shows "take (nat (b - a)) (drop (nat a) [0..n - 1]) = [a..b - 1]"
proof (rule nth_equalityI)
  show "length (take (nat (b - a)) (drop (nat a) [0..n - 1])) = length [a..b - 1]"
    using assms by auto
next
  fix k
  assume "k < length (take (nat (b - a)) (drop (nat a) [0..n - 1]))"
  with assms show "take (nat (b - a)) (drop (nat a) [0..n - 1]) ! k = [a..b - 1] ! k"
    by (auto simp: nth_upto)
qed

lemma subrange_length_yields:
  assumes "proper cs" "coherent cs" "0 \<le> a" "a \<le> b" "b \<le> num_points cs"
  shows "yields cs (subrange_length a b) (int (length (valid_in cs a b)))"
  unfolding subrange_length_def
proof (rule yields_range_bind[OF assms(1,2)], rule yields_assert_bind, goal_cases)
  case (2 cs')
  note eqs = core_determines[OF 2(3)]
  show ?case
  proof (rule yields_get_bind, cases "shared_filter cs'")
    case None
    then have "valid_in cs a b = [a..b - 1]"
      using clear_cache_fields(2)[OF 2(3)] by (simp add: valid_in_def valid_at_def)
    with assms(4) 2 None show "yields cs' (if shared_filter cs' = None then returnS (b - a)
        else bindS filter_table (\<lambda>t. returnS (int (count_list
          (take (nat (b - a)) (drop (nat a) t)) True)))) (int (length (valid_in cs a b)))"
      by simp
  next
    case (Some f)
    have "count_list (take (nat (b - a)) (drop (nat a) (valid_table cs'))) True
        = length (valid_in cs a b)"
      using take_drop_upto[OF assms(3-5)] eqs
      by (simp add: valid_table_def take_map drop_map count_list_map_filter valid_in_def)
    with Some show "yields cs' (if shared_filter cs' = None then returnS (b - a)
        else bindS filter_table (\<lambda>t. returnS (int (count_list
          (take (nat (b - a)) (drop (nat a) t)) True)))) (int (length (valid_in cs a b)))"
      by (auto intro!: yields_bind[OF filter_table_yields[OF 2(1,2) Some]])
  qed
qed (use assms in auto)

lemma cs_len_yields:
  assumes "proper cs" "coherent cs"
  shows "yields cs cs_len (int (length (valid_in cs 0 (num_points cs))))"
  unfolding cs_len_def
proof (rule yields_get_bind, cases "shared_filter cs")
  case None
  then have "valid_in cs 0 (num_points cs) = [0..num_points cs - 1]"
    by (simp add: valid_in_def valid_at_def)
  with None num_points_pos[OF assms(1)] range_length_yields[OF assms]
  show "yields cs (if shared_filter cs = None then range_length
      else bindS filter_table (\<lambda>t. bindS (getS c_length)
        (\<lambda>l. case l of None \<Rightarrow> liftS (Inl TypeError) | Some n \<Rightarrow> returnS n)))
      (int (length (valid_in cs 0 (num_points cs))))"
    by simp
next
  case (Some f)
  from make_cache_yields[OF assms Some] assms(2) obtain cs1 where
    1: "filter_table cs = (cs1, Inr (valid_table cs))" "coherent cs1" "clear_cache cs1 = clear_cache cs"
       "shared_filter_cache cs1 = Some (valid_table cs)"
    by (cases "shared_filter_cache cs") (auto simp: filter_table_def coherent_def)
  then have "c_length cs1 = Some (int (count_list (valid_table cs) True))"
    using core_determines(4)[OF 1(3)] by (auto simp: coherent_def)
  with 1 Some show "yields cs (if shared_filter cs = None then range_length
      else bindS filter_table (\<lambda>t. bindS (getS c_length)
        (\<lambda>l. case l of None \<Rightarrow> liftS (Inl TypeError) | Some n \<Rightarrow> returnS n)))
      (int (length (valid_in cs 0 (num_points cs))))"
    by (auto simp: yields_def valid_table_def count_list_map_filter valid_in_def)
qed

section \<open>The next valid index\<close>

text \<open>The k-th element of a list, counted from 1.\<close>

definition kth :: "'a list \<Rightarrow> nat \<Rightarrow> 'a option" where
  "kth xs k = (if 0 < k \<and> k \<le> length xs then Some (xs ! (k - 1)) else None)"

lemma kth_Nil [simp]: "kth [] k = None"
  by (cases k) (simp_all add: kth_def)

lemma kth_Cons: "kth (x # xs) k = (if k = 0 then None else if k = 1 then Some x else kth xs (k - 1))"
proof (cases k)
  case (Suc j)
  then show ?thesis by (cases j) (auto simp: kth_def)
qed (simp add: kth_def)

definition next_valid :: "'v config_space \<Rightarrow> int \<Rightarrow> int \<Rightarrow> int \<Rightarrow> int \<Rightarrow> int option" where
  "next_valid cs index n start en =
     kth (if n > 0 then valid_in cs (index + 1) en else rev (valid_in cs start index)) (nat \<bar>n\<bar>)"

lemma valid_in_empty: "b \<le> a \<Longrightarrow> valid_in cs a b = []"
  by (simp add: valid_in_def)

lemma valid_in_Cons:
  "a < b \<Longrightarrow> valid_in cs a b = (if valid_at cs a then a # valid_in cs (a + 1) b else valid_in cs (a + 1) b)"
  using upto_rec1[of a "b - 1"] by (simp add: valid_in_def)

lemma valid_in_snoc:
  "a < b \<Longrightarrow> valid_in cs a b = valid_in cs a (b - 1) @ (if valid_at cs (b - 1) then [b - 1] else [])"
  using upto_rec2[of a "b - 1"] by (simp add: valid_in_def)

lemma valid_in_core: "clear_cache cs' = clear_cache cs \<Longrightarrow> valid_in cs' = valid_in cs"
  unfolding valid_in_def fun_eq_iff by (drule core_determines(3)) simp

lemma set_valid_in: "set (valid_in cs a b) = {i. a \<le> i \<and> i < b \<and> valid_at cs i}"
  by (auto simp: valid_in_def)

lemma distinct_valid_in: "distinct (valid_in cs a b)"
  by (simp add: valid_in_def)

lemma yields_core:
  "yields cs' m r \<Longrightarrow> clear_cache cs' = clear_cache cs \<Longrightarrow>
     \<exists>cs''. m cs' = (cs'', Inr r) \<and> coherent cs'' \<and> clear_cache cs'' = clear_cache cs"
  by (auto simp: yields_def)

lemma next_loop_up:
  assumes "proper cs" "coherent cs" "0 \<le> st" "en \<le> num_points cs" "st \<le> index + 1" "0 < k"
  shows "yields cs (next_index_loop True st en index k) (kth (valid_in cs (index + 1) en) k)"
  using assms
proof (induction "nat (en - index)" arbitrary: cs index k rule: less_induct)
  case less
  show ?case
  proof (cases "index + 1 < en")
    case False
    with less.prems show ?thesis
      by (auto simp: yields_def valid_in_empty next_index_loop.simps[of True st en index k])
  next
    case True
    obtain cs1 where 1: "is_index_valid (index + 1) cs = (cs1, Inr (valid_at cs (index + 1)))"
      "proper cs1" "coherent cs1" "clear_cache cs1 = clear_cache cs"
      using is_index_valid_bind[OF less.prems(1,2), of "index + 1"] True less.prems by auto
    let ?k = "if valid_at cs (index + 1) then k - 1 else k"
    have step: "next_index_loop True st en index k cs = next_index_loop True st en (index + 1) ?k cs1"
      using True less.prems 1(1) by (subst next_index_loop.simps) simp
    show ?thesis
    proof (cases "?k = 0")
      case True
      with less.prems(6) have "k = 1" "valid_at cs (index + 1)" by (auto split: if_splits)
      with step 1 \<open>index + 1 < en\<close> show ?thesis
        by (auto simp: yields_def valid_in_Cons kth_Cons next_index_loop.simps[of True st en "index + 1" 0])
    next
      case False
      have "yields cs1 (next_index_loop True st en (index + 1) ?k) (kth (valid_in cs1 (index + 1 + 1) en) ?k)"
        using False True less.prems 1 by (intro less.hyps) (auto simp: core_determines(2)[OF 1(4)])
      with step 1(4) True False show ?thesis
        by (auto simp: yields_def valid_in_Cons kth_Cons valid_in_core[OF 1(4)] split: if_splits)
    qed
  qed
qed

lemma next_loop_down:
  assumes "proper cs" "coherent cs" "0 \<le> st" "en \<le> num_points cs" "index \<le> en" "0 < k"
  shows "yields cs (next_index_loop False st en index k) (kth (rev (valid_in cs st index)) k)"
  using assms
proof (induction "nat (index - st + 1)" arbitrary: cs index k rule: less_induct)
  case less
  show ?case
  proof (cases "st \<le> index - 1")
    case False
    with less.prems show ?thesis
      by (auto simp: yields_def valid_in_empty next_index_loop.simps[of False st en index k])
  next
    case True
    obtain cs1 where 1: "is_index_valid (index - 1) cs = (cs1, Inr (valid_at cs (index - 1)))"
      "proper cs1" "coherent cs1" "clear_cache cs1 = clear_cache cs"
      using is_index_valid_bind[OF less.prems(1,2), of "index - 1"] True less.prems by auto
    let ?k = "if valid_at cs (index - 1) then k - 1 else k"
    have step: "next_index_loop False st en index k cs = next_index_loop False st en (index - 1) ?k cs1"
      using True less.prems 1(1) by (subst next_index_loop.simps) simp
    show ?thesis
    proof (cases "?k = 0")
      case True
      with less.prems(6) have "k = 1" "valid_at cs (index - 1)" by (auto split: if_splits)
      with step 1 \<open>st \<le> index - 1\<close> show ?thesis
        by (auto simp: yields_def valid_in_snoc kth_Cons next_index_loop.simps[of False st en "index - 1" 0])
    next
      case False
      have "yields cs1 (next_index_loop False st en (index - 1) ?k) (kth (rev (valid_in cs1 st (index - 1))) ?k)"
        using False True less.prems 1 by (intro less.hyps) (auto simp: core_determines(2)[OF 1(4)])
      with step 1(4) True False show ?thesis
        by (auto simp: yields_def valid_in_snoc kth_Cons valid_in_core[OF 1(4)] split: if_splits)
    qed
  qed
qed

lemma end_or_range_yields:
  assumes "proper cs" "coherent cs"
  shows "yields cs (end_or_range en)
           (case en of None \<Rightarrow> num_points cs | Some e \<Rightarrow> if e = 0 then num_points cs else e)"
  using assms range_length_yields[OF assms] by (auto simp: end_or_range_def split: option.splits)

lemma get_next_index_yields:
  assumes "proper cs" "coherent cs" "n \<noteq> 0"
    and st: "0 \<le> start_or_0 start" "start_or_0 start \<le> index + 1"
    and e: "e = (case en of None \<Rightarrow> num_points cs | Some e \<Rightarrow> if e = 0 then num_points cs else e)"
      "e \<le> num_points cs" "index \<le> e"
  shows "yields cs (get_next_index index n start en) (next_valid cs index n (start_or_0 start) e)"
  unfolding get_next_index_def Let_def
proof (rule yields_assert_bind[OF assms(3)],
    rule yields_bind[OF end_or_range_yields[OF assms(1,2), of en, folded e(1)]])
  fix cs' assume c: "coherent cs'" "clear_cache cs' = clear_cache cs"
  note eqs = core_determines[OF c(2)] clear_cache_fields[OF c(2)]
  let ?s = "start_or_0 start"
  have unfiltered: "(if ?s \<le> index + n \<and> index + n < e then Some (index + n) else None)
      = next_valid cs index n ?s e" if "shared_filter cs = None"
  proof -
    have all: "valid_in cs a b = [a..b - 1]" for a b using that by (simp add: valid_in_def valid_at_def)
    show ?thesis
      using assms(3) st e(3) by (auto simp: next_valid_def kth_def all nth_upto rev_nth)
  qed
  have filtered: "yields cs' (next_index_loop (n > 0) ?s e index (nat \<bar>n\<bar>)) (next_valid cs index n ?s e)"
    using next_loop_up[of cs' ?s e index "nat \<bar>n\<bar>"] next_loop_down[of cs' ?s e index "nat \<bar>n\<bar>"]
      assms st e c eqs valid_in_core[OF c(2)]
    by (cases "n > 0") (auto simp: next_valid_def)
  show "yields cs' (bindS (getS shared_filter) (\<lambda>fil. if fil = None
      then returnS (if ?s \<le> index + n \<and> index + n < e then Some (index + n) else None)
      else next_index_loop (0 < n) ?s e index (nat \<bar>n\<bar>))) (next_valid cs index n ?s e)"
    using unfiltered filtered c eqs by (intro yields_get_bind) auto
qed

section \<open>Points and knobs\<close>

fun encode :: "int list \<Rightarrow> int list \<Rightarrow> int" where
  "encode (d # ds) (k # ks) = k + d * encode ds ks"
| "encode ds ks = 0"

fun digits_of :: "int list \<Rightarrow> int \<Rightarrow> int list" where
  "digits_of [] p = []"
| "digits_of (d # ds) p = p mod d # digits_of ds (p div d)"

definition in_dims :: "int list \<Rightarrow> int list \<Rightarrow> bool" where
  "in_dims ds ks = list_all2 (\<lambda>d k. 0 \<le> k \<and> k < d) ds ks"

lemma point_to_knob_digits: "0 \<notin> set ds \<Longrightarrow> point_to_knob ds p = Inr (digits_of ds p)"
  by (induction ds arbitrary: p) auto

lemma in_dims_digits: "(\<And>d. d \<in> set ds \<Longrightarrow> 0 < d) \<Longrightarrow> in_dims ds (digits_of ds p)"
  by (induction ds arbitrary: p) (auto simp: in_dims_def)

lemma digits_encode: "in_dims ds ks \<Longrightarrow> digits_of ds (encode ds ks) = ks"
  unfolding in_dims_def by (induction rule: list_all2_induct) auto

lemma encode_digits:
  "(\<And>d. d \<in> set ds \<Longrightarrow> 0 < d) \<Longrightarrow> 0 \<le> p \<Longrightarrow> p < prod_list ds \<Longrightarrow> encode ds (digits_of ds p) = p"
proof (induction ds arbitrary: p)
  case (Cons d ds)
  have d: "0 < d" using Cons.prems(1) by simp
  have "d * (p div d) \<le> p" using d by (simp add: mult_div_mod_eq[symmetric] minus_mod_eq_mult_div[symmetric])
  also have "\<dots> < d * prod_list ds" using Cons.prems(3) by simp
  finally have "p div d < prod_list ds" using d by simp
  moreover have "0 \<le> p div d" using d Cons.prems(2) by (simp add: pos_imp_zdiv_nonneg_iff)
  ultimately show ?case using Cons.IH[of "p div d"] Cons.prems(1) by simp
qed simp

lemma encode_bounds:
  assumes "in_dims ds ks"
  shows "0 \<le> encode ds ks \<and> encode ds ks < prod_list ds"
  using assms unfolding in_dims_def
proof (induction rule: list_all2_induct)
  case (Cons d ds k ks)
  have "k + d * encode ds ks < d * (encode ds ks + 1)" using Cons by (simp add: algebra_simps)
  also have "\<dots> \<le> d * prod_list ds" using Cons by (intro mult_left_mono) auto
  finally show ?case using Cons by simp
qed simp

lemma prod_list_prefix_le:
  "(\<And>x. x \<in> set (xs @ ys) \<Longrightarrow> 0 < x) \<Longrightarrow> prod_list xs \<le> prod_list (xs @ ys :: int list)"
  using prod_list_pos[of ys] prod_list_pos[of xs] by force

lemma np_prod_prefix:
  assumes "\<And>d. d \<in> set (pre @ ds) \<Longrightarrow> 0 < d" and "prod_list (pre @ ds) < 2 ^ 63"
  shows "np_prod pre = prod_list pre"
proof (rule np_prod_small)
  have "0 < prod_list pre" by (rule prod_list_pos) (simp add: assms(1))
  then show "0 \<le> prod_list pre" by simp
  have "prod_list pre \<le> prod_list (pre @ ds)" by (rule prod_list_prefix_le) (rule assms(1))
  with assms(2) show "prod_list pre < 2 ^ 63" by linarith
qed

lemma knob_to_point_encode:
  assumes "\<And>d. d \<in> set (pre @ ds) \<Longrightarrow> 0 < d" "prod_list (pre @ ds) < 2 ^ 63" "length ks = length ds"
  shows "knob_to_point (pre @ ds) (length pre) ks p = p + prod_list pre * encode ds ks"
  using assms
proof (induction ks arbitrary: pre ds p)
  case (Cons k ks)
  from Cons.prems(3) obtain d ds' where ds: "ds = d # ds'" by (cases ds) auto
  have np: "np_prod pre = prod_list pre" using Cons.prems by (intro np_prod_prefix)
  have "knob_to_point ((pre @ [d]) @ ds') (length (pre @ [d])) ks (p + prod_list pre * k)
      = p + prod_list pre * k + prod_list (pre @ [d]) * encode ds' ks"
    using Cons.prems ds by (intro Cons.IH) auto
  with ds np show ?case by (simp add: algebra_simps)
qed simp

lemma point2knob_yields:
  assumes "proper cs" "coherent cs"
  shows "yields cs (point2knob p) (digits_of (space_lens cs) p)"
  unfolding point2knob_def
  using space_lens_pos[OF assms(1)]
  by (intro yields_bind[OF dims_yields[OF assms(2)]] yields_lift point_to_knob_digits) force+

lemma knob2point_yields:
  assumes "proper cs" "coherent cs" "length ks = length (space_lens cs)"
  shows "yields cs (knob2point ks) (encode (space_lens cs) ks)"
proof -
  have "knob_to_point (space_lens cs) 0 ks 0 = encode (space_lens cs) ks"
    using knob_to_point_encode[of "[]" "space_lens cs" ks 0] assms space_lens_pos[OF assms(1)]
    by (simp add: proper_def num_points_def)
  then show ?thesis
    unfolding knob2point_def by (auto intro!: yields_bind[OF dims_yields[OF assms(2)]])
qed

lemma decode_digits:
  "decode sm t = map2 (\<lambda>(name, sp) k. (name, space_entities sp ! nat k)) sm
     (digits_of (map (\<lambda>(name, sp). space_len sp) sm) t)"
  by (induction sm arbitrary: t) auto

section \<open>Reading a configuration\<close>

lemma cs_get_yields:
  assumes "proper cs" "coherent cs" "0 \<le> i" "i < num_points cs" "valid_at cs i"
  shows "yields cs (cs_get i)
           \<lparr>ce_index = i, ce_code_hash = code_hash cs, ce_entities = decode (space_map cs) i\<rparr>"
  unfolding cs_get_def
proof (rule yields_range_bind[OF assms(1,2)], goal_cases)
  case (1 cs')
  note eqs = core_determines[OF 1(3)] clear_cache_fields[OF 1(3)]
  have "yields cs' (is_index_valid i) True"
    using is_index_valid_yields[OF 1(1,2)] assms eqs by force
  then have "yields cs' (bindS (is_index_valid i) (\<lambda>b. if \<not> b then liftS (Inl IndexError)
       else bindS (getS (\<lambda>cs. (space_map cs, code_hash cs))) (\<lambda>(sm, h).
          liftS (bindE (entities_at sm i) (\<lambda>es.
            Inr \<lparr>ce_index = i, ce_code_hash = h, ce_entities = es\<rparr>)))))
      \<lparr>ce_index = i, ce_code_hash = code_hash cs, ce_entities = decode (space_map cs) i\<rparr>"
  proof (rule yields_bind, goal_cases)
    case (1 cs'')
    with eqs show ?case
      by (auto simp: proper_decode[OF assms(1)] clear_cache_fields[OF 1(2)]
          intro!: yields_get_bind yields_lift)
  qed
  with assms show ?case by simp
qed

lemma cs_get_invalid:
  assumes "proper cs" "coherent cs" "i < 0 \<or> num_points cs \<le> i \<or> \<not> valid_at cs i"
  shows "\<exists>cs'. cs_get i cs = (cs', Inl IndexError)"
proof -
  from range_length_yields[OF assms(1,2)] obtain cs1 where
    1: "range_length cs = (cs1, Inr (num_points cs))" "coherent cs1" "clear_cache cs1 = clear_cache cs"
    by (auto simp: yields_def)
  note eqs = core_determines[OF 1(3)]
  show ?thesis
  proof (cases "i < 0 \<or> num_points cs \<le> i")
    case True
    with 1 show ?thesis by (auto simp: cs_get_def)
  next
    case False
    with assms eqs 1 have "yields cs1 (is_index_valid i) False"
      using is_index_valid_yields[of cs1 i] by auto
    with False 1 show ?thesis by (auto simp: cs_get_def yields_def)
  qed
qed

section \<open>Random choices\<close>

lemma rand_loop_yields:
  assumes "proper cs" "coherent cs" "\<forall>d \<in> set draws. 0 \<le> d \<and> d < num_points cs"
  shows "yields cs (rand_index_loop draws excl) (find (\<lambda>d. valid_at cs d \<and> d \<notin> set excl) draws)"
  using assms
proof (induction draws arbitrary: cs)
  case (Cons d draws)
  have "yields cs (is_index_valid d) (valid_at cs d)"
    using Cons.prems by (intro is_index_valid_yields) auto
  then show ?case
    unfolding rand_index_loop.simps
  proof (rule yields_bind, goal_cases)
    case (1 cs')
    note eqs = core_determines[OF 1(2)]
    with Cons.prems have "yields cs' (rand_index_loop draws excl)
        (find (\<lambda>d. valid_at cs' d \<and> d \<notin> set excl) draws)"
      using 1 by (intro Cons.IH) auto
    with eqs 1 show ?case by simp
  qed
qed simp

lemma get_rand_index_yields:
  assumes "proper cs" "coherent cs"
    and "e = (case en of None \<Rightarrow> num_points cs | Some e \<Rightarrow> if e = 0 then num_points cs else e)"
    and "start_or_0 start < e"
    and "\<forall>d \<in> set draws. 0 \<le> d \<and> d < num_points cs"
  shows "yields cs (get_rand_index draws start en excl)
           (find (\<lambda>d. valid_at cs d \<and> d \<notin> set excl) draws)"
  unfolding get_rand_index_def
proof (rule yields_bind[OF end_or_range_yields[OF assms(1,2), of en, folded assms(3)]])
  fix cs' assume c: "coherent cs'" "clear_cache cs' = clear_cache cs"
  note eqs = core_determines[OF c(2)]
  have "yields cs' (rand_index_loop draws excl) (find (\<lambda>d. valid_at cs' d \<and> d \<notin> set excl) draws)"
    using assms c eqs by (intro rand_loop_yields) auto
  with assms(4) eqs show "yields cs' (if e \<le> start_or_0 start then liftS (Inl ValueError)
      else rand_index_loop draws excl) (find (\<lambda>d. valid_at cs d \<and> d \<notin> set excl) draws)"
    by simp
qed

definition fresh_valid :: "'v config_space \<Rightarrow> int list \<Rightarrow> bool" where
  "fresh_valid cs vis \<longleftrightarrow> distinct vis \<and> (\<forall>v \<in> set vis. 0 \<le> v \<and> v < num_points cs \<and> valid_at cs v)"

lemma sample_loop_yields:
  assumes "proper cs" "coherent cs" "\<forall>d \<in> set draws. 0 \<le> d \<and> d < num_points cs"
    and "fresh_valid cs vis" "int (length vis) \<le> m"
  shows "\<exists>r. yields cs (sample_loop draws m vis) r \<and>
           (\<forall>xs. r = Some xs \<longrightarrow> fresh_valid cs xs \<and> int (length xs) = m) \<and>
           (r = None \<longrightarrow> int (card (set vis \<union> {d \<in> set draws. valid_at cs d})) < m)"
  using assms
proof (induction draws arbitrary: cs vis)
  case Nil
  then show ?case
    by (intro exI[of _ "if m \<le> int (length vis) then Some vis else None"])
       (auto simp: fresh_valid_def distinct_card yields_def)
next
  case (Cons d draws)
  show ?case
  proof (cases "m \<le> int (length vis)")
    case True
    with Cons.prems show ?thesis by (intro exI[of _ "Some vis"]) (auto simp: yields_def)
  next
    case False
    let ?vis = "if valid_at cs d \<and> d \<notin> set vis then vis @ [d] else vis"
    from range_length_yields[OF Cons.prems(1,2)] obtain cs1 where
      1: "range_length cs = (cs1, Inr (num_points cs))" "coherent cs1" "clear_cache cs1 = clear_cache cs"
      by (auto simp: yields_def)
    have p1: "proper cs1" using core_determines(5)[OF 1(3)] Cons.prems(1) by simp
    obtain cs2 where 2: "is_index_valid d cs1 = (cs2, Inr (valid_at cs1 d))" "proper cs2" "coherent cs2"
      "clear_cache cs2 = clear_cache cs1"
      using is_index_valid_bind[OF p1 1(2), of d] Cons.prems(3) core_determines(2)[OF 1(3)] by auto
    have core: "clear_cache cs2 = clear_cache cs" using 1 2 by simp
    note eqs = core_determines[OF core] core_determines[OF 1(3)]
    have "fresh_valid cs2 ?vis" using Cons.prems(3,4) eqs by (auto simp: fresh_valid_def)
    moreover have "\<forall>d \<in> set draws. 0 \<le> d \<and> d < num_points cs2"
      using Cons.prems(3) eqs(2) by auto
    moreover have "int (length ?vis) \<le> m" using False by auto
    ultimately obtain r where r: "yields cs2 (sample_loop draws m ?vis) r"
      "\<forall>xs. r = Some xs \<longrightarrow> fresh_valid cs2 xs \<and> int (length xs) = m"
      "r = None \<longrightarrow> int (card (set ?vis \<union> {d \<in> set draws. valid_at cs2 d})) < m"
      using Cons.IH[OF 2(2,3), of ?vis] by blast
    have step: "sample_loop (d # draws) m vis cs = sample_loop draws m ?vis cs2"
      using False 1 2 eqs num_points_pos[OF Cons.prems(1)] by simp
    have "set ?vis \<union> {d \<in> set draws. valid_at cs2 d} = set vis \<union> {x \<in> set (d # draws). valid_at cs x}"
      using eqs by auto
    with r step core eqs show ?thesis
      by (intro exI[of _ r]) (auto simp: yields_def fresh_valid_def)
  qed
qed

end
