(* ===== verification/Config_Walk.thy ===== *)
theory Config_Walk
  imports Config_Index
begin

text \<open>
  The random walk of \<^verbatim>\<open>ConfigSpace\<close>, the phase in which a template declares its knobs, and the
  properties of the configuration space as a whole.
\<close>

section \<open>Random walk\<close>

definition walk_draws :: "'v config_space \<Rightarrow> (nat \<times> int) list \<Rightarrow> bool" where
  "walk_draws cs draws \<longleftrightarrow>
     (\<forall>(i, v) \<in> set draws. i < length (space_lens cs) \<and> 0 \<le> v \<and> v < space_lens cs ! i)"

lemma in_dims_update:
  "in_dims ds ks \<Longrightarrow> i < length ds \<Longrightarrow> 0 \<le> v \<Longrightarrow> v < ds ! i \<Longrightarrow> in_dims ds (ks[i := v])"
  by (auto simp: in_dims_def list_all2_conv_all_nth nth_list_update)

lemma in_dims_length: "in_dims ds ks \<Longrightarrow> length ks = length ds"
  by (auto simp: in_dims_def list_all2_lengthD)

text \<open>What one round of the loop looks at: has the knob changed, and is the point valid?\<close>

definition walk_done :: "'v config_space \<Rightarrow> int list \<Rightarrow> int list \<Rightarrow> bool" where
  "walk_done cs old knob \<longleftrightarrow> knob \<noteq> old \<and> valid_at cs (encode (space_lens cs) knob)"

lemma walk_test_yields:
  assumes "proper cs" "coherent cs" "in_dims (space_lens cs) knob"
  shows "yields cs (if knob = old then returnS False else is_index_valid (encode (space_lens cs) knob))
           (walk_done cs old knob)"
  using is_index_valid_yields[OF assms(1,2)] encode_bounds[OF assms(3)] assms(2)
  by (auto simp: walk_done_def num_points_def)

text \<open>The knob vectors the walk goes through.\<close>

fun walk_knobs :: "int list \<Rightarrow> (nat \<times> int) list \<Rightarrow> int list list" where
  "walk_knobs knob [] = [knob]"
| "walk_knobs knob ((i, v) # draws) = knob # walk_knobs (knob[i := v]) draws"

lemma walk_loop_yields:
  assumes "proper cs" "coherent cs" "in_dims (space_lens cs) knob" "walk_draws cs draws"
    "length old = length (space_lens cs)"
  shows "yields cs (walk_loop draws old knob (encode (space_lens cs) knob))
           (map_option (encode (space_lens cs)) (find (walk_done cs old) (walk_knobs knob draws)))"
  using assms
proof (induction draws arbitrary: cs knob)
  case Nil
  note test = walk_test_yields[OF Nil.prems(1-3), of old]
  show ?case
  proof (cases "knob = old")
    case True
    with Nil.prems(2) show ?thesis by (simp add: walk_done_def yields_def)
  next
    case False
    with test have "yields cs (is_index_valid (encode (space_lens cs) knob)) (walk_done cs old knob)" by simp
    with False show ?thesis by (auto simp: yields_def)
  qed
next
  case (Cons dr draws)
  obtain i v where dr: "dr = (i, v)" by (cases dr)
  have upd: "in_dims (space_lens cs) (knob[i := v])"
    using Cons.prems dr by (intro in_dims_update) (auto simp: walk_draws_def)
  show ?case
    unfolding dr walk_loop.simps
  proof (rule yields_bind[OF walk_test_yields[OF Cons.prems(1-3), of old]])
    fix cs1 assume 1: "coherent cs1" "clear_cache cs1 = clear_cache cs"
    note eqs = core_determines[OF 1(2)]
    show "yields cs1 (if walk_done cs old knob then returnS (Some (encode (space_lens cs) knob))
        else if old = [] then liftS (Inl ValueError)
        else bindS (knob2point (knob[i := v])) (\<lambda>p. walk_loop draws old (knob[i := v]) p))
      (map_option (encode (space_lens cs)) (find (walk_done cs old) (walk_knobs knob ((i, v) # draws))))"
    proof (cases "walk_done cs old knob")
      case True
      with 1 show ?thesis by simp
    next
      case False
      have "yields cs1 (bindS (knob2point (knob[i := v])) (\<lambda>p. walk_loop draws old (knob[i := v]) p))
        (map_option (encode (space_lens cs)) (find (walk_done cs old) (walk_knobs (knob[i := v]) draws)))"
      proof (rule yields_bind[where x = "encode (space_lens cs) (knob[i := v])"])
        show "yields cs1 (knob2point (knob[i := v])) (encode (space_lens cs) (knob[i := v]))"
          using knob2point_yields[of cs1 "knob[i := v]"] eqs Cons.prems(1) 1 in_dims_length[OF upd] by simp
      next
        fix cs2 assume 2: "coherent cs2" "clear_cache cs2 = clear_cache cs1"
        have core: "clear_cache cs2 = clear_cache cs" using 1 2 by simp
        note eqs2 = core_determines[OF core]
        have done_eq: "walk_done cs2 = walk_done cs"
          by (simp add: walk_done_def fun_eq_iff eqs2)
        show "yields cs2 (walk_loop draws old (knob[i := v]) (encode (space_lens cs) (knob[i := v])))
          (map_option (encode (space_lens cs)) (find (walk_done cs old) (walk_knobs (knob[i := v]) draws)))"
          using Cons.IH[of cs2 "knob[i := v]"] 2 eqs2 done_eq upd Cons.prems dr
          by (simp add: walk_draws_def)
      qed
      moreover have "old \<noteq> []" using Cons.prems(4,5) dr by (auto simp: walk_draws_def)
      ultimately show ?thesis using False by simp
    qed
  qed
qed

lemma random_walk_yields:
  assumes "proper cs" "coherent cs" "walk_draws cs draws"
  shows "yields cs (random_walk draws p)
           (map_option (encode (space_lens cs))
              (find (walk_done cs (digits_of (space_lens cs) p))
                 (walk_knobs (digits_of (space_lens cs) p) draws)))"
    (is "yields _ _ ?r")
  unfolding random_walk_def
proof (rule yields_bind[OF point2knob_yields[OF assms(1,2)]])
  fix cs1 assume 1: "coherent cs1" "clear_cache cs1 = clear_cache cs"
  let ?old = "digits_of (space_lens cs) p"
  have old: "in_dims (space_lens cs) ?old"
    by (rule in_dims_digits) (rule space_lens_pos[OF assms(1)])
  note eqs = core_determines[OF 1(2)]
  have "yields cs1 (knob2point ?old) (encode (space_lens cs) ?old)"
    using knob2point_yields[of cs1 ?old] eqs 1 assms(1) in_dims_length[OF old] by simp
  then show "yields cs1 (bindS (knob2point ?old) (walk_loop draws ?old ?old)) ?r"
  proof (rule yields_bind)
    fix cs2 assume 2: "coherent cs2" "clear_cache cs2 = clear_cache cs1"
    have core: "clear_cache cs2 = clear_cache cs" using 1 2 by simp
    note eqs2 = core_determines[OF core]
    have done_eq: "walk_done cs2 = walk_done cs"
      by (simp add: walk_done_def fun_eq_iff eqs2)
    show "yields cs2 (walk_loop draws ?old ?old (encode (space_lens cs) ?old)) ?r"
      using walk_loop_yields[of cs2 ?old draws ?old] 2 eqs2 done_eq assms old in_dims_length[OF old]
      by (simp add: walk_draws_def)
  qed
qed

lemma find_SomeD: "find P xs = Some x \<Longrightarrow> P x \<and> x \<in> set xs"
  by (induction xs) (auto split: if_splits)

lemma walk_knobs_in_dims:
  "in_dims (space_lens cs) k \<Longrightarrow> walk_draws cs draws \<Longrightarrow> k' \<in> set (walk_knobs k draws) \<Longrightarrow>
     in_dims (space_lens cs) k'"
proof (induction k draws rule: walk_knobs.induct)
  case (2 k i v draws)
  have "in_dims (space_lens cs) (k[i := v])"
    using "2.prems" by (intro in_dims_update) (auto simp: walk_draws_def)
  with 2 show ?case by (auto simp: walk_draws_def)
qed simp

section \<open>The phase of declarations\<close>

text \<open>
  A template declares its knobs, filters and counters before a tuner asks for indices. The
  states it goes through, from a new space, also where a declaration raises.
\<close>

inductive declared :: "'v config_space \<Rightarrow> bool" where
  start: "declared (config_space_init ct)"
| split: "declared cs \<Longrightarrow> define_split set_list name ax policy kw cs = (cs', r) \<Longrightarrow> declared cs'"
| reorder: "declared cs \<Longrightarrow> define_reorder name axes policy rkw cs = (cs', r) \<Longrightarrow> declared cs'"
| annotate: "declared cs \<Longrightarrow> define_annotate name axes policy anchor cs = (cs', r) \<Longrightarrow> declared cs'"
| knob: "declared cs \<Longrightarrow> define_knob name cands cs = (cs', r) \<Longrightarrow> declared cs'"
| filter: "declared cs \<Longrightarrow> declared (multi_filter f cs)"
| flops: "declared cs \<Longrightarrow> declared (add_flop x cs)"
| error: "declared cs \<Longrightarrow> declared (raise_error msg cs)"

definition cacheless :: "'v config_space \<Rightarrow> bool" where
  "cacheless cs \<longleftrightarrow> c_dims cs = None \<and> c_length cs = None \<and> c_range_length cs = None \<and>
     shared_filter_cache cs = None"

lemma cacheless_coherent: "cacheless cs \<Longrightarrow> coherent cs"
  by (simp add: cacheless_def coherent_def)

lemma cacheless_clear [simp]: "cacheless (clear_cache cs)"
  by (simp add: cacheless_def clear_cache_def)

lemma cacheless_update [simp]:
  "cacheless (cs\<lparr>space_map := sm\<rparr>) = cacheless cs"
  "cacheless (cs\<lparr>entity_map := em\<rparr>) = cacheless cs"
  by (simp_all add: cacheless_def)

text \<open>A step that keeps the caches empty.\<close>

definition keeps :: "('v config_space, 'a) st \<Rightarrow> bool" where
  "keeps m \<longleftrightarrow> (\<forall>cs. cacheless cs \<longrightarrow> cacheless (fst (m cs)))"

lemma keeps_bind: "keeps m \<Longrightarrow> (\<And>x. keeps (f x)) \<Longrightarrow> keeps (bindS m f)"
  by (auto simp: keeps_def bindS_def split: prod.splits sum.splits)

lemma keeps_pure [simp]: "keeps (returnS x)" "keeps (liftS r)" "keeps (getS g)" "keeps (\<lambda>cs. (cs, r))"
  by (simp_all add: keeps_def)

lemma keeps_modify: "(\<And>cs. cacheless cs \<Longrightarrow> cacheless (f cs)) \<Longrightarrow> keeps (modifyS f)"
  by (simp add: keeps_def)

lemma keeps_to_axis: "keeps (to_axis x)"
  by (auto simp: keeps_def to_axis_def cacheless_def split: axis_var.splits prod.splits)

lemma keeps_to_axes: "keeps (to_axes xs)"
  by (induction xs) (auto intro!: keeps_bind keeps_to_axis)

lemma cacheless_detach: "cacheless cs \<Longrightarrow> cacheless (detach name cs)"
  by (auto simp: cacheless_def detach_def split: option.splits ent_ref.splits list.splits)

lemma keeps_add_new_transform: "keeps (add_new_transform fil mk outs name vars)"
  unfolding add_new_transform_def
proof (intro keeps_bind keeps_modify keeps_pure, goal_cases)
  case (2 u new)
  show ?case
    by (auto intro!: keeps_bind keeps_modify keeps_to_axes cacheless_detach)
qed (auto simp: cacheless_def clear_cache_def)

lemma keepsD: "keeps m \<Longrightarrow> m cs = (cs', r) \<Longrightarrow> cacheless cs \<Longrightarrow> cacheless cs'"
  by (force simp: keeps_def)

lemma keeps_define:
  "keeps (define_split set_list name ax policy kw)"
  "keeps (define_reorder name axes policy rkw)"
  "keeps (define_annotate name axes policy anchor)"
  "keeps (define_knob name cands)"
  by (simp_all only: define_split_def define_reorder_def define_annotate_def define_knob_def
      keeps_add_new_transform)

lemma declared_cacheless: "declared cs \<Longrightarrow> cacheless cs"
proof (induction rule: declared.induct)
  case (start ct)
  then show ?case by (simp add: cacheless_def config_space_init_def)
next
  case (split cs set_list name ax policy kw cs' r)
  then show ?case by (auto intro: keepsD[OF keeps_define(1)])
next
  case (reorder cs name axes policy rkw cs' r)
  then show ?case by (auto intro: keepsD[OF keeps_define(2)])
next
  case (annotate cs name axes policy anchor cs' r)
  then show ?case by (auto intro: keepsD[OF keeps_define(3)])
next
  case (knob cs name cands cs' r)
  then show ?case by (auto intro: keepsD[OF keeps_define(4)])
qed (auto simp: multi_filter_def cacheless_def clear_cache_def add_flop_def raise_error_def)

section \<open>The phase of queries\<close>

text \<open>
  A query, whether it returns or raises, keeps the declarations and leaves the caches
  coherent. The predicate composes, so that it holds of every method built from the lengths
  and the filter table.
\<close>

definition safe :: "('v config_space, 'a) st \<Rightarrow> bool" where
  "safe m \<longleftrightarrow> (\<forall>cs. proper cs \<longrightarrow> coherent cs \<longrightarrow>
     coherent (fst (m cs)) \<and> clear_cache (fst (m cs)) = clear_cache cs)"

lemma safeD:
  assumes "safe m" "m cs = (cs', r)" "proper cs" "coherent cs"
  shows "proper cs' \<and> coherent cs' \<and> clear_cache cs' = clear_cache cs"
proof -
  from assms have 1: "coherent cs'" "clear_cache cs' = clear_cache cs" by (force simp: safe_def)+
  with core_determines(5)[OF 1(2)] assms(3) show ?thesis by simp
qed

lemma safeI:
  "(\<And>cs cs' r. proper cs \<Longrightarrow> coherent cs \<Longrightarrow> m cs = (cs', r) \<Longrightarrow>
      coherent cs' \<and> clear_cache cs' = clear_cache cs) \<Longrightarrow> safe m"
  unfolding safe_def by (metis prod.collapse)

lemma safe_pure [simp]: "safe (returnS x)" "safe (liftS r)" "safe (getS g)" "safe (\<lambda>cs. (cs, r))"
  by (simp_all add: safe_def)

lemma safe_bind:
  assumes "safe m" and "\<And>x. safe (f x)"
  shows "safe (bindS m f)"
proof (rule safeI)
  fix cs cs' r
  assume *: "proper cs" "coherent cs" "bindS m f cs = (cs', r)"
  obtain cs1 q where 1: "m cs = (cs1, q)" by fastforce
  note s1 = safeD[OF assms(1) 1 *(1,2)]
  show "coherent cs' \<and> clear_cache cs' = clear_cache cs"
  proof (cases q)
    case (Inl e)
    with 1 * s1 show ?thesis by simp
  next
    case (Inr x)
    with 1 * have "f x cs1 = (cs', r)" by simp
    with s1 safeD[OF assms(2)[of x], of cs1 cs' r] show ?thesis by simp
  qed
qed

lemma safe_yields: "(\<And>cs. proper cs \<Longrightarrow> coherent cs \<Longrightarrow> \<exists>r. yields cs m r) \<Longrightarrow> safe m"
  by (fastforce simp: safe_def yields_def)

lemma safe_range_length: "safe range_length"
  using range_length_yields by (blast intro: safe_yields)

lemma safe_dims: "safe dims"
  using dims_yields by (blast intro: safe_yields)

lemma safe_filter_table: "safe filter_table"
proof (rule safeI)
  fix cs cs' :: "'v config_space" and r
  assume *: "proper cs" "coherent cs" "filter_table cs = (cs', r)"
  show "coherent cs' \<and> clear_cache cs' = clear_cache cs"
  proof (cases "shared_filter cs")
    case (Some f)
    with filter_table_yields[OF *(1,2)] *(3) show ?thesis by (auto simp: yields_def)
  next
    case None
    show ?thesis
    proof (cases "shared_filter_cache cs")
      case (Some t)
      with * show ?thesis by (auto simp: filter_table_def)
    next
      case no_cache: None
      from range_length_yields[OF *(1,2)] obtain cs1 where
        1: "range_length cs = (cs1, Inr (num_points cs))" "coherent cs1" "clear_cache cs1 = clear_cache cs"
        by (auto simp: yields_def)
      have "0 < num_points cs" by (rule num_points_pos[OF *(1)])
      then have "[0..num_points cs - 1] = 0 # [1..num_points cs - 1]" by (simp add: upto_rec1)
      with 1 None no_cache * clear_cache_fields[OF 1(3)] show ?thesis
        by (auto simp: filter_table_def make_shared_filter_cache_def proper_decode)
    qed
  qed
qed

lemmas safe_parts = safe_bind safe_range_length safe_dims safe_filter_table

lemma safe_is_index_valid: "safe (is_index_valid i)"
  unfolding is_index_valid_def by (auto intro!: safe_parts)

lemma safe_subrange_length: "safe (subrange_length a b)"
  unfolding subrange_length_def by (auto intro!: safe_parts)

lemma safe_cs_len: "safe cs_len"
  unfolding cs_len_def by (auto intro!: safe_parts split: option.splits)

lemma safe_end_or_range: "safe (end_or_range en)"
  unfolding end_or_range_def by (auto intro!: safe_parts split: option.splits)

lemma safe_point2knob: "safe (point2knob p)"
  unfolding point2knob_def by (auto intro!: safe_parts)

lemma safe_knob2point: "safe (knob2point ks)"
  unfolding knob2point_def by (auto intro!: safe_parts)

lemmas safe_queries = safe_parts safe_is_index_valid safe_cs_len safe_end_or_range
  safe_point2knob safe_knob2point

lemma safe_cs_get: "safe (cs_get i)"
  unfolding cs_get_def by (auto intro!: safe_queries split: prod.splits)

lemma safe_rand_loop: "safe (rand_index_loop draws excl)"
  by (induction draws) (auto intro!: safe_queries)

lemma safe_get_rand_index: "safe (get_rand_index draws start en excl)"
  unfolding get_rand_index_def by (auto intro!: safe_queries safe_rand_loop)

lemma safe_sample_loop: "safe (sample_loop draws m vis)"
  by (induction draws arbitrary: vis) (auto intro!: safe_queries)

lemma safe_sample_ints: "safe (sample_ints draws m)"
  unfolding sample_ints_def by (auto intro!: safe_queries safe_sample_loop)

lemma safe_walk_loop: "safe (walk_loop draws old knob p)"
  by (induction draws old knob p rule: walk_loop.induct) (auto intro!: safe_queries)

lemma safe_random_walk: "safe (random_walk draws p)"
  unfolding random_walk_def by (auto intro!: safe_queries safe_walk_loop)

lemma next_loop_safe:
  "proper cs \<Longrightarrow> coherent cs \<Longrightarrow> next_index_loop up st en i k cs = (cs', r) \<Longrightarrow>
     coherent cs' \<and> clear_cache cs' = clear_cache cs"
proof (induction up st en i k cs arbitrary: cs' r rule: next_index_loop.induct)
  case (1 up st en i k cs)
  let ?i = "i + (if up then 1 else -1)"
  show ?case
  proof (cases "k = 0 \<or> ?i < st \<or> ?i \<ge> en")
    case True
    with "1.prems" show ?thesis by (auto simp: next_index_loop.simps[of up st en i k cs] Let_def split: if_splits)
  next
    case False
    obtain cs1 q where 2: "is_index_valid ?i cs = (cs1, q)" by fastforce
    note s1 = safeD[OF safe_is_index_valid 2 "1.prems"(1,2)]
    show ?thesis
    proof (cases q)
      case (Inl e)
      with False 2 "1.prems"(3) s1 show ?thesis
        by (auto simp: next_index_loop.simps[of up st en i k cs] Let_def split: if_splits)
    next
      case (Inr b)
      with False 2 "1.prems"(3)
      have "next_index_loop up st en ?i (if b then k - 1 else k) cs1 = (cs', r)"
        by (subst (asm) next_index_loop.simps) (simp add: Let_def)
      with "1.IH"[OF _ refl, of cs1 q b cs' r] False 2 Inr s1 show ?thesis by auto
    qed
  qed
qed

lemma safe_get_next_index: "safe (get_next_index i n start en)"
  unfolding get_next_index_def Let_def
  by (auto intro!: safe_queries safeI[of "next_index_loop up st e i k" for up st e i k]
      simp: next_loop_safe)

end
