(* ===== verification/Config_Correct.thy ===== *)
theory Config_Correct
  imports Config_Walk
begin

text \<open>
  The properties of \<^verbatim>\<open>ConfigSpace\<close> as its users see them: a template declares knobs, then a
  tuner sends queries in any order, some of which raise.
\<close>

datatype query =
    Q_range_length
  | Q_dims
  | Q_is_index_valid int
  | Q_subrange_length int int
  | Q_len
  | Q_get_rand_index "int list" "int option" "int option" "int list"
  | Q_get_next_index int int "int option" "int option"
  | Q_point2knob int
  | Q_knob2point "int list"
  | Q_sample_ints "int list" int
  | Q_random_walk "(nat \<times> int) list" int
  | Q_get int
  | Q_clear_cache

fun run_query :: "query \<Rightarrow> 'v config_space \<Rightarrow> 'v config_space" where
  "run_query Q_range_length cs = fst (range_length cs)"
| "run_query Q_dims cs = fst (dims cs)"
| "run_query (Q_is_index_valid i) cs = fst (is_index_valid i cs)"
| "run_query (Q_subrange_length a b) cs = fst (subrange_length a b cs)"
| "run_query Q_len cs = fst (cs_len cs)"
| "run_query (Q_get_rand_index draws st en excl) cs = fst (get_rand_index draws st en excl cs)"
| "run_query (Q_get_next_index i n st en) cs = fst (get_next_index i n st en cs)"
| "run_query (Q_point2knob p) cs = fst (point2knob p cs)"
| "run_query (Q_knob2point ks) cs = fst (knob2point ks cs)"
| "run_query (Q_sample_ints draws m) cs = fst (sample_ints draws m cs)"
| "run_query (Q_random_walk draws p) cs = fst (random_walk draws p cs)"
| "run_query (Q_get i) cs = fst (cs_get i cs)"
| "run_query Q_clear_cache cs = clear_cache cs"

lemma clear_clear [simp]: "clear_cache (clear_cache cs) = clear_cache cs"
  by (simp add: clear_cache_def)

lemmas safe_all = safe_range_length safe_dims safe_is_index_valid safe_subrange_length safe_cs_len
  safe_get_rand_index safe_get_next_index safe_point2knob safe_knob2point safe_sample_ints
  safe_random_walk safe_cs_get

lemma run_query_safe:
  assumes "proper cs" "coherent cs"
  shows "coherent (run_query q cs) \<and> clear_cache (run_query q cs) = clear_cache cs"
proof -
  have safe: "coherent (fst (m cs)) \<and> clear_cache (fst (m cs)) = clear_cache cs"
    if "safe m" for m :: "('a config_space, 'b) st"
    using that assms by (simp add: safe_def)
  show ?thesis by (cases q) (simp_all add: safe safe_all)
qed

lemma run_queries_safe:
  assumes "proper cs" "coherent cs"
  shows "proper (fold run_query qs cs) \<and> coherent (fold run_query qs cs) \<and>
         clear_cache (fold run_query qs cs) = clear_cache cs"
  using assms
proof (induction qs arbitrary: cs)
  case (Cons q qs)
  note 1 = run_query_safe[OF Cons.prems, of q]
  then have "proper (run_query q cs)" using core_determines(5)[of "run_query q cs" cs] Cons.prems by simp
  with 1 Cons.IH[of "run_query q cs"] show ?case by simp
qed simp

lemma snd_yields: "yields cs m r \<Longrightarrow> snd (m cs) = Inr r"
  by (auto simp: yields_def)

lemma length_valid_in: "length (valid_in cs a b) = card {i. a \<le> i \<and> i < b \<and> valid_at cs i}"
  by (metis distinct_card distinct_valid_in set_valid_in)

text \<open>C1: A template declares a space in which every knob has a candidate and whose size fits
  64 bits; any sequence of queries follows, including ones that raise. Then every further
  answer is the one the declarations determine: \<^verbatim>\<open>len\<close> counts the indices that the shared
  filter admits, \<^verbatim>\<open>is_index_valid\<close> decides them, and \<^verbatim>\<open>get\<close> returns the combination the
  index stands for, or raises \<^verbatim>\<open>IndexError\<close> where there is none.\<close>

theorem config_space_answers_exact:
  assumes "declared cs" "proper cs"
  shows "let cs' = fold run_query qs cs; ok = (\<lambda>i. 0 \<le> i \<and> i < num_points cs \<and> valid_at cs i) in
      snd (cs_len cs') = Inr (int (card {i. ok i})) \<and>
      snd (is_index_valid i cs') =
        (if 0 \<le> i \<and> i < num_points cs then Inr (ok i) else Inl AssertionError) \<and>
      snd (cs_get i cs') =
        (if ok i then Inr \<lparr>ce_index = i, ce_code_hash = code_hash cs,
                           ce_entities = decode (space_map cs) i\<rparr>
         else Inl IndexError)"
proof -
  let ?cs = "fold run_query qs cs"
  have coh: "coherent cs" by (rule cacheless_coherent[OF declared_cacheless[OF assms(1)]])
  note run = run_queries_safe[OF assms(2) coh, of qs]
  then have p: "proper ?cs" "coherent ?cs" and core: "clear_cache ?cs = clear_cache cs" by simp_all
  note eqs = core_determines[OF core] clear_cache_fields[OF core]
  have "snd (is_index_valid i ?cs) = Inl AssertionError" if "i < 0 \<or> num_points cs \<le> i"
    using is_index_valid_out_of_range[OF p, of i] that eqs by auto
  moreover have "snd (cs_get i ?cs) = Inl IndexError"
    if "i < 0 \<or> num_points cs \<le> i \<or> \<not> valid_at cs i"
    using cs_get_invalid[OF p, of i] that eqs by auto
  ultimately show ?thesis
    using snd_yields[OF cs_len_yields[OF p]] is_index_valid_yields[OF p, of i]
      cs_get_yields[OF p, of i] eqs
    by (auto simp: Let_def length_valid_in intro: snd_yields)
qed

text \<open>A space of two knobs with a shared filter, for the concrete inputs below.\<close>

definition demo_space :: "nat config_space" where
  "demo_space = multi_filter (\<lambda>es. map_of es ''x'' \<noteq> Some (OtherOptionEntity 1))
     (fst (define_knob ''y'' [7, 8, 9] (fst (define_knob ''x'' [0, 1] (config_space_init 0)))))"

lemma demo_space_declared: "declared demo_space"
  unfolding demo_space_def
  by (intro declared.filter declared.knob[OF declared.knob[OF declared.start prod.collapse[symmetric]]
        prod.collapse[symmetric]])

lemmas demo_eval = demo_space_def multi_filter_def define_knob_def add_new_transform_def
  config_space_init_def other_option_space_init_def clear_cache_def detach_def bindS_def

lemma demo_fields:
  "space_map demo_space = [(''x'', OtherOptionSpace [OtherOptionEntity 0, OtherOptionEntity 1]),
     (''y'', OtherOptionSpace [OtherOptionEntity 7, OtherOptionEntity 8, OtherOptionEntity 9])]"
  "space_lens demo_space = [2, 3]"
  "num_points demo_space = 6"
  by (simp_all add: demo_eval space_lens_def space_len_def num_points_def space_getitem_def)

lemma demo_proper: "proper demo_space"
  by (simp add: proper_def demo_fields space_len_def)

lemma demo_valid: "valid_at demo_space i \<longleftrightarrow> i mod 2 \<noteq> 1"
proof -
  have filt: "shared_filter demo_space = Some (\<lambda>es. map_of es ''x'' \<noteq> Some (OtherOptionEntity 1))"
    by (simp add: demo_eval space_getitem_def)
  have "i mod 2 = 0 \<or> i mod 2 = 1" by presburger
  then show ?thesis
    unfolding valid_at_def filt by (auto simp: demo_fields space_len_def)
qed

theorem config_space_answers_exact_witness:
  "declared demo_space \<and> proper demo_space \<and>
   snd (cs_get 4 (fold run_query [Q_len, Q_get 1, Q_random_walk [(0, 1)] 0] demo_space)) =
     Inr \<lparr>ce_index = 4, ce_code_hash = code_hash demo_space,
          ce_entities = [(''x'', OtherOptionEntity 0), (''y'', OtherOptionEntity 9)]\<rparr> \<and>
   snd (cs_get 1 (fold run_query [Q_len, Q_get 1, Q_random_walk [(0, 1)] 0] demo_space)) = Inl IndexError"
  using config_space_answers_exact[OF demo_space_declared demo_proper,
      of "[Q_len, Q_get 1, Q_random_walk [(0, 1)] 0]" 4]
    config_space_answers_exact[OF demo_space_declared demo_proper,
      of "[Q_len, Q_get 1, Q_random_walk [(0, 1)] 0]" 1]
  by (simp add: demo_space_declared demo_proper demo_valid demo_fields space_len_def Let_def)

lemma yields_bind_proper:
  assumes "proper cs" "yields cs m x"
    and "\<And>cs'. proper cs' \<Longrightarrow> coherent cs' \<Longrightarrow> space_lens cs' = space_lens cs \<Longrightarrow> yields cs' (f x) y"
  shows "yields cs (bindS m f) y"
  using assms(2)
proof (rule yields_bind)
  fix cs' assume c: "coherent cs'" "clear_cache cs' = clear_cache cs"
  then show "yields cs' (f x) y"
    using assms(1) core_determines(1,5)[OF c(2)] by (intro assms(3)) simp_all
qed

text \<open>C4: \<^verbatim>\<open>point2knob\<close> and \<^verbatim>\<open>knob2point\<close> are inverse to each other: between the points below the
  size of the space and the vectors with a candidate position for each knob.\<close>

theorem point_knob_roundtrip:
  assumes "proper cs" "coherent cs"
  shows "(0 \<le> p \<and> p < num_points cs \<longrightarrow> yields cs (bindS (point2knob p) knob2point) p) \<and>
         (in_dims (space_lens cs) ks \<longrightarrow> yields cs (bindS (knob2point ks) point2knob) ks)"
proof (intro conjI impI)
  assume p: "0 \<le> p \<and> p < num_points cs"
  let ?ks = "digits_of (space_lens cs) p"
  have ks: "in_dims (space_lens cs) ?ks" by (rule in_dims_digits) (rule space_lens_pos[OF assms(1)])
  have "encode (space_lens cs) ?ks = p"
    using p encode_digits[of "space_lens cs" p] space_lens_pos[OF assms(1)] by (simp add: num_points_def)
  then show "yields cs (bindS (point2knob p) knob2point) p"
    using knob2point_yields[of _ ?ks] in_dims_length[OF ks]
    by (intro yields_bind_proper[OF assms(1) point2knob_yields[OF assms]]) force
next
  assume ks: "in_dims (space_lens cs) ks"
  show "yields cs (bindS (knob2point ks) point2knob) ks"
    using digits_encode[OF ks] in_dims_length[OF ks]
      point2knob_yields[of _ "encode (space_lens cs) ks"]
    by (intro yields_bind_proper[OF assms(1) knob2point_yields[OF assms]]) force+
qed

lemma demo_coherent: "coherent demo_space"
  by (rule cacheless_coherent[OF declared_cacheless[OF demo_space_declared]])

theorem point_knob_roundtrip_witness:
  "proper demo_space \<and> coherent demo_space \<and> in_dims (space_lens demo_space) [1, 2] \<and>
   yields demo_space (bindS (point2knob 5) knob2point) 5 \<and>
   yields demo_space (bindS (knob2point [1, 2]) point2knob) [1, 2]"
  using point_knob_roundtrip[OF demo_proper demo_coherent, of 5 "[1, 2]"]
  by (simp add: demo_proper demo_coherent demo_fields in_dims_def)

text \<open>C3: \<^verbatim>\<open>get_next_index(index, n)\<close> returns the n-th valid index above \<^verbatim>\<open>index\<close>, for a negative
  \<^verbatim>\<open>n\<close> the one at that distance below it, and \<^verbatim>\<open>None\<close> where the range has no such index; the
  path with a shared filter and the shortcut without one agree on this.\<close>

theorem get_next_index_nth_valid:
  assumes "proper cs" "coherent cs" "n \<noteq> 0" "-1 \<le> i" "i \<le> num_points cs"
  shows "snd (get_next_index i n None None cs) =
     Inr (kth (if n > 0 then filter (valid_at cs) [i + 1..num_points cs - 1]
               else rev (filter (valid_at cs) [0..i - 1])) (nat \<bar>n\<bar>))"
  using snd_yields[OF get_next_index_yields[OF assms(1-3), of None i "num_points cs" None]] assms
  by (simp add: start_or_0_def next_valid_def valid_in_def)

theorem get_next_index_nth_valid_witness:
  "proper demo_space \<and> coherent demo_space \<and>
   snd (get_next_index 0 2 None None demo_space) = Inr (Some 4) \<and>
   snd (get_next_index 4 (-1) None None demo_space) = Inr (Some 2)"
  using get_next_index_nth_valid[OF demo_proper demo_coherent, of 2 0]
    get_next_index_nth_valid[OF demo_proper demo_coherent, of "-1" 4]
  by (simp add: demo_proper demo_coherent demo_fields demo_valid kth_def upto_rec1)

lemma random_walk_spec:
  assumes "proper cs" "coherent cs" "0 \<le> p" "p < num_points cs" "walk_draws cs draws"
  shows "\<exists>r. yields cs (random_walk draws p) r \<and>
      (\<forall>q. r = Some q \<longrightarrow> 0 \<le> q \<and> q < num_points cs \<and> valid_at cs q \<and> q \<noteq> p) \<and>
      (\<forall>i v rest. draws = (i, v) # rest \<longrightarrow> digits_of (space_lens cs) p ! i \<noteq> v \<longrightarrow>
         valid_at cs (encode (space_lens cs) ((digits_of (space_lens cs) p)[i := v])) \<longrightarrow> r \<noteq> None)"
proof -
  let ?old = "digits_of (space_lens cs) p"
  let ?r = "map_option (encode (space_lens cs)) (find (walk_done cs ?old) (walk_knobs ?old draws))"
  have old: "in_dims (space_lens cs) ?old"
    by (rule in_dims_digits) (rule space_lens_pos[OF assms(1)])
  have enc: "encode (space_lens cs) ?old = p"
    using assms(3,4) encode_digits[of "space_lens cs" p] space_lens_pos[OF assms(1)]
    by (simp add: num_points_def)
  have "0 \<le> q \<and> q < num_points cs \<and> valid_at cs q \<and> q \<noteq> p" if q: "?r = Some q" for q
  proof -
    from q obtain k where k: "find (walk_done cs ?old) (walk_knobs ?old draws) = Some k"
      "q = encode (space_lens cs) k" by auto
    from find_SomeD[OF k(1)] have "walk_done cs ?old k" "in_dims (space_lens cs) k"
      using walk_knobs_in_dims[OF old assms(5)] by auto
    with k(2) encode_bounds[of "space_lens cs" k] digits_encode[of "space_lens cs" k] show ?thesis
      by (auto simp: walk_done_def num_points_def)
  qed
  moreover have "?r \<noteq> None" if "draws = (i, v) # rest" "?old ! i \<noteq> v"
    "valid_at cs (encode (space_lens cs) (?old[i := v]))" for i v rest
  proof -
    have "i < length ?old" using that(1) assms(5) in_dims_length[OF old] by (auto simp: walk_draws_def)
    with that(2) have "?old[i := v] \<noteq> ?old" by (metis nth_list_update_eq)
    with that have "walk_done cs ?old (?old[i := v])" by (simp add: walk_done_def)
    moreover have "?old[i := v] \<in> set (walk_knobs ?old draws)"
      using that(1) by (cases rest) auto
    ultimately show ?thesis by (auto simp: find_None_iff)
  qed
  ultimately show ?thesis using random_walk_yields[OF assms(1,2,5)] by blast
qed

text \<open>The subrange counts add up, also across cache misses: the valid indices of
  \<open>[a, b)\<close> and of \<open>[b, c)\<close> counted one after the other give those of \<open>[a, c)\<close>, and the
  count of the whole range is \<^verbatim>\<open>len\<close>.\<close>

theorem subrange_length_additive:
  assumes "proper cs" "coherent cs" "0 \<le> a" "a \<le> b" "b \<le> c" "c \<le> num_points cs"
  shows "\<exists>m n. yields cs (subrange_length a b) m \<and> yields cs (subrange_length b c) n \<and>
           yields cs (subrange_length a c) (m + n) \<and>
           snd (subrange_length 0 (num_points cs) cs) = snd (cs_len cs)"
proof -
  have "valid_in cs a c = valid_in cs a b @ valid_in cs b c"
    using upto_split1[of a b "c - 1"] assms(4,5)
    by (cases "b = c") (auto simp: valid_in_def)
  moreover have "snd (subrange_length 0 (num_points cs) cs) = snd (cs_len cs)"
    using snd_yields[OF subrange_length_yields[OF assms(1,2), of 0 "num_points cs"]]
      snd_yields[OF cs_len_yields[OF assms(1,2)]] num_points_pos[OF assms(1)] by simp
  ultimately show ?thesis
    using subrange_length_yields[OF assms(1,2), of a b] subrange_length_yields[OF assms(1,2), of b c]
      subrange_length_yields[OF assms(1,2), of a c] assms
    by (intro exI[of _ "int (length (valid_in cs a b))"] exI[of _ "int (length (valid_in cs b c))"]) auto
qed

theorem subrange_length_additive_witness:
  "proper demo_space \<and> coherent demo_space \<and>
   (\<exists>m n. yields demo_space (subrange_length 1 3) m \<and> yields demo_space (subrange_length 3 6) n \<and>
      yields demo_space (subrange_length 1 6) (m + n))"
  using subrange_length_additive[OF demo_proper demo_coherent, of 1 3 6]
  by (auto simp: demo_proper demo_coherent demo_fields)

text \<open>C8: \<^verbatim>\<open>random_walk\<close> never raises on draws that \<^verbatim>\<open>np.random.randint\<close> can give, and a point it
  returns is a valid index of the space, another one than the start; it returns as soon as a
  draw replaces one knob of the start so that the point is valid.\<close>

theorem random_walk_moves_to_valid:
  assumes "proper cs" "coherent cs" "0 \<le> p" "p < num_points cs" "walk_draws cs draws"
  shows "\<exists>r. yields cs (random_walk draws p) r \<and>
      (\<forall>q. r = Some q \<longrightarrow> 0 \<le> q \<and> q < num_points cs \<and> valid_at cs q \<and> q \<noteq> p) \<and>
      (\<forall>i v rest. draws = (i, v) # rest \<longrightarrow> digits_of (space_lens cs) p ! i \<noteq> v \<longrightarrow>
         valid_at cs (encode (space_lens cs) ((digits_of (space_lens cs) p)[i := v])) \<longrightarrow> r \<noteq> None)"
  by (rule random_walk_spec[OF assms])

theorem random_walk_moves_to_valid_witness:
  "proper demo_space \<and> coherent demo_space \<and> walk_draws demo_space [(1, 2)] \<and>
   (\<exists>q. yields demo_space (random_walk [(1, 2)] 0) (Some q) \<and> valid_at demo_space q \<and> q \<noteq> 0)"
  using random_walk_moves_to_valid[OF demo_proper demo_coherent, of 0 "[(1, 2)]"]
  by (auto simp: demo_proper demo_coherent demo_fields walk_draws_def demo_valid)

lemma sample_ints_yields:
  assumes "proper cs" "coherent cs" "0 \<le> m"
    and "m \<le> int (card {i. 0 \<le> i \<and> i < num_points cs \<and> valid_at cs i})"
    and "\<forall>d \<in> set draws. 0 \<le> d \<and> d < num_points cs"
  shows "\<exists>r. yields cs (sample_ints draws m) r \<and>
           (\<forall>xs. r = Some xs \<longrightarrow> fresh_valid cs xs \<and> int (length xs) = m) \<and>
           (r = None \<longrightarrow> int (card {d \<in> set draws. valid_at cs d}) < m)"
proof -
  let ?l = "int (card {i. 0 \<le> i \<and> i < num_points cs \<and> valid_at cs i})"
  have "yields cs cs_len ?l" using cs_len_yields[OF assms(1,2)] by (simp add: length_valid_in)
  then obtain cs1 where 1: "cs_len cs = (cs1, Inr ?l)" "coherent cs1" "clear_cache cs1 = clear_cache cs"
    by (auto simp: yields_def)
  note eqs = core_determines[OF 1(3)]
  have "\<exists>r. yields cs1 (sample_loop draws m []) r \<and>
         (\<forall>xs. r = Some xs \<longrightarrow> fresh_valid cs1 xs \<and> int (length xs) = m) \<and>
         (r = None \<longrightarrow> int (card (set [] \<union> {d \<in> set draws. valid_at cs1 d})) < m)"
    using assms 1 eqs by (intro sample_loop_yields) (auto simp: fresh_valid_def)
  then obtain r where r: "yields cs1 (sample_loop draws m []) r"
    "\<forall>xs. r = Some xs \<longrightarrow> fresh_valid cs1 xs \<and> int (length xs) = m"
    "r = None \<longrightarrow> int (card {d \<in> set draws. valid_at cs d}) < m"
    using eqs by auto
  have "yields cs (sample_ints draws m) r"
    using 1 r(1) assms(4) by (auto simp: yields_def sample_ints_def)
  with r(2,3) eqs show ?thesis by (auto simp: fresh_valid_def)
qed

text \<open>C9: \<^verbatim>\<open>sample_ints(m)\<close> returns m different valid indices, and it fails to return only while
  the draws so far hold fewer than m different valid indices; asking for more than \<^verbatim>\<open>len\<close>
  raises \<^verbatim>\<open>AssertionError\<close> at once.\<close>

theorem sample_ints_distinct_valid:
  assumes "proper cs" "coherent cs" "0 \<le> m"
    and "\<forall>d \<in> set draws. 0 \<le> d \<and> d < num_points cs"
  shows "if m > int (card {i. 0 \<le> i \<and> i < num_points cs \<and> valid_at cs i})
         then snd (sample_ints draws m cs) = Inl AssertionError
         else \<exists>r. snd (sample_ints draws m cs) = Inr r \<and>
           (case r of
              Some xs \<Rightarrow> distinct xs \<and> int (length xs) = m \<and>
                (\<forall>x \<in> set xs. 0 \<le> x \<and> x < num_points cs \<and> valid_at cs x)
            | None \<Rightarrow> int (card {d \<in> set draws. valid_at cs d}) < m)"
proof -
  let ?l = "int (card {i. 0 \<le> i \<and> i < num_points cs \<and> valid_at cs i})"
  obtain cs1 where 1: "cs_len cs = (cs1, Inr ?l)"
    using cs_len_yields[OF assms(1,2)] by (auto simp: yields_def length_valid_in)
  show ?thesis
  proof (cases "m > ?l")
    case True
    with 1 show ?thesis by (simp add: sample_ints_def)
  next
    case False
    then obtain r where r: "yields cs (sample_ints draws m) r"
      "\<forall>xs. r = Some xs \<longrightarrow> fresh_valid cs xs \<and> int (length xs) = m"
      "r = None \<longrightarrow> int (card {d \<in> set draws. valid_at cs d}) < m"
      using sample_ints_yields[OF assms(1-3) _ assms(4)] by auto
    from False snd_yields[OF r(1)] r(2,3) show ?thesis
      by (auto simp: fresh_valid_def split: option.splits)
  qed
qed

theorem sample_ints_distinct_valid_witness:
  "proper demo_space \<and> coherent demo_space \<and>
   snd (sample_ints [1, 4, 4, 2] 7 demo_space) = Inl AssertionError"
proof -
  have "card {i. 0 \<le> i \<and> i < num_points demo_space \<and> valid_at demo_space i} \<le> card {0 :: int..5}"
    by (rule card_mono) (auto simp: demo_fields)
  then have "7 > int (card {i. 0 \<le> i \<and> i < num_points demo_space \<and> valid_at demo_space i})" by simp
  with sample_ints_distinct_valid[OF demo_proper demo_coherent, of 7 "[1, 4, 4, 2]"] show ?thesis
    by (simp add: demo_proper demo_coherent demo_fields)
qed

lemma decode_inj:
  assumes "\<And>sp. sp \<in> snd ` set sm \<Longrightarrow> distinct (space_entities sp) \<and> space_entities sp \<noteq> []"
    and "0 \<le> i" "0 \<le> j" "i < prod_list (map (\<lambda>(n, sp). space_len sp) sm)"
    "j < prod_list (map (\<lambda>(n, sp). space_len sp) sm)" "decode sm i = decode sm j"
  shows "i = j"
  using assms
proof (induction sm arbitrary: i j)
  case (Cons p sm)
  obtain n sp where p: "p = (n, sp)" by (cases p)
  let ?d = "space_len sp" and ?m = "prod_list (map (\<lambda>(n, sp). space_len sp) sm)"
  have d: "0 < ?d" using Cons.prems(1)[of sp] p by (simp add: space_len_def)
  have bound: "t div ?d < ?m" if "t < ?d * ?m" for t
  proof -
    have "?d * (t div ?d) \<le> t" using d by (simp add: minus_mod_eq_mult_div[symmetric])
    with that have "?d * (t div ?d) < ?d * ?m" by linarith
    with d show ?thesis by simp
  qed
  have "nat (i mod ?d) = nat (j mod ?d)"
    using Cons.prems(1)[of sp] Cons.prems(6) p d
    by (auto simp: nth_eq_iff_index_eq space_len_def nat_less_iff)
  then have "i mod ?d = j mod ?d" using d by (simp add: nat_eq_iff)
  moreover have "i div ?d = j div ?d"
    using Cons.prems p d bound
    by (intro Cons.IH) (auto simp: pos_imp_zdiv_nonneg_iff)
  ultimately show ?case by (metis mult_div_mod_eq)
qed simp

text \<open>The numbering has no repetitions: where no knob lists an entity twice, two different
  indices of the space stand for different configurations.\<close>

theorem config_index_injective:
  assumes "proper cs" "coherent cs"
    and "\<forall>sp \<in> snd ` set (space_map cs). distinct (space_entities sp)"
    and "snd (cs_get i cs) = Inr e" "snd (cs_get j cs) = Inr e'" "ce_entities e = ce_entities e'"
  shows "i = j"
proof -
  have ok: "0 \<le> k \<and> k < num_points cs \<and> f = \<lparr>ce_index = k, ce_code_hash = code_hash cs,
      ce_entities = decode (space_map cs) k\<rparr>" if "snd (cs_get k cs) = Inr f" for k f
    using that cs_get_invalid[OF assms(1,2), of k] snd_yields[OF cs_get_yields[OF assms(1,2), of k]]
    by (cases "k < 0 \<or> num_points cs \<le> k \<or> \<not> valid_at cs k") auto
  have ne: "space_entities sp \<noteq> []" if "sp \<in> snd ` set (space_map cs)" for sp
    using that assms(1) by (auto simp: proper_def space_len_def)
  show ?thesis
    using ok[OF assms(4)] ok[OF assms(5)] assms(3,6) ne
    by (intro decode_inj[of "space_map cs"]) (auto simp: num_points_def space_lens_def)
qed

lemma demo_get:
  "valid_at demo_space i \<Longrightarrow> 0 \<le> i \<Longrightarrow> i < 6 \<Longrightarrow>
   snd (cs_get i demo_space) = Inr \<lparr>ce_index = i, ce_code_hash = code_hash demo_space,
     ce_entities = decode (space_map demo_space) i\<rparr>"
  using snd_yields[OF cs_get_yields[OF demo_proper demo_coherent, of i]] by (simp add: demo_fields)

theorem config_index_injective_witness:
  "proper demo_space \<and> coherent demo_space \<and>
   (\<exists>e e'. snd (cs_get 2 demo_space) = Inr e \<and> snd (cs_get 4 demo_space) = Inr e' \<and>
      ce_entities e \<noteq> ce_entities e')"
proof -
  obtain e e' where e: "snd (cs_get 2 demo_space) = Inr e" "snd (cs_get 4 demo_space) = Inr e'"
    using demo_get[of 2] demo_get[of 4] by (simp add: demo_valid)
  have "\<forall>sp \<in> snd ` set (space_map demo_space). distinct (space_entities sp)"
    by (simp add: demo_fields)
  with config_index_injective[OF demo_proper demo_coherent _ e] have "ce_entities e \<noteq> ce_entities e'"
    by force
  with e demo_proper demo_coherent show ?thesis by blast
qed

text \<open>Once \<^verbatim>\<open>range_length\<close> has been read, a knob declared without a filter is not seen: the
  declaration keeps the cached length, so the size of the space is multiplied by the number of
  candidates while \<^verbatim>\<open>range_length\<close> stays, and \<^verbatim>\<open>get\<close> refuses the indices above it.\<close>

theorem late_knob_not_seen:
  assumes "proper cs" "coherent cs" "collect cs" "\<not> is_fallback cs"
    and "name \<notin> fst ` set (space_map cs)" "cands \<noteq> []"
  shows "let cs' = fst (define_knob name cands (fst (range_length cs))) in
      num_points cs' = num_points cs * int (length cands) \<and>
      snd (range_length cs') = Inr (num_points cs) \<and>
      (\<forall>i \<ge> num_points cs. snd (cs_get i cs') = Inl IndexError)"
proof -
  obtain cs1 where 1: "range_length cs = (cs1, Inr (num_points cs))" "coherent cs1"
    "clear_cache cs1 = clear_cache cs"
    using range_length_yields[OF assms(1,2)] by (auto simp: yields_def)
  note eqs = clear_cache_fields[OF 1(3)]
  let ?sp = "OtherOptionSpace (map OtherOptionEntity cands)"
  let ?cs = "fst (define_knob name cands cs1)"
  have r1: "c_range_length cs1 = Some (num_points cs)"
    using 1(1) by (auto simp: range_length_def Let_def split: option.splits)
  have new: "map_of (space_map cs1) name = None"
    using assms(5) eqs(1) by (simp add: map_of_eq_None_iff)
  then have det: "detach name cs1 = cs1" by (auto simp: detach_def split: option.splits ent_ref.splits)
  have first: "space_getitem ?sp 0 = Inr (OtherOptionEntity (hd cands))"
    using assms(6) by (cases cands) (auto simp: space_getitem_def)
  have def': "?cs = cs1\<lparr>space_map := AList.update name ?sp (space_map cs1),
      entity_map := AList.update name FirstOfSpace (entity_map cs1)\<rparr>"
    using assms(3,4) eqs det first
    by (simp add: define_knob_def add_new_transform_def other_option_space_init_def)
  have upd: "AList.update name ?sp (space_map cs1) = space_map cs @ [(name, ?sp)]"
    using assms(5) eqs(1) by (simp add: update_new)
  have n: "num_points ?cs = num_points cs * int (length cands)"
    unfolding def' by (simp add: num_points_def space_lens_def upd space_len_def)
  have r: "range_length ?cs = (?cs, Inr (num_points cs))"
    unfolding def' by (simp add: range_length_def r1)
  then have "snd (cs_get i ?cs) = Inl IndexError" if "num_points cs \<le> i" for i
    using that by (simp add: cs_get_def)
  with n r 1(1) show ?thesis by (simp add: Let_def)
qed

theorem late_knob_not_seen_witness:
  "let cs' = fst (define_knob ''z'' [1, 2, 3, 4] (fst (range_length demo_space))) in
     num_points cs' = 24 \<and> snd (range_length cs') = Inr 6 \<and> snd (cs_get 8 cs') = Inl IndexError"
proof -
  have "collect demo_space" "\<not> is_fallback demo_space" by (simp_all add: demo_eval space_getitem_def)
  then show ?thesis
    using late_knob_not_seen[OF demo_proper demo_coherent, of "''z''" "[1, 2, 3, 4]"]
    by (simp add: demo_fields Let_def)
qed

end
