(* ===== verification/Config_Entity.thy ===== *)
theory Config_Entity
  imports Config_Correct
begin

text \<open>
  \<^verbatim>\<open>ConfigEntity\<close> and \<^verbatim>\<open>FallbackConfigEntity\<close> of \<^verbatim>\<open>python/tvm/autotvm/task/space.py\<close>: the feature
  vector and the JSON form of a configuration, and the two ways to choose a configuration for
  a space that was never tuned. Where a fallback writes the size of a split entity, the entity
  is shared with the space, so the write is seen there too.
\<close>

section \<open>Features\<close>

definition ann_to_number :: "(string, nat) dict" where
  "ann_to_number =
     [(''none'', 0), (''vec'', 1), (''unroll'', 2), (''blockIdx.x'', 3), (''blockIdx.y'', 4),
      (''blockIdx.z'', 5), (''threadIdx.x'', 6), (''threadIdx.y'', 7), (''threadIdx.z'', 8),
      (''vthread'', 9), (''fuse'', 10)]"

text \<open>An element of the list \<^verbatim>\<open>fea\<close>: a number, or the value of an option as it stands.\<close>

datatype 'v fea = FNum rat | FVal 'v

definition one_hot :: "ann \<Rightarrow> 'v fea list py" where
  "one_hot a =
     bindE (case a of AnnName s \<Rightarrow> dict_get ann_to_number s | AnnIndex i \<Rightarrow> Inl KeyError) (\<lambda>k.
       Inr (map FNum ((replicate (length ann_to_number) 0)[k := 1])))"

fun entity_feature :: "'v entity \<Rightarrow> 'v fea list py" where
  "entity_feature (SplitEntity sz) = Inr (map (\<lambda>s. FNum (of_int s)) sz)"
| "entity_feature (ReorderEntity perm) = Inr (map (\<lambda>p. FNum (of_nat p)) perm)"
| "entity_feature (AnnotateEntity anns) = bindE (mapE one_hot anns) (\<lambda>xss. Inr (concat xss))"
| "entity_feature (OtherOptionEntity v) = Inr [FVal v]"

text \<open>
  \<open>float32\<close> is the conversion of \<^verbatim>\<open>np.array(fea, dtype=np.float32)\<close> of one element, which raises
  on a value that is not a number.
\<close>

definition get_flatten_feature :: "('v fea \<Rightarrow> rat py) \<Rightarrow> 'v config_entity \<Rightarrow> rat list py" where
  "get_flatten_feature float32 ce =
     bindE (mapE (\<lambda>(name, e). entity_feature e) (ce_entities ce)) (\<lambda>xss. mapE float32 (concat xss))"

text \<open>The dictionary of \<^verbatim>\<open>get_other_option\<close> is keyed by the entity, not by the knob's name.\<close>

definition get_other_option :: "'v config_entity \<Rightarrow> ('v entity \<times> 'v) list" where
  "get_other_option ce =
     concat (map (\<lambda>(name, e). case e of OtherOptionEntity v \<Rightarrow> [(e, v)] | _ \<Rightarrow> []) (ce_entities ce))"

section \<open>JSON form\<close>

text \<open>
  The arguments of a knob in the JSON form. An argument list whose elements do not fit the
  entity of the tag has no counterpart in \<open>entity\<close>: the model answers \<^verbatim>\<open>TypeError\<close> there.
\<close>

datatype 'v knob_args = JSizes "int list" | JPerm "nat list" | JAnns "ann list" | JVal 'v

record 'v config_json =
  js_index :: int
  js_code_hash :: "string option"
  js_entity :: "(string \<times> string \<times> 'v knob_args) list"

fun entity_to_json :: "'v entity \<Rightarrow> string \<times> 'v knob_args" where
  "entity_to_json (SplitEntity sz) = (''sp'', JSizes sz)"
| "entity_to_json (ReorderEntity perm) = (''re'', JPerm perm)"
| "entity_to_json (AnnotateEntity anns) = (''an'', JAnns anns)"
| "entity_to_json (OtherOptionEntity v) = (''ot'', JVal v)"

definition to_json_dict :: "'v config_entity \<Rightarrow> 'v config_json" where
  "to_json_dict ce =
     \<lparr>js_index = ce_index ce, js_code_hash = ce_code_hash ce,
      js_entity = map (\<lambda>(k, e). (k, entity_to_json e)) (ce_entities ce)\<rparr>"

definition entity_from_json :: "string \<Rightarrow> 'v knob_args \<Rightarrow> 'v entity py" where
  "entity_from_json knob_type args =
     (if knob_type = ''sp'' then (case args of JSizes sz \<Rightarrow> Inr (SplitEntity sz) | _ \<Rightarrow> Inl TypeError)
      else if knob_type = ''re'' then (case args of JPerm p \<Rightarrow> Inr (ReorderEntity p) | _ \<Rightarrow> Inl TypeError)
      else if knob_type = ''an'' then (case args of JAnns a \<Rightarrow> Inr (AnnotateEntity a) | _ \<Rightarrow> Inl TypeError)
      else if knob_type = ''ot'' then (case args of JVal v \<Rightarrow> Inr (OtherOptionEntity v) | _ \<Rightarrow> Inl TypeError)
      else Inl RuntimeError)"

definition from_json_dict :: "'v config_json \<Rightarrow> 'v config_entity py" where
  "from_json_dict js =
     bindE (foldE (\<lambda>(key, knob_type, args) em.
              bindE (entity_from_json knob_type args) (\<lambda>e. Inr (AList.update key e em)))
            (js_entity js) [])
       (\<lambda>em. Inr \<lparr>ce_index = js_index js, ce_code_hash = js_code_hash js, ce_entities = em\<rparr>)"

section \<open>Fallback\<close>

definition fallback_init :: "nat \<Rightarrow> 'v config_space" where
  "fallback_init name_ct = (config_space_init name_ct)\<lparr>is_fallback := True\<rparr>"

text \<open>The position the inner loop of \<^verbatim>\<open>fallback_split\<close> finds: the last factor before the first too large one.\<close>

definition find_factor :: "int list \<Rightarrow> int \<Rightarrow> int" where
  "find_factor factors c = int (length (takeWhile (\<lambda>f. \<not> f > c) factors)) - 1"

text \<open>The loop over \<^verbatim>\<open>reversed(range(space.num_output))\<close>: \<open>Suc i\<close> positions are left.\<close>

fun fallback_loop :: "int list \<Rightarrow> nat \<Rightarrow> int list \<Rightarrow> int \<Rightarrow> int list \<times> unit py" where
  "fallback_loop constraints 0 sz now = (sz, Inr ())"
| "fallback_loop constraints (Suc i) sz now =
     (case get_factors now of
        Inl e \<Rightarrow> (sz, Inl e)
      | Inr factors \<Rightarrow>
          let find = find_factor factors (constraints ! i) in
          if find \<ge> 0 then
            (if i < length sz
             then fallback_loop constraints i (sz[i := factors ! nat find]) (now div (factors ! nat find))
             else (sz, Inl IndexError))
          else (sz, Inl RuntimeError))"

text \<open>Writing the entity of a knob in place: through to the space where it is shared with it.\<close>

definition write_entity :: "string \<Rightarrow> 'v entity \<Rightarrow> 'v config_space \<Rightarrow> 'v config_space" where
  "write_entity name e cs =
     (case (map_of (entity_map cs) name, map_of (space_map cs) name) of
        (Some FirstOfSpace, Some sp) \<Rightarrow>
          cs\<lparr>space_map := AList.update name (space_set_entities ((space_entities sp)[0 := e]) sp) (space_map cs)\<rparr>
      | _ \<Rightarrow> cs\<lparr>entity_map := AList.update name (OwnEntity e) (entity_map cs)\<rparr>)"

definition no_limit :: int where
  "no_limit = 10 ^ 10"

definition fallback_split :: "string \<Rightarrow> int list \<Rightarrow> ('v config_space, unit) st" where
  "fallback_split name constraints cs =
     (case dict_get (space_map cs) name of
        Inr (SplitSpace policy product k es) \<Rightarrow>
          if length constraints \<noteq> k then (cs, Inl AssertionError)
          else (case cs_getitem cs name of
             Inl e \<Rightarrow> (cs, Inl e)
           | Inr (SplitEntity sz) \<Rightarrow>
               let (sz', r) = fallback_loop (map (\<lambda>x. if x \<noteq> -1 then x else no_limit) constraints) k sz product
               in (write_entity name (SplitEntity sz') cs, r)
           | Inr _ \<Rightarrow> if k = 0 then (cs, Inr ()) else
               (case get_factors product of
                  Inl e \<Rightarrow> (cs, Inl e)
                | Inr factors \<Rightarrow>
                    if find_factor factors (if last constraints \<noteq> -1 then last constraints else no_limit) \<ge> 0
                    then (cs, Inl AttributeError) else (cs, Inl RuntimeError)))
      | Inr _ \<Rightarrow> (cs, Inl AssertionError)
      | Inl e \<Rightarrow> (cs, Inl e))"

subsection \<open>Fallback with a reference log\<close>

definition split_knobs :: "'v config_space \<Rightarrow> (string \<times> int) list" where
  "split_knobs cs =
     concat (map (\<lambda>(name, sp). case sp of SplitSpace policy product k es \<Rightarrow> [(name, product)] | _ \<Rightarrow> [])
       (space_map cs))"

definition split_size :: "(string, 'v entity) dict \<Rightarrow> string \<Rightarrow> int list py" where
  "split_size cfg name =
     bindE (dict_get cfg name) (\<lambda>e. case e of SplitEntity sz \<Rightarrow> Inr sz | _ \<Rightarrow> Inl AttributeError)"

definition knob_score :: "int list \<Rightarrow> int list \<Rightarrow> rat py" where
  "knob_score own factors =
     (if own = [] then Inl ZeroDivisionError
      else Inr (of_nat (card (set own \<inter> set factors)) / of_nat (length own)))"

text \<open>
  The loop over the knobs of one log entry: the running score is compared with the best one
  after every knob.
\<close>

fun match_knobs ::
    "(string, 'v entity) dict \<Rightarrow> (string \<times> int list) list \<Rightarrow> rat \<Rightarrow> rat \<times> (string, 'v entity) dict option
     \<Rightarrow> (rat \<times> (string, 'v entity) dict option) py" where
  "match_knobs cfg [] score best = Inr best"
| "match_knobs cfg ((name, own) # knobs) score best =
     bindE (split_size cfg name) (\<lambda>sz.
     bindE (get_factors (np_prod sz)) (\<lambda>factors.
     bindE (knob_score own factors) (\<lambda>d.
       match_knobs cfg knobs (score + d) (if score + d > fst best then (score + d, Some cfg) else best))))"

definition best_match ::
    "(string, 'v entity) dict list \<Rightarrow> (string \<times> int list) list \<Rightarrow> (rat \<times> (string, 'v entity) dict option) py" where
  "best_match ref_log knobs = foldE (\<lambda>cfg best. match_knobs cfg knobs 0 best) ref_log (0, None)"

fun mimic_splits :: "(string, 'v entity) dict \<Rightarrow> string list \<Rightarrow> ('v config_space, unit) st" where
  "mimic_splits cfg [] = returnS ()"
| "mimic_splits cfg (name # names) =
     bindS (liftS (split_size cfg name)) (\<lambda>sz.
     if sz = [] then liftS (Inl IndexError)
     else bindS (fallback_split name (sz[0 := -1])) (\<lambda>_. mimic_splits cfg names))"

definition set_entity :: "string \<Rightarrow> 'v entity \<Rightarrow> 'v config_space \<Rightarrow> 'v config_space" where
  "set_entity name e cs = cs\<lparr>entity_map := AList.update name (OwnEntity e) (entity_map cs)\<rparr>"

fun copy_others :: "(string, 'v entity) dict \<Rightarrow> (string, 'v space) dict \<Rightarrow> ('v config_space, unit) st" where
  "copy_others cfg [] = returnS ()"
| "copy_others cfg ((name, sp) # rest) =
     (case sp of
        SplitSpace policy product k es \<Rightarrow> copy_others cfg rest
      | _ \<Rightarrow> bindS (liftS (dict_get cfg name)) (\<lambda>e.
             bindS (modifyS (set_entity name e)) (\<lambda>_. copy_others cfg rest)))"

definition fallback_with_reference_log ::
    "(string, 'v entity) dict list \<Rightarrow> ('v config_space, unit) st" where
  "fallback_with_reference_log ref_log =
     bindS (getS split_knobs) (\<lambda>knobs.
     bindS (liftS (mapE (\<lambda>(name, product). bindE (get_factors product) (\<lambda>fs. Inr (name, fs))) knobs)) (\<lambda>own.
     bindS (liftS (best_match ref_log own)) (\<lambda>(score, best).
       case best of
         None \<Rightarrow> returnS ()
       | Some cfg \<Rightarrow>
           bindS (mimic_splits cfg (map fst knobs)) (\<lambda>_.
           bindS (getS space_map) (\<lambda>sm. copy_others cfg sm)))))"

end
