(* ===== verification/Config_Entity_Correct.thy ===== *)
theory Config_Entity_Correct
  imports Config_Entity
begin

text \<open>
  Properties of the JSON form, the features and the fallback of a configuration.
\<close>

section \<open>JSON round trip\<close>

lemma entity_json_roundtrip [simp]:
  "entity_from_json (fst (entity_to_json e)) (snd (entity_to_json e)) = Inr e"
  by (cases e) (simp_all add: entity_from_json_def)

lemma foldE_from_json:
  assumes "distinct (map fst acc @ map fst es)"
  shows "foldE (\<lambda>(key, knob_type, args) em.
            bindE (entity_from_json knob_type args) (\<lambda>e. Inr (AList.update key e em)))
          (map (\<lambda>(k, e). (k, entity_to_json e)) es) acc = Inr (acc @ es)"
  using assms
proof (induction es arbitrary: acc)
  case (Cons p es)
  obtain k e where p: "p = (k, e)" by (cases p)
  obtain t a where ta: "entity_to_json e = (t, a)" by (cases "entity_to_json e")
  with entity_json_roundtrip[of e] have "entity_from_json t a = Inr e" by simp
  moreover have "AList.update k e acc = acc @ [(k, e)]"
    using Cons.prems p by (intro update_new) (auto simp: image_iff)
  moreover have "distinct (map fst (acc @ [(k, e)]) @ map fst es)" using Cons.prems p by auto
  ultimately show ?case using Cons.IH[of "acc @ [(k, e)]"] p ta by simp
qed simp

lemma json_roundtrip:
  "distinct (map fst (ce_entities ce)) \<Longrightarrow> from_json_dict (to_json_dict ce) = Inr ce"
  using foldE_from_json[of "[]" "ce_entities ce"] by (simp add: from_json_dict_def to_json_dict_def)

lemma distinct_keys_update:
  "distinct (map fst (AList.update k v d)) = distinct (map fst d)"
  by (auto simp: keys_update_mem)

text \<open>Keys of the knobs stay distinct through the declarations.\<close>

definition keys_ok :: "'v config_space \<Rightarrow> bool" where
  "keys_ok cs \<longleftrightarrow> distinct (map fst (space_map cs))"

definition keeps_keys :: "('v config_space, 'a) st \<Rightarrow> bool" where
  "keeps_keys m \<longleftrightarrow> (\<forall>cs. keys_ok cs \<longrightarrow> keys_ok (fst (m cs)))"

lemma keeps_keys_bind: "keeps_keys m \<Longrightarrow> (\<And>x. keeps_keys (f x)) \<Longrightarrow> keeps_keys (bindS m f)"
  by (auto simp: keeps_keys_def bindS_def split: prod.splits sum.splits)

lemma keeps_keys_pure [simp]:
  "keeps_keys (returnS x)" "keeps_keys (liftS r)" "keeps_keys (getS g)" "keeps_keys (\<lambda>cs. (cs, r))"
  by (simp_all add: keeps_keys_def)

lemma keeps_keys_modify: "(\<And>cs. keys_ok cs \<Longrightarrow> keys_ok (f cs)) \<Longrightarrow> keeps_keys (modifyS f)"
  by (simp add: keeps_keys_def)

lemma keeps_keys_to_axes: "keeps_keys (to_axes xs)"
proof (induction xs)
  case (Cons x xs)
  have "keeps_keys (to_axis x)"
    by (auto simp: keeps_keys_def to_axis_def keys_ok_def split: axis_var.splits prod.splits)
  with Cons show ?case by (auto intro!: keeps_keys_bind)
qed simp

lemma keeps_keys_add: "keeps_keys (add_new_transform fil mk outs name vars)"
  unfolding add_new_transform_def
  by (auto intro!: keeps_keys_bind keeps_keys_modify keeps_keys_to_axes
      simp: keys_ok_def distinct_keys_update clear_cache_def detach_def
      split: option.splits ent_ref.splits list.splits)

lemma declared_keys: "declared cs \<Longrightarrow> keys_ok cs"
proof (induction rule: declared.induct)
  case (start ct)
  then show ?case by (simp add: keys_ok_def config_space_init_def)
next
  case (split cs set_list name ax policy kw cs' r)
  then show ?case using keeps_keys_add by (metis define_split_def fst_conv keeps_keys_def)
next
  case (reorder cs name axes policy rkw cs' r)
  then show ?case using keeps_keys_add by (metis define_reorder_def fst_conv keeps_keys_def)
next
  case (annotate cs name axes policy anchor cs' r)
  then show ?case using keeps_keys_add by (metis define_annotate_def fst_conv keeps_keys_def)
next
  case (knob cs name cands cs' r)
  then show ?case using keeps_keys_add by (metis define_knob_def fst_conv keeps_keys_def)
qed (auto simp: keys_ok_def multi_filter_def clear_cache_def add_flop_def raise_error_def)

lemma keys_decode: "map fst (decode sm t) = map fst sm"
  by (induction sm arbitrary: t) auto

text \<open>C10: A configuration read from a declared space survives its JSON form:
  \<^verbatim>\<open>from_json_dict(to_json_dict(c))\<close> gives back the index, the code hash and every knob, in
  the same order.\<close>

theorem config_json_roundtrip:
  assumes "declared cs" "proper cs" "snd (cs_get i cs) = Inr ce"
  shows "from_json_dict (to_json_dict ce) = Inr ce"
proof -
  have coh: "coherent cs" by (rule cacheless_coherent[OF declared_cacheless[OF assms(1)]])
  have "ce_entities ce = decode (space_map cs) i"
    using assms(3) cs_get_invalid[OF assms(2) coh, of i] snd_yields[OF cs_get_yields[OF assms(2) coh, of i]]
    by (cases "i < 0 \<or> num_points cs \<le> i \<or> \<not> valid_at cs i") auto
  then have "distinct (map fst (ce_entities ce))"
    using declared_keys[OF assms(1)] by (simp add: keys_decode keys_ok_def)
  then show ?thesis by (rule json_roundtrip)
qed

theorem config_json_roundtrip_witness:
  "declared demo_space \<and> proper demo_space \<and>
   (\<exists>ce. snd (cs_get 4 demo_space) = Inr ce \<and> from_json_dict (to_json_dict ce) = Inr ce)"
proof -
  obtain ce where "snd (cs_get 4 demo_space) = Inr ce"
    using demo_get[of 4] by (simp add: demo_valid)
  with config_json_roundtrip[OF demo_space_declared demo_proper this] demo_space_declared demo_proper
  show ?thesis by blast
qed

section \<open>Fallback of one split knob\<close>

text \<open>The largest divisor of \<open>n\<close> not above a bound.\<close>

definition largest_divisor :: "int \<Rightarrow> int \<Rightarrow> int \<Rightarrow> bool" where
  "largest_divisor n c f \<longleftrightarrow>
     0 < f \<and> f dvd n \<and> f \<le> c \<and> (\<forall>d. 0 < d \<longrightarrow> d dvd n \<longrightarrow> d \<le> c \<longrightarrow> d \<le> f)"

lemma sorted_takeWhile_le:
  "sorted fs \<Longrightarrow> takeWhile (\<lambda>f. \<not> f > c) fs = filter (\<lambda>f. f \<le> c) (fs :: int list)"
proof (induction fs)
  case (Cons a fs)
  show ?case
  proof (cases "a \<le> c")
    case False
    with Cons.prems have "filter (\<lambda>f. f \<le> c) fs = []" by (auto simp: filter_empty_conv)
    with False show ?thesis by simp
  qed (use Cons in simp)
qed simp

lemma sorted_last_max: "sorted xs \<Longrightarrow> x \<in> set xs \<Longrightarrow> x \<le> last (xs :: int list)"
  by (induction xs) auto

lemma find_factor_largest:
  assumes "get_factors n = Inr fs" "1 \<le> c"
  shows "find_factor fs c \<ge> 0 \<and> largest_divisor n c (fs ! nat (find_factor fs c))"
proof -
  note g = get_factors_Inr[OF assms(1)]
  let ?t = "filter (\<lambda>f. f \<le> c) fs"
  have tw: "takeWhile (\<lambda>f. \<not> f > c) fs = ?t" by (rule sorted_takeWhile_le[OF g(3)])
  have "1 \<in> set ?t" using g(2) assms(2) by (simp add: divisors_def)
  then have ne: "?t \<noteq> []" by (metis empty_iff list.set(1))
  have idx: "nat (find_factor fs c) = length ?t - 1" and ge: "find_factor fs c \<ge> 0"
    using ne by (simp_all add: find_factor_def tw nat_diff_distrib flip: length_greater_0_conv)
  have "?t ! (length ?t - 1) = fs ! (length ?t - 1)"
    using ne tw by (metis diff_less length_greater_0_conv takeWhile_nth zero_less_one)
  then have last: "fs ! nat (find_factor fs c) = last ?t"
    using ne idx by (simp add: last_conv_nth)
  have "last ?t \<in> set ?t" using ne by (rule last_in_set)
  moreover have "d \<le> last ?t" if "0 < d" "d dvd n" "d \<le> c" for d
    using that g(2,3) by (intro sorted_last_max) (auto simp: divisors_def sorted_wrt_filter)
  ultimately show ?thesis
    using ge last g(2) by (auto simp: largest_divisor_def divisors_def)
qed

lemma div_mult_swap: "f dvd n \<Longrightarrow> (n :: int) div (p * f) = n div f div p"
proof (cases "f = 0")
  case False
  assume "f dvd n"
  then obtain k where "n = f * k" by auto
  with False show ?thesis by (simp add: mult.commute[of p])
qed simp

lemma fallback_loop_correct:
  assumes "0 < now" "k \<le> length sz" "\<And>i. i < k \<Longrightarrow> 1 \<le> c ! i"
  shows "\<exists>sz'. fallback_loop c k sz now = (sz', Inr ()) \<and> length sz' = length sz \<and>
           drop k sz' = drop k sz \<and>
           (\<forall>i<k. largest_divisor (now div prod_list (drop (Suc i) (take k sz'))) (c ! i) (sz' ! i)) \<and>
           (0 < k \<longrightarrow> now \<le> c ! 0 \<longrightarrow> prod_list (take k sz') = now)"
  using assms
proof (induction k arbitrary: sz now)
  case (Suc i)
  obtain fs where fs: "get_factors now = Inr fs" using get_factors_pos[OF Suc.prems(1)] by auto
  let ?f = "fs ! nat (find_factor fs (c ! i))"
  have "1 \<le> c ! i" using Suc.prems(3) by simp
  note ff = find_factor_largest[OF fs this]
  then have f: "0 < ?f" "?f dvd now" by (auto simp: largest_divisor_def)
  have now1: "0 < now div ?f" using f Suc.prems(1) by (simp add: pos_imp_zdiv_pos_iff zdvd_imp_le)
  have "\<exists>sz'. fallback_loop c i (sz[i := ?f]) (now div ?f) = (sz', Inr ()) \<and>
     length sz' = length (sz[i := ?f]) \<and> drop i sz' = drop i (sz[i := ?f]) \<and>
     (\<forall>j<i. largest_divisor (now div ?f div prod_list (drop (Suc j) (take i sz'))) (c ! j) (sz' ! j)) \<and>
     (0 < i \<longrightarrow> now div ?f \<le> c ! 0 \<longrightarrow> prod_list (take i sz') = now div ?f)"
    using Suc.prems now1 by (intro Suc.IH) auto
  then obtain sz' where sz': "fallback_loop c i (sz[i := ?f]) (now div ?f) = (sz', Inr ())"
    "length sz' = length sz" "drop i sz' = drop i (sz[i := ?f])"
    "\<forall>j<i. largest_divisor (now div ?f div prod_list (drop (Suc j) (take i sz'))) (c ! j) (sz' ! j)"
    "0 < i \<longrightarrow> now div ?f \<le> c ! 0 \<longrightarrow> prod_list (take i sz') = now div ?f" by auto
  have len: "i < length sz'" using Suc.prems(2) sz'(2) by simp
  have at_i: "sz' ! i = ?f"
    using arg_cong[OF sz'(3), of "\<lambda>xs. xs ! 0"] len sz'(2) by simp
  have tk: "take (Suc i) sz' = take i sz' @ [?f]" using len at_i by (simp add: take_Suc_conv_app_nth)
  have dr: "drop (Suc i) sz' = drop (Suc i) sz"
    using arg_cong[OF sz'(3), of "drop 1"] by (simp add: drop_drop)
  have step: "fallback_loop c (Suc i) sz now = (sz', Inr ())"
    using fs ff Suc.prems(2) sz'(1) by (simp add: Let_def)
  have greedy: "largest_divisor (now div prod_list (drop (Suc j) (take (Suc i) sz'))) (c ! j) (sz' ! j)"
    if "j < Suc i" for j
  proof (cases "j = i")
    case True
    with tk len ff at_i show ?thesis by simp
  next
    case False
    with that len have "drop (Suc j) (take (Suc i) sz') = drop (Suc j) (take i sz') @ [?f]" by (simp add: tk)
    with div_mult_swap[OF f(2)] sz'(4) False that show ?thesis by simp
  qed
  have exact: "prod_list (take (Suc i) sz') = now" if "now \<le> c ! 0"
  proof (cases "i = 0")
    case True
    with that ff f Suc.prems(1) have "?f = now"
      by (auto simp: largest_divisor_def intro: antisym zdvd_imp_le)
    with True tk show ?thesis by simp
  next
    case False
    have "now div ?f * 1 \<le> now div ?f * ?f" using f(1) now1 by (intro mult_left_mono) auto
    then have "now div ?f \<le> now" using f(2) by simp
    with that False sz'(5) f(2) show ?thesis by (simp add: tk)
  qed
  from step sz'(2) dr greedy exact show ?case by blast
qed simp

text \<open>C11: \<^verbatim>\<open>fallback_split\<close> with a free outermost dimension always succeeds on a split knob of a
  positive length up to 10^10. From the innermost dimension outwards each size is the largest
  divisor of what is left that respects its constraint, and the sizes multiply to the length.
  The entity it writes is the one stored in the space, so entry 0 of the space is overwritten.\<close>

theorem fallback_split_greedy:
  assumes "map_of (space_map cs) name = Some (SplitSpace policy product k (SplitEntity sz # es))"
    and "map_of (entity_map cs) name = Some FirstOfSpace"
    and "length sz = k" "length c = k" "0 < k" "0 < product" "product \<le> 10 ^ 10"
    and "c ! 0 = -1" "\<forall>i<k. c ! i = -1 \<or> 1 \<le> c ! i"
  shows "\<exists>cs' sizes. fallback_split name c cs = (cs', Inr ()) \<and>
      cs_getitem cs' name = Inr (SplitEntity sizes) \<and>
      length sizes = k \<and> prod_list sizes = product \<and>
      (\<forall>i<k. largest_divisor (product div prod_list (drop (Suc i) sizes))
               (if c ! i = -1 then 10 ^ 10 else c ! i) (sizes ! i)) \<and>
      map_of (space_map cs') name = Some (SplitSpace policy product k (SplitEntity sizes # es))"
proof -
  let ?c = "map (\<lambda>x. if x \<noteq> -1 then x else no_limit) c"
  have c: "?c ! i = (if c ! i = -1 then 10 ^ 10 else c ! i)" if "i < k" for i
    using that assms(4) by (simp add: no_limit_def)
  have "1 \<le> ?c ! i" if "i < k" for i
    using c[OF that] assms(9) that by auto
  then obtain sizes where s: "fallback_loop ?c k sz product = (sizes, Inr ())" "length sizes = k"
    "\<forall>i<k. largest_divisor (product div prod_list (drop (Suc i) (take k sizes))) (?c ! i) (sizes ! i)"
    "product \<le> ?c ! 0 \<longrightarrow> prod_list (take k sizes) = product"
    using fallback_loop_correct[of product k sz ?c] assms(3,5,6) by auto
  let ?sp = "SplitSpace policy product k (SplitEntity sizes # es)"
  let ?cs = "cs\<lparr>space_map := AList.update name ?sp (space_map cs)\<rparr>"
  have get: "cs_getitem cs name = Inr (SplitEntity sz)"
    using assms(1,2) by (simp add: cs_getitem_def resolve_def dict_get_def space_getitem_def)
  have w: "write_entity name (SplitEntity sizes) cs = ?cs"
    using assms(1,2) by (simp add: write_entity_def)
  have m: "map_of (space_map ?cs) name = Some ?sp" by (simp add: update_conv)
  have "fallback_split name c cs = (?cs, Inr ())"
    using assms(1,4) get s(1) w by (simp add: fallback_split_def dict_get_def)
  moreover have "cs_getitem ?cs name = Inr (SplitEntity sizes)"
    using m assms(2) by (simp add: cs_getitem_def resolve_def dict_get_def space_getitem_def)
  moreover have "prod_list sizes = product"
    using s(2,4) c[OF assms(5)] assms(7,8) by simp
  moreover have "\<forall>i<k. largest_divisor (product div prod_list (drop (Suc i) sizes))
      (if c ! i = -1 then 10 ^ 10 else c ! i) (sizes ! i)"
    using s(2,3) c by simp
  ultimately show ?thesis using s(2) m by blast
qed

definition demo_fallback :: "nat config_space" where
  "demo_fallback = (fallback_init 0)\<lparr>
     space_map := [(''tile_0'', SplitSpace ''factors'' 128 3 [SplitEntity [-1, 1, 1], SplitEntity [-1, 2, 1]])],
     entity_map := [(''tile_0'', FirstOfSpace)]\<rparr>"

theorem fallback_split_greedy_witness:
  "\<exists>cs' sizes. fallback_split ''tile_0'' [-1, 8, 4] demo_fallback = (cs', Inr ()) \<and>
     cs_getitem cs' ''tile_0'' = Inr (SplitEntity sizes) \<and> prod_list sizes = 128 \<and>
     largest_divisor 128 4 (sizes ! 2)"
proof -
  have "\<exists>cs' sizes. fallback_split ''tile_0'' [-1, 8, 4] demo_fallback = (cs', Inr ()) \<and>
      cs_getitem cs' ''tile_0'' = Inr (SplitEntity sizes) \<and>
      length sizes = 3 \<and> prod_list sizes = 128 \<and>
      (\<forall>i<3. largest_divisor (128 div prod_list (drop (Suc i) sizes))
               (if [-1, 8, 4] ! i = (-1 :: int) then 10 ^ 10 else [-1, 8, 4] ! i) (sizes ! i)) \<and>
      map_of (space_map cs') ''tile_0'' =
        Some (SplitSpace ''factors'' 128 3 (SplitEntity sizes # [SplitEntity [-1, 2, 1]]))"
    by (rule fallback_split_greedy[of _ _ _ _ _ "[-1, 1, 1]"])
       (auto simp: demo_fallback_def less_Suc_eq numeral_3_eq_3)
  then obtain cs' sizes where s: "fallback_split ''tile_0'' [-1, 8, 4] demo_fallback = (cs', Inr ())"
      "cs_getitem cs' ''tile_0'' = Inr (SplitEntity sizes)" "length sizes = 3" "prod_list sizes = 128"
      "\<forall>i<3. largest_divisor (128 div prod_list (drop (Suc i) sizes))
               (if [-1, 8, 4] ! i = (-1 :: int) then 10 ^ 10 else [-1, 8, 4] ! i) (sizes ! i)"
    by blast
  from s(5)[rule_format, of 2] s(3) have "largest_divisor 128 4 (sizes ! 2)" by simp
  with s show ?thesis by blast
qed

section \<open>The reference log\<close>

text \<open>The score of a log entry, summed over all split knobs.\<close>

fun total_score :: "(string \<times> int list) list \<Rightarrow> (string, 'v entity) dict \<Rightarrow> rat py" where
  "total_score [] cfg = Inr 0"
| "total_score ((name, own) # knobs) cfg =
     bindE (split_size cfg name) (\<lambda>sz.
     bindE (get_factors (np_prod sz)) (\<lambda>factors.
     bindE (knob_score own factors) (\<lambda>d.
     bindE (total_score knobs cfg) (\<lambda>t. Inr (d + t)))))"

lemma knob_score_nonneg: "knob_score own fs = Inr d \<Longrightarrow> 0 \<le> d"
  by (auto simp: knob_score_def split: if_splits)

lemma total_score_nonneg: "total_score knobs cfg = Inr t \<Longrightarrow> 0 \<le> t"
  by (induction knobs arbitrary: t) (auto intro: add_nonneg_nonneg dest!: knob_score_nonneg)

lemma match_knobs_total:
  "total_score knobs cfg = Inr t \<Longrightarrow> score \<le> fst best \<Longrightarrow>
   match_knobs cfg knobs score best = Inr (if score + t > fst best then (score + t, Some cfg) else best)"
proof (induction knobs arbitrary: score best t)
  case (Cons p knobs)
  obtain name own where p: "p = (name, own)" by (cases p)
  with Cons.prems(1) obtain sz fs d t' where
    1: "split_size cfg name = Inr sz" "get_factors (np_prod sz) = Inr fs" "knob_score own fs = Inr d"
       "total_score knobs cfg = Inr t'" "t = d + t'"
    by auto
  have nonneg: "0 \<le> d" "0 \<le> t'" using knob_score_nonneg[OF 1(3)] total_score_nonneg[OF 1(4)] by simp_all
  let ?best = "if score + d > fst best then (score + d, Some cfg) else best"
  have "match_knobs cfg knobs (score + d) ?best =
      Inr (if score + d + t' > fst ?best then (score + d + t', Some cfg) else ?best)"
    by (rule Cons.IH[OF 1(4)]) auto
  with 1 p nonneg show ?case by (auto simp: add.assoc)
qed simp

definition first_best ::
    "(string \<times> int list) list \<Rightarrow> (string, 'v entity) dict list \<Rightarrow> rat \<Rightarrow> (string, 'v entity) dict option \<Rightarrow> bool" where
  "first_best knobs rlog m b \<longleftrightarrow>
     (case b of
        None \<Rightarrow> m = 0 \<and> (\<forall>c \<in> set rlog. total_score knobs c = Inr 0)
      | Some c \<Rightarrow> 0 < m \<and> (\<exists>xs ys. rlog = xs @ c # ys \<and> total_score knobs c = Inr m \<and>
            (\<forall>x \<in> set xs. \<exists>t < m. total_score knobs x = Inr t) \<and>
            (\<forall>y \<in> set ys. \<exists>t \<le> m. total_score knobs y = Inr t)))"

lemma first_best_step:
  assumes "first_best knobs rlog m b" "total_score knobs c = Inr t"
  shows "first_best knobs (rlog @ [c]) (if t > m then t else m) (if t > m then Some c else b)"
proof -
  have all: "\<exists>u \<le> m. total_score knobs x = Inr u" if "x \<in> set rlog" for x
    using assms(1) that by (fastforce simp: first_best_def split: option.splits intro: less_imp_le)
  have m0: "0 \<le> m" using assms(1) by (auto simp: first_best_def split: option.splits)
  show ?thesis
  proof (cases "t > m")
    case True
    have "\<forall>x \<in> set rlog. \<exists>u < t. total_score knobs x = Inr u"
      using all True by (meson le_less_trans)
    moreover have "rlog @ [c] = rlog @ c # []" by simp
    ultimately show ?thesis
      using True m0 assms(2) unfolding first_best_def
      by (simp only: option.case if_True) (metis empty_iff le_less_trans list.set(1))
  next
    case False
    show ?thesis
    proof (cases b)
      case None
      with False assms total_score_nonneg[OF assms(2)] show ?thesis by (auto simp: first_best_def)
    next
      case (Some d)
      with assms(1) obtain xs ys where d: "0 < m" "rlog = xs @ d # ys" "total_score knobs d = Inr m"
        "\<forall>x \<in> set xs. \<exists>t < m. total_score knobs x = Inr t"
        "\<forall>y \<in> set ys. \<exists>t \<le> m. total_score knobs y = Inr t" by (auto simp: first_best_def)
      then have "rlog @ [c] = xs @ d # (ys @ [c])" "\<forall>y \<in> set (ys @ [c]). \<exists>t \<le> m. total_score knobs y = Inr t"
        using False assms(2) by auto
      with False Some d(1,3,4) show ?thesis
        unfolding first_best_def by (simp only: option.case if_False) blast
    qed
  qed
qed

lemma best_match_loop:
  assumes "\<forall>c \<in> set rlog. \<exists>t. total_score knobs c = Inr t" "first_best knobs pre m b"
  shows "\<exists>m' b'. foldE (\<lambda>cfg best. match_knobs cfg knobs 0 best) rlog (m, b) = Inr (m', b') \<and>
           first_best knobs (pre @ rlog) m' b'"
  using assms
proof (induction rlog arbitrary: pre m b)
  case (Cons c rlog)
  then obtain t where t: "total_score knobs c = Inr t" by auto
  have m0: "0 \<le> m" using Cons.prems(2) by (auto simp: first_best_def split: option.splits)
  let ?m = "if t > m then t else m" and ?b = "if t > m then Some c else b"
  have step: "match_knobs c knobs 0 (m, b) = Inr (?m, ?b)"
    using match_knobs_total[OF t, of 0 "(m, b)"] m0 by simp
  from first_best_step[OF Cons.prems(2) t] Cons.IH[of "pre @ [c]" ?m ?b] Cons.prems(1) step
  show ?case by (simp only: foldE.simps bindE_Inr append_assoc append.simps set_simps ball_simps) blast
qed simp

text \<open>C12: The search in the reference log compares a partial score after every knob; it still
  selects the first entry whose total score is maximal, and nothing when no entry shares a
  factor with the space.\<close>

theorem best_match_first_maximum:
  assumes "\<forall>c \<in> set rlog. \<exists>t. total_score knobs c = Inr t"
  shows "\<exists>m b. best_match rlog knobs = Inr (m, b) \<and> first_best knobs rlog m b"
  using best_match_loop[OF assms, of "[]" 0 None] by (simp add: best_match_def first_best_def)

lemma get_factors_small: "get_factors 4 = Inr [1, 2, 4]" "get_factors 6 = Inr [1, 2, 3, 6]"
  by code_simp+

theorem best_match_first_maximum_witness:
  "\<exists>m b. best_match [[(''t'', SplitEntity [2, 3] :: nat entity)], [(''t'', SplitEntity [2, 2])]]
      [(''t'', [1, 2, 4])] = Inr (m, b) \<and>
    first_best [(''t'', [1, 2, 4])] [[(''t'', SplitEntity [2, 3])], [(''t'', SplitEntity [2, 2])]] m b"
  by (rule best_match_first_maximum)
     (simp add: split_size_def dict_get_def knob_score_def get_factors_small,
      rule exI[of _ "2 / 3"], simp)

text \<open>A reference entry whose outermost size is -1, the form in which generated split knobs are
  written, makes \<^verbatim>\<open>fallback_with_reference_log\<close> raise \<^verbatim>\<open>ValueError\<close> and change nothing: the product
  of the sizes is negative and has no square root.\<close>

theorem reference_log_open_size_raises:
  assumes "split_knobs cs = (name, product) # knobs" "\<forall>(n, p) \<in> set (split_knobs cs). 0 < p"
    and "map_of cfg name = Some (SplitEntity (-1 # stk))" "\<forall>x \<in> set stk. 0 < x" "prod_list stk < 2 ^ 63"
  shows "fallback_with_reference_log (cfg # rlog) cs = (cs, Inl ValueError)"
proof -
  have "\<exists>own. mapE (\<lambda>(name, product). bindE (get_factors product) (\<lambda>fs. Inr (name, fs))) ks = Inr own \<and>
      map fst own = map fst ks" if "\<forall>(n, p) \<in> set ks. 0 < p" for ks
    using that
  proof (induction ks)
    case (Cons k ks)
    moreover from Cons.prems obtain fs where "get_factors (snd k) = Inr fs"
      using get_factors_pos[of "snd k"] by (cases k) auto
    ultimately show ?case by (cases k) auto
  qed simp
  from this[OF assms(2)] obtain own where own:
    "mapE (\<lambda>(name, product). bindE (get_factors product) (\<lambda>fs. Inr (name, fs))) (split_knobs cs) = Inr own"
    "map fst own = map fst (split_knobs cs)" by blast
  then obtain fs own' where o: "own = (name, fs) # own'" using assms(1) by (cases own) auto
  have pos: "0 < prod_list stk" using assms(4) by (intro prod_list_pos) auto
  then have "np_prod (-1 # stk) = - prod_list stk"
    using assms(5) by (simp add: np_prod_def wrap64_id)
  with pos have "get_factors (np_prod (-1 # stk)) = Inl ValueError" by (simp add: get_factors_error)
  with o assms(3) have "best_match (cfg # rlog) own = Inl ValueError"
    by (simp add: best_match_def split_size_def dict_get_def)
  with own show ?thesis by (simp add: fallback_with_reference_log_def)
qed

theorem reference_log_open_size_raises_witness:
  "fallback_with_reference_log [[(''tile_0'', SplitEntity [-1, 8, 4])]] demo_fallback
     = (demo_fallback, Inl ValueError)"
  by (rule reference_log_open_size_raises[of _ "''tile_0''" 128 "[]" _ "[8, 4]"])
     (simp_all add: demo_fallback_def split_knobs_def)

section \<open>Features\<close>

lemma mapE_first_error:
  "(\<And>x e. x \<in> set xs \<Longrightarrow> f x = Inl e \<Longrightarrow> e = err) \<Longrightarrow> x \<in> set xs \<Longrightarrow> f x = Inl err \<Longrightarrow> mapE f xs = Inl err"
proof (induction xs)
  case (Cons y ys)
  show ?case
  proof (cases "f y")
    case (Inl e)
    with Cons.prems(1)[of y e] show ?thesis by simp
  next
    case (Inr v)
    then have "x \<in> set ys" using Cons.prems(2,3) by auto
    moreover have "e = err" if "z \<in> set ys" "f z = Inl e" for z e
      using Cons.prems(1)[of z e] that by (simp only: list.set insert_iff simp_thms)
    ultimately have "mapE f ys = Inl err" using Cons.prems(3) by (intro Cons.IH) blast
    with Inr show ?thesis by simp
  qed
qed simp

lemma one_hot_error: "one_hot a = Inl e \<Longrightarrow> e = KeyError"
proof (cases a)
  case (AnnName s)
  assume "one_hot a = Inl e"
  with AnnName show ?thesis
    by (cases "map_of ann_to_number s") (simp_all add: one_hot_def dict_get_def)
qed (simp add: one_hot_def)

lemma entity_feature_error: "entity_feature e = Inl err \<Longrightarrow> err = KeyError"
proof (cases e)
  case (AnnotateEntity anns)
  assume "entity_feature e = Inl err"
  with AnnotateEntity have "mapE one_hot anns = (Inl err :: 'a fea list list py)"
    by (auto simp: bindE_eq_Inl_iff)
  then show ?thesis by (induction anns) (auto simp: bindE_eq_Inl_iff dest: one_hot_error)
qed auto

text \<open>A configuration with a \<^verbatim>\<open>locate_cache\<close> knob has no feature vector: its annotations are axis
  positions, which \<^verbatim>\<open>_ann_to_number\<close> does not list, so \<^verbatim>\<open>get_flatten_feature\<close> raises \<^verbatim>\<open>KeyError\<close>.\<close>

theorem locate_cache_has_no_features:
  assumes "annotate_space_init axes ''locate_cache'' (Some (Suc k)) = Inr sp" "e \<in> set (space_entities sp)"
    and "(name, e) \<in> set (ce_entities ce)"
  shows "get_flatten_feature float32 ce = Inl KeyError"
proof -
  have len: "length x = Suc k" if "x \<in> set (combinations xs (Suc k))" for x and xs :: "nat list"
    using that
  proof (induction xs "Suc k" arbitrary: k x rule: combinations.induct)
    case (3 y ys j)
    then show ?case by (cases j) auto
  qed auto
  from assms(1,2) obtain x where x: "x \<in> set (combinations [0..<length axes] (Suc k))"
    "e = AnnotateEntity (map AnnIndex x)"
    by (auto simp: annotate_space_init_def Let_def)
  with len[OF x(1)] obtain i js where "e = AnnotateEntity (AnnIndex i # map AnnIndex js)"
    by (cases x) auto
  then have "entity_feature e = Inl KeyError" by (simp add: one_hot_def)
  with assms(3) have "mapE (\<lambda>(name, e). entity_feature e) (ce_entities ce) = Inl KeyError"
    by (intro mapE_first_error[where x = "(name, e)"]) (auto dest: entity_feature_error)
  then show ?thesis by (simp add: get_flatten_feature_def)
qed

theorem locate_cache_has_no_features_witness:
  "get_flatten_feature (\<lambda>x. Inr 0)
     \<lparr>ce_index = 0, ce_code_hash = None,
      ce_entities = [(''o'', OtherOptionEntity (1 :: nat)), (''c'', AnnotateEntity [AnnIndex 0])]\<rparr> = Inl KeyError"
  by (rule locate_cache_has_no_features[of "[(), ()]" 0
        "AnnotateSpace ''locate_cache'' 2 [AnnotateEntity [AnnIndex 0], AnnotateEntity [AnnIndex 1]]"
        "AnnotateEntity [AnnIndex 0]" "''c''"])
     (simp_all add: annotate_space_init_def upt_rec)

end
