(* ===== verification/Heapq.thy ===== *)
theory Heapq
  imports Prelude
begin

text \<open>
  The functions of Python's \<^verbatim>\<open>heapq\<close> that the tracker and the simulated annealing optimizer call,
  on lists, as the standard library defines them: \<^verbatim>\<open>_siftdown\<close> moves an item towards the root,
  \<^verbatim>\<open>_siftup\<close> moves the smaller children up along a path to a leaf and then calls \<^verbatim>\<open>_siftdown\<close>.
  Items are compared by \<open>key\<close>. The layout of the list is kept, because a client may look at it.
\<close>

section \<open>The functions\<close>

definition parent :: "nat \<Rightarrow> nat" where
  "parent i = (i - 1) div 2"

lemma parent_less [simp]: "0 < i \<Longrightarrow> parent i < i"
  by (auto simp: parent_def)

lemma parent_child [simp]: "parent (2 * p + 1) = p" "parent (2 * p + 2) = p" "parent (Suc (2 * p)) = p"
  "parent (Suc (Suc (2 * p))) = p"
  by (simp_all add: parent_def)

lemma parent_cases: "0 < i \<Longrightarrow> parent i = p \<Longrightarrow> i = 2 * p + 1 \<or> i = 2 * p + 2"
  unfolding parent_def by presburger

function siftdown :: "('a \<Rightarrow> 'k::linorder) \<Rightarrow> 'a \<Rightarrow> nat \<Rightarrow> nat \<Rightarrow> 'a list \<Rightarrow> 'a list" where
  "siftdown key newitem startpos pos heap =
     (if pos > startpos \<and> key newitem < key (heap ! parent pos)
      then siftdown key newitem startpos (parent pos) (heap[pos := heap ! parent pos])
      else heap[pos := newitem])"
  by pat_completeness auto
termination
  by (relation "measure (\<lambda>(key, newitem, startpos, pos, heap). pos)") auto

definition smaller_child :: "('a \<Rightarrow> 'k::linorder) \<Rightarrow> nat \<Rightarrow> 'a list \<Rightarrow> nat" where
  "smaller_child key pos heap =
     (let c = 2 * pos + 1 in
      if c + 1 < length heap \<and> \<not> key (heap ! c) < key (heap ! (c + 1)) then c + 1 else c)"

function sift_path :: "('a \<Rightarrow> 'k::linorder) \<Rightarrow> nat \<Rightarrow> 'a list \<Rightarrow> nat \<times> 'a list" where
  "sift_path key pos heap =
     (if 2 * pos + 1 < length heap
      then let c = smaller_child key pos heap in sift_path key c (heap[pos := heap ! c])
      else (pos, heap))"
  by pat_completeness auto
termination
  by (relation "measure (\<lambda>(key, pos, heap). length heap - pos)") (auto simp: smaller_child_def Let_def)

declare siftdown.simps [simp del] sift_path.simps [simp del]

definition siftup :: "('a \<Rightarrow> 'k::linorder) \<Rightarrow> nat \<Rightarrow> 'a list \<Rightarrow> 'a list" where
  "siftup key pos heap =
     (let newitem = heap ! pos; (p, heap') = sift_path key pos heap
      in siftdown key newitem pos p heap')"

definition heappush :: "('a \<Rightarrow> 'k::linorder) \<Rightarrow> 'a \<Rightarrow> 'a list \<Rightarrow> 'a list" where
  "heappush key item heap = siftdown key item 0 (length heap) (heap @ [item])"

definition heappop :: "('a \<Rightarrow> 'k::linorder) \<Rightarrow> 'a list \<Rightarrow> ('a \<times> 'a list) py" where
  "heappop key heap =
     (if heap = [] then Inl IndexError
      else let lastelt = last heap; rest = butlast heap in
        if rest = [] then Inr (lastelt, [])
        else Inr (rest ! 0, siftup key 0 (rest[0 := lastelt])))"

definition heapreplace :: "('a \<Rightarrow> 'k::linorder) \<Rightarrow> 'a \<Rightarrow> 'a list \<Rightarrow> ('a \<times> 'a list) py" where
  "heapreplace key item heap =
     (if heap = [] then Inl IndexError else Inr (heap ! 0, siftup key 0 (heap[0 := item])))"

fun heapify_from :: "('a \<Rightarrow> 'k::linorder) \<Rightarrow> nat \<Rightarrow> 'a list \<Rightarrow> 'a list" where
  "heapify_from key 0 heap = heap"
| "heapify_from key (Suc i) heap = heapify_from key i (siftup key i heap)"

definition heapify :: "('a \<Rightarrow> 'k::linorder) \<Rightarrow> 'a list \<Rightarrow> 'a list" where
  "heapify key heap = heapify_from key (length heap div 2) heap"

section \<open>Permutation\<close>

lemma swap_update:
  "i < length h \<Longrightarrow> j < length h \<Longrightarrow> i \<noteq> j \<Longrightarrow> mset (h[i := h ! j, j := x]) = mset (h[i := x])"
proof -
  assume ij: "i < length h" "j < length h" "i \<noteq> j"
  have "h[i := h ! j, j := x] = h[i := x, j := (h[i := x]) ! i, i := (h[i := x]) ! j]"
    using ij by (intro nth_equalityI) (auto simp: nth_list_update)
  then show ?thesis using mset_swap[of i "h[i := x]" j] ij by simp
qed

lemma length_siftdown [simp]: "length (siftdown key x s p h) = length h"
  by (induction key x s p h rule: siftdown.induct) (subst siftdown.simps, simp)

lemma mset_siftdown: "p < length h \<Longrightarrow> mset (siftdown key x s p h) = mset (h[p := x])"
proof (induction key x s p h rule: siftdown.induct)
  case (1 key x s p h)
  show ?case
  proof (cases "p > s \<and> key x < key (h ! parent p)")
    case True
    have par: "parent p < p" using True by (intro parent_less) auto
    then have len: "parent p < length h" using "1.prems" by linarith
    with True have "mset (siftdown key x s p h) = mset (h[p := h ! parent p, parent p := x])"
      using 1 by (subst siftdown.simps) auto
    also have "\<dots> = mset (h[p := x])" using par len "1.prems" by (intro swap_update) simp_all
    finally show ?thesis .
  next
    case False
    then show ?thesis by (subst siftdown.simps, subst if_not_P) simp_all
  qed
qed

lemma smaller_child_bounds:
  "2 * p + 1 < length h \<Longrightarrow> p < smaller_child key p h \<and> smaller_child key p h < length h \<and>
     parent (smaller_child key p h) = p"
  by (auto simp: smaller_child_def Let_def)

lemma smaller_child_le:
  assumes "2 * p + 1 < length h" "i < length h" "0 < i" "parent i = p"
  shows "key (h ! smaller_child key p h) \<le> key (h ! i)"
proof -
  have "i = 2 * p + 1 \<or> i = 2 * p + 2" using assms(3,4) by (rule parent_cases)
  with assms(2) show ?thesis by (auto simp: smaller_child_def Let_def)
qed

lemma sift_path_mset:
  assumes "p < length h" "sift_path key p h = (q, h')"
  shows "q < length h' \<and> length h' = length h \<and> mset (h'[q := x]) = mset (h[p := x])"
  using assms
proof (induction key p h arbitrary: q h' rule: sift_path.induct)
  case (1 key p h)
  show ?case
  proof (cases "2 * p + 1 < length h")
    case True
    let ?c = "smaller_child key p h"
    note c = smaller_child_bounds[OF True, of key]
    have "sift_path key ?c (h[p := h ! ?c]) = (q, h')"
      using "1.prems"(2) True by (subst (asm) sift_path.simps) (simp add: Let_def)
    with "1.IH"[OF True refl, of q h'] c
    have "q < length h' \<and> length h' = length h \<and> mset (h'[q := x]) = mset (h[p := h ! ?c, ?c := x])" by simp
    moreover have "mset (h[p := h ! ?c, ?c := x]) = mset (h[p := x])"
      using c "1.prems"(1) by (intro swap_update) auto
    ultimately show ?thesis by simp
  next
    case False
    with "1.prems" show ?thesis by (simp add: sift_path.simps[of key p h])
  qed
qed

lemma mset_siftup: "p < length h \<Longrightarrow> mset (siftup key p h) = mset h"
proof -
  assume p: "p < length h"
  obtain q h' where q: "sift_path key p h = (q, h')" by fastforce
  from sift_path_mset[OF p q, of "h ! p"] have "q < length h'" "mset (h'[q := h ! p]) = mset h" by auto
  with q show ?thesis by (simp add: siftup_def mset_siftdown)
qed

lemma length_siftup [simp]: "p < length h \<Longrightarrow> length (siftup key p h) = length h"
  by (metis mset_siftup size_mset)

section \<open>Heap order\<close>

text \<open>Every node whose parent is not above \<open>m\<close> in the list is not smaller than its parent.\<close>

definition heap_from :: "('a \<Rightarrow> 'k::linorder) \<Rightarrow> nat \<Rightarrow> 'a list \<Rightarrow> bool" where
  "heap_from key m h \<longleftrightarrow>
     (\<forall>i<length h. 0 < i \<longrightarrow> m \<le> parent i \<longrightarrow> key (h ! parent i) \<le> key (h ! i))"

abbreviation is_heap :: "('a \<Rightarrow> 'k::linorder) \<Rightarrow> 'a list \<Rightarrow> bool" where
  "is_heap key h \<equiv> heap_from key 0 h"

lemma heap_fromD:
  "heap_from key m h \<Longrightarrow> i < length h \<Longrightarrow> 0 < i \<Longrightarrow> m \<le> parent i \<Longrightarrow> key (h ! parent i) \<le> key (h ! i)"
  by (simp add: heap_from_def)

text \<open>\<open>under m p\<close>: the position \<open>p\<close> lies in the subtree with root \<open>m\<close>.\<close>

fun under :: "nat \<Rightarrow> nat \<Rightarrow> bool" where
  "under m p = (if m < p then under m (parent p) else p = m)"

declare under.simps [simp del]

lemma under_ge: "under m p \<Longrightarrow> m \<le> p"
  by (simp add: under.simps[of m p] split: if_splits)

lemma under_parent: "under m p \<Longrightarrow> m < p \<Longrightarrow> under m (parent p)"
  by (simp add: under.simps[of m p])

lemma under_refl [simp]: "under m m"
  by (simp add: under.simps[of m m])

lemma under_0: "under 0 p"
proof (induction p rule: less_induct)
  case (less p)
  then show ?case by (cases "p = 0") (simp_all add: under.simps[of 0 p])
qed

lemma under_child: "under m p \<Longrightarrow> parent c = p \<Longrightarrow> p < c \<Longrightarrow> under m c"
  using under_ge[of m p] by (simp add: under.simps[of m c])

text \<open>
  While an item moves up from \<open>p\<close>, only the edge from the parent of \<open>p\<close> into \<open>p\<close> may be violated,
  and the children of \<open>p\<close> respect that parent.
\<close>

definition up_inv :: "('a \<Rightarrow> 'k::linorder) \<Rightarrow> nat \<Rightarrow> 'a \<Rightarrow> nat \<Rightarrow> 'a list \<Rightarrow> bool" where
  "up_inv key m x p h \<longleftrightarrow>
     p < length h \<and> under m p \<and>
     (\<forall>i<length h. 0 < i \<longrightarrow> m \<le> parent i \<longrightarrow> i \<noteq> p \<longrightarrow>
        (if parent i = p
         then key x \<le> key (h ! i) \<and> (m < p \<longrightarrow> key (h ! parent p) \<le> key (h ! i))
         else key (h ! parent i) \<le> key (h ! i)))"

lemma up_inv_edge:
  "up_inv key m x p h \<Longrightarrow> i < length h \<Longrightarrow> 0 < i \<Longrightarrow> m \<le> parent i \<Longrightarrow> i \<noteq> p \<Longrightarrow> parent i \<noteq> p \<Longrightarrow>
     key (h ! parent i) \<le> key (h ! i)"
  by (simp add: up_inv_def)

lemma up_inv_child:
  "up_inv key m x p h \<Longrightarrow> i < length h \<Longrightarrow> 0 < i \<Longrightarrow> m \<le> p \<Longrightarrow> parent i = p \<Longrightarrow>
     key x \<le> key (h ! i) \<and> (m < p \<longrightarrow> key (h ! parent p) \<le> key (h ! i))"
  using parent_less[of i] by (auto simp: up_inv_def)

lemma up_inv_step:
  assumes "up_inv key m x p h" "m < p" "key x < key (h ! parent p)"
  shows "up_inv key m x (parent p) (h[p := h ! parent p])"
  unfolding up_inv_def
proof (intro conjI allI impI)
  note edge = up_inv_edge[OF assms(1)] and child = up_inv_child[OF assms(1)]
  let ?q = "parent p" and ?h = "h[p := h ! parent p]"
  have q: "?q < p" using assms(2) by (intro parent_less) simp
  have p: "p < length h" "under m p" using assms(1) by (simp_all add: up_inv_def)
  show "?q < length ?h" using p q by simp
  show under: "under m ?q" using p assms(2) by (intro under_parent)
  have grand: "key (h ! parent ?q) \<le> key (h ! ?q)" if "m < ?q"
    using that p q under_ge[OF under_parent[OF under that]] parent_less[of ?q] by (intro edge) linarith+
  fix i assume i: "i < length ?h" "0 < i" "m \<le> parent i" "i \<noteq> ?q"
  show "if parent i = ?q then key x \<le> key (?h ! i) \<and> (m < ?q \<longrightarrow> key (?h ! parent ?q) \<le> key (?h ! i))
        else key (?h ! parent i) \<le> key (?h ! i)"
  proof (cases "parent i = ?q")
    case sibling: True
    have pq: "parent ?q \<noteq> p" if "m < ?q" using parent_less[of ?q] that q by linarith
    show ?thesis
    proof (cases "i = p")
      case True
      with assms(3) grand pq p sibling show ?thesis by (auto simp: nth_list_update)
    next
      case False
      have qi: "key (h ! ?q) \<le> key (h ! i)"
        using edge[of i] i False sibling q by (metis length_list_update less_irrefl)
      then have "key x \<le> key (h ! i)" using assms(3) by order
      moreover have "m < ?q \<longrightarrow> key (h ! parent ?q) \<le> key (h ! i)" using qi grand by (meson order.trans)
      ultimately show ?thesis using sibling False pq by (auto simp: nth_list_update)
    qed
  next
    case False
    then have "i \<noteq> p" by auto
    then show ?thesis
      using edge[of i] child[of i] i False assms(2) p by (cases "parent i = p") (auto simp: nth_list_update)
  qed
qed

lemma siftdown_heap: "up_inv key m x p h \<Longrightarrow> heap_from key m (siftdown key x m p h)"
proof (induction key x m p h rule: siftdown.induct)
  case (1 key x m p h)
  show ?case
  proof (cases "p > m \<and> key x < key (h ! parent p)")
    case True
    with 1 up_inv_step[of key m x p h] show ?thesis by (subst siftdown.simps) simp
  next
    case False
    have "heap_from key m (h[p := x])"
      unfolding heap_from_def
    proof (intro allI impI)
      fix i assume i: "i < length (h[p := x])" "0 < i" "m \<le> parent i"
      show "key (h[p := x] ! parent i) \<le> key (h[p := x] ! i)"
      proof (cases "i = p")
        case True
        have "parent i < p" using True i(2) parent_less by blast
        moreover from this have "m < p" using True i by linarith
        moreover have "h[p := x] ! parent i = h ! parent i"
          using \<open>parent i < p\<close> by (intro nth_list_update_neq) simp
        ultimately show ?thesis using True False i by (auto simp: not_less)
      next
        case False
        with "1.prems" i show ?thesis by (auto simp: up_inv_def nth_list_update split: if_splits)
      qed
    qed
    with False show ?thesis by (subst siftdown.simps, subst if_not_P) simp_all
  qed
qed

text \<open>
  Moving the smaller child up: below \<open>m\<close> the list is a heap already, or the hole is still at
  \<open>m\<close> and only the edges below \<open>m\<close> count.
\<close>

lemma path_step:
  assumes "2 * p + 1 < length h" "under m p" "heap_from key (if p = m then Suc m else m) h"
  shows "heap_from key m (h[p := h ! smaller_child key p h])"
  unfolding heap_from_def
proof (intro allI impI)
  let ?c = "smaller_child key p h"
  let ?h = "h[p := h ! ?c]"
  note c = smaller_child_bounds[OF assms(1), of key]
  fix i assume i: "i < length ?h" "0 < i" "m \<le> parent i"
  have pi: "parent i < i" using i(2) by simp
  show "key (?h ! parent i) \<le> key (?h ! i)"
  proof (cases "parent i = p")
    case True
    have "key (h ! ?c) \<le> key (h ! i)" using assms(1) i True by (intro smaller_child_le) auto
    then show ?thesis using True pi c i by (auto simp: nth_list_update)
  next
    case False
    have old: "key (h ! parent j) \<le> key (h ! j)" if "j < length h" "0 < j" "m \<le> parent j" "parent j \<noteq> m \<or> p \<noteq> m" for j
      using that by (intro heap_fromD[OF assms(3)]) auto
    show ?thesis
    proof (cases "i = p")
      case True
      have "m < p" using True i pi by linarith
      have "key (h ! parent p) \<le> key (h ! p)" using old[of p] True i \<open>m < p\<close> by simp
      moreover have "key (h ! p) \<le> key (h ! ?c)" using old[of ?c] c \<open>m < p\<close> by auto
      ultimately have "key (h ! parent p) \<le> key (h ! ?c)" by order
      with True False i show ?thesis by (auto simp: nth_list_update)
    next
      case False
      have "parent i \<noteq> m \<or> p \<noteq> m" using \<open>parent i \<noteq> p\<close> by auto
      with old[of i] i False \<open>parent i \<noteq> p\<close> show ?thesis by simp
    qed
  qed
qed

lemma sift_path_heap:
  assumes "under m p" "p < length h" "heap_from key (if p = m then Suc m else m) h"
    and "sift_path key p h = (q, h')"
  shows "under m q \<and> heap_from key m h' \<and> \<not> 2 * q + 1 < length h'"
  using assms
proof (induction key p h arbitrary: q h' rule: sift_path.induct)
  case (1 key p h)
  show ?case
  proof (cases "2 * p + 1 < length h")
    case True
    let ?c = "smaller_child key p h"
    note c = smaller_child_bounds[OF True, of key]
    have rec: "sift_path key ?c (h[p := h ! ?c]) = (q, h')"
      using "1.prems"(4) True by (simp add: sift_path.simps[of key p h] Let_def)
    have "under m ?c" using "1.prems"(1) c by (blast intro: under_child)
    moreover have "?c \<noteq> m" using c under_ge[OF "1.prems"(1)] by linarith
    ultimately show ?thesis
      using rec c path_step[OF True "1.prems"(1,3)] by (intro "1.IH"[OF True refl]) simp_all
  next
    case False
    have "heap_from key m h"
      unfolding heap_from_def
    proof (intro allI impI)
      fix i assume i: "i < length h" "0 < i" "m \<le> parent i"
      have "parent i \<noteq> p" using parent_cases[of i p] i False by auto
      then have "(if p = m then Suc m else m) \<le> parent i" using i(3) by auto
      with "1.prems"(3) i show "key (h ! parent i) \<le> key (h ! i)" by (intro heap_fromD)
    qed
    with False "1.prems" show ?thesis by (simp add: sift_path.simps[of key p h])
  qed
qed

lemma siftup_heap:
  assumes "p < length h" "heap_from key (Suc p) h"
  shows "heap_from key p (siftup key p h)"
proof -
  obtain q h' where q: "sift_path key p h = (q, h')" by fastforce
  have s: "under p q" "heap_from key p h'" "\<not> 2 * q + 1 < length h'"
    using sift_path_heap[of p p h key q h'] assms q by auto
  have len: "q < length h'" using sift_path_mset[OF assms(1) q] by blast
  have leaf: "parent i \<noteq> q" if "i < length h'" "0 < i" for i
    using parent_cases[of i q] that s(3) by auto
  have "up_inv key p (h ! p) q h'"
    unfolding up_inv_def using s len leaf by (auto intro: heap_fromD)
  then show ?thesis using q by (simp add: siftup_def siftdown_heap)
qed

lemma heap_root_least: "is_heap key h \<Longrightarrow> i < length h \<Longrightarrow> key (h ! 0) \<le> key (h ! i)"
proof (induction i rule: less_induct)
  case (less i)
  show ?case
  proof (cases "i = 0")
    case False
    then have "key (h ! 0) \<le> key (h ! parent i)" using less by simp
    also have "\<dots> \<le> key (h ! i)" using False less.prems by (intro heap_fromD) auto
    finally show ?thesis .
  qed simp
qed

section \<open>The operations\<close>

lemma heap_from_beyond: "length h \<le> 2 * m + 1 \<Longrightarrow> heap_from key m h"
  unfolding heap_from_def parent_def by auto

lemma heappush_correct:
  assumes "is_heap key h"
  shows "is_heap key (heappush key x h)" and "mset (heappush key x h) = add_mset x (mset h)"
proof -
  have "up_inv key 0 x (length h) (h @ [x])"
    unfolding up_inv_def
  proof (intro conjI allI impI)
    fix i assume i: "i < length (h @ [x])" "0 < i" "0 \<le> parent i" "i \<noteq> length h"
    then have "i < length h" by simp
    moreover from this have "parent i < length h" using parent_less[OF i(2)] by linarith
    ultimately show "if parent i = length h
        then key x \<le> key ((h @ [x]) ! i) \<and> (0 < length h \<longrightarrow> key ((h @ [x]) ! parent (length h)) \<le> key ((h @ [x]) ! i))
        else key ((h @ [x]) ! parent i) \<le> key ((h @ [x]) ! i)"
      using heap_fromD[OF assms, of i] i by (simp add: nth_append)
  qed (simp_all add: under_0)
  then show "is_heap key (heappush key x h)" by (simp add: heappush_def siftdown_heap)
  show "mset (heappush key x h) = add_mset x (mset h)" by (simp add: heappush_def mset_siftdown)
qed

lemma siftup_root:
  assumes "is_heap key h" "h \<noteq> []"
  shows "is_heap key (siftup key 0 (h[0 := x]))" and
    "mset (siftup key 0 (h[0 := x])) = add_mset x (mset (tl h))"
proof -
  have "heap_from key (Suc 0) (h[0 := x])"
    using assms(1) by (auto simp: heap_from_def nth_list_update)
  then show "is_heap key (siftup key 0 (h[0 := x]))" using assms(2) by (intro siftup_heap) auto
  show "mset (siftup key 0 (h[0 := x])) = add_mset x (mset (tl h))"
    using assms(2) by (cases h) (simp_all add: mset_siftup)
qed

lemma heapreplace_correct:
  assumes "is_heap key h" "h \<noteq> []"
  shows "\<exists>h'. heapreplace key x h = Inr (h ! 0, h') \<and> is_heap key h' \<and> mset h' = add_mset x (mset (tl h)) \<and>
           (\<forall>y \<in> set h. key (h ! 0) \<le> key y)"
  using siftup_root[OF assms, of x] heap_root_least[OF assms(1)] assms(2)
  by (auto simp: heapreplace_def in_set_conv_nth)

lemma heappop_correct:
  assumes "is_heap key h" "h \<noteq> []"
  shows "\<exists>x h'. heappop key h = Inr (x, h') \<and> is_heap key h' \<and> mset h = add_mset x (mset h') \<and>
           (\<forall>y \<in> set h. key x \<le> key y)"
proof (cases "butlast h = []")
  case True
  with assms(2) obtain x where "h = [x]" by (cases h) (auto split: if_splits)
  then show ?thesis by (simp add: heappop_def heap_from_def)
next
  case False
  have heap: "is_heap key (butlast h)"
    unfolding heap_from_def
  proof (intro allI impI)
    fix i assume i: "i < length (butlast h)" "0 < i" "0 \<le> parent i"
    then have "key (h ! parent i) \<le> key (h ! i)" using assms(1) by (intro heap_fromD) auto
    with i parent_less[OF i(2)] show "key (butlast h ! parent i) \<le> key (butlast h ! i)" by (simp add: nth_butlast)
  qed
  note s = siftup_root[OF heap False, of "last h"]
  have h: "h = butlast h @ [last h]" using assms(2) by simp
  then have "mset h = add_mset (last h) (mset (butlast h))" by (metis mset_append mset.simps union_mset_add_mset_right add_mset_add_single add.right_neutral)
  moreover have "mset (butlast h) = add_mset (butlast h ! 0) (mset (tl (butlast h)))"
    using False by (cases "butlast h") auto
  ultimately have "mset h = add_mset (butlast h ! 0) (mset (siftup key 0 ((butlast h)[0 := last h])))"
    using s(2) by (simp add: add_mset_commute)
  moreover have "butlast h ! 0 = h ! 0" using False nth_butlast[of 0 h] by (metis length_greater_0_conv)
  moreover have "\<forall>y \<in> set h. key (h ! 0) \<le> key y"
    using heap_root_least[OF assms(1)] by (auto simp: in_set_conv_nth)
  ultimately show ?thesis using s(1) False assms(2) by (auto simp: heappop_def Let_def)
qed

lemma heapify_from_correct:
  "n \<le> length h \<Longrightarrow> heap_from key n h \<Longrightarrow>
     is_heap key (heapify_from key n h) \<and> mset (heapify_from key n h) = mset h"
proof (induction n arbitrary: h)
  case (Suc n)
  then show ?case using Suc.IH[of "siftup key n h"] by (simp add: siftup_heap mset_siftup)
qed simp

lemma heapify_correct:
  shows "is_heap key (heapify key h)" and "mset (heapify key h) = mset h"
  using heapify_from_correct[of "length h div 2" h key] heap_from_beyond[of h "length h div 2" key]
  by (simp_all add: heapify_def)

section \<open>Priority queues\<close>

text \<open>
  What a client of a priority queue relies on. \<open>content\<close> is the multiset of waiting items and
  \<open>pop\<close> raises on an empty queue.
\<close>

locale pqueue =
  fixes push :: "'a \<Rightarrow> 'q \<Rightarrow> 'q"
    and pop :: "'q \<Rightarrow> ('a \<times> 'q) py"
    and content :: "'q \<Rightarrow> 'a multiset"
    and wf :: "'q \<Rightarrow> bool"
    and key :: "'a \<Rightarrow> 'k::linorder"
  assumes push_wf: "wf q \<Longrightarrow> wf (push x q)"
    and push_content: "wf q \<Longrightarrow> content (push x q) = add_mset x (content q)"
    and pop_empty: "content q = {#} \<Longrightarrow> wf q \<Longrightarrow> pop q = Inl IndexError"
    and pop_least: "wf q \<Longrightarrow> content q \<noteq> {#} \<Longrightarrow> \<exists>x q'. pop q = Inr (x, q') \<and> wf q' \<and>
        content q = add_mset x (content q') \<and> (\<forall>y \<in># content q. key x \<le> key y)"
begin

fun drain :: "nat \<Rightarrow> 'q \<Rightarrow> 'a list" where
  "drain 0 q = []"
| "drain (Suc n) q = (case pop q of Inl e \<Rightarrow> [] | Inr (x, q') \<Rightarrow> x # drain n q')"

lemma push_all_wf: "wf q \<Longrightarrow> wf (fold push xs q)"
  by (induction xs arbitrary: q) (simp_all add: push_wf)

lemma push_all_content: "wf q \<Longrightarrow> content (fold push xs q) = content q + mset xs"
  by (induction xs arbitrary: q) (simp_all add: push_wf push_content)

text \<open>Popping everything gives the items in the order of their keys.\<close>

lemma drain_sorted:
  "wf q \<Longrightarrow> n = size (content q) \<Longrightarrow> sorted (map key (drain n q)) \<and> mset (drain n q) = content q"
proof (induction n arbitrary: q)
  case (Suc n)
  then have "content q \<noteq> {#}" by auto
  with pop_least[OF Suc.prems(1)] obtain x q' where x: "pop q = Inr (x, q')" "wf q'"
    "content q = add_mset x (content q')" "\<forall>y \<in># content q. key x \<le> key y" by blast
  with Suc have IH: "sorted (map key (drain n q'))" "mset (drain n q') = content q'" by auto
  have "key x \<le> key y" if "y \<in> set (drain n q')" for y
    using that IH(2) x(3,4) by (metis set_mset_mset union_iff add_mset_add_single)
  with IH x show ?case by simp
qed simp

end

interpretation hq: pqueue "heappush key" "heappop key" mset "is_heap key" key for key :: "'a \<Rightarrow> 'k::linorder"
proof (unfold_locales, goal_cases)
  case (1 q x)
  then show ?case by (rule heappush_correct)
next
  case (2 q x)
  then show ?case by (rule heappush_correct)
next
  case (3 q)
  then show ?case by (simp add: heappop_def)
next
  case (4 q)
  then show ?case using heappop_correct[of key q] by simp
qed

end
