(* ===== verification/Space_Interface.thy ===== *)
theory Space_Interface
  imports Config_Correct
begin

text \<open>
  The interface through which the tuners of \<^verbatim>\<open>python/tvm/autotvm/tuner\<close> use \<^verbatim>\<open>self.space\<close>. The
  methods they call are the fields of \<open>space_ops\<close>; the locale \<open>index_space\<close> states what they
  promise in terms of an abstract view: the number of indices, which of them are valid, and
  the configuration each stands for. \<^verbatim>\<open>ConfigSpace\<close> keeps the promise
  (interpretation \<open>cfg\<close> below).
\<close>

record ('s, 'c) space_ops =
  sp_range_length :: "('s, int) st"
  sp_len :: "('s, int) st"
  sp_is_index_valid :: "int \<Rightarrow> ('s, bool) st"
  sp_subrange_length :: "int \<Rightarrow> int \<Rightarrow> ('s, int) st"
  sp_get_next_index :: "int \<Rightarrow> int \<Rightarrow> int option \<Rightarrow> int option \<Rightarrow> ('s, int option) st"
  sp_get_rand_index :: "int list \<Rightarrow> int option \<Rightarrow> int option \<Rightarrow> int list \<Rightarrow> ('s, int option) st"
  sp_get :: "int \<Rightarrow> ('s, 'c) st"
  sp_dims :: "('s, int list) st"
  sp_point2knob :: "int \<Rightarrow> ('s, int list) st"
  sp_knob2point :: "int list \<Rightarrow> ('s, int) st"
  sp_sample_ints :: "int list \<Rightarrow> int \<Rightarrow> ('s, int list option) st"
  sp_random_walk :: "(nat \<times> int) list \<Rightarrow> int \<Rightarrow> ('s, int option) st"

definition config_ops :: "('v config_space, 'v config_entity) space_ops" where
  "config_ops =
     \<lparr>sp_range_length = range_length, sp_len = cs_len, sp_is_index_valid = is_index_valid,
      sp_subrange_length = subrange_length, sp_get_next_index = get_next_index,
      sp_get_rand_index = get_rand_index, sp_get = cs_get, sp_dims = dims,
      sp_point2knob = point2knob, sp_knob2point = knob2point,
      sp_sample_ints = sample_ints, sp_random_walk = random_walk\<rparr>"

text \<open>A query answers \<open>r\<close>, keeps the invariant of the space and what a client can see of it.\<close>

definition answers :: "('s \<Rightarrow> bool) \<Rightarrow> ('s \<Rightarrow> 'w) \<Rightarrow> 's \<Rightarrow> ('s, 'a) st \<Rightarrow> 'a \<Rightarrow> bool" where
  "answers good view s m r \<longleftrightarrow> (\<exists>s'. m s = (s', Inr r) \<and> good s' \<and> view s' = view s)"

lemma answersE:
  assumes "answers good view s m r"
  obtains s' where "m s = (s', Inr r)" "good s'" "view s' = view s"
  using assms by (auto simp: answers_def)

lemma find_is_hd_filter: "find P xs = (case filter P xs of [] \<Rightarrow> None | x # _ \<Rightarrow> Some x)"
  by (induction xs) auto

locale index_space =
  fixes ops :: "('s, 'c) space_ops"
    and good :: "'s \<Rightarrow> bool"
    and view :: "'s \<Rightarrow> 'w"
    and npts :: "'w \<Rightarrow> int"
    and ok :: "'w \<Rightarrow> int \<Rightarrow> bool"
    and conf :: "'w \<Rightarrow> int \<Rightarrow> 'c"
  assumes npts_pos: "good s \<Longrightarrow> 0 < npts (view s)"
    and range_answers: "good s \<Longrightarrow> answers good view s (sp_range_length ops) (npts (view s))"
    and len_answers: "good s \<Longrightarrow> answers good view s (sp_len ops)
        (int (card {i. 0 \<le> i \<and> i < npts (view s) \<and> ok (view s) i}))"
    and valid_answers: "good s \<Longrightarrow> 0 \<le> i \<Longrightarrow> i < npts (view s) \<Longrightarrow>
        answers good view s (sp_is_index_valid ops i) (ok (view s) i)"
    and subrange_answers: "good s \<Longrightarrow> 0 \<le> a \<Longrightarrow> a \<le> b \<Longrightarrow> b \<le> npts (view s) \<Longrightarrow>
        answers good view s (sp_subrange_length ops a b) (int (length (filter (ok (view s)) [a..b - 1])))"
    and next_answers: "good s \<Longrightarrow> 0 \<le> a \<Longrightarrow> a \<le> i + 1 \<Longrightarrow> i \<le> b \<Longrightarrow> 0 < b \<Longrightarrow> b \<le> npts (view s) \<Longrightarrow>
        answers good view s (sp_get_next_index ops i 1 (Some a) (Some b)) (find (ok (view s)) [i + 1..b - 1])"
    and rand_answers: "good s \<Longrightarrow> 0 \<le> a \<Longrightarrow> a < b \<Longrightarrow> b \<le> npts (view s) \<Longrightarrow>
        (\<forall>d \<in> set draws. a \<le> d \<and> d < b) \<Longrightarrow>
        answers good view s (sp_get_rand_index ops draws (Some a) (Some b) excl)
          (find (\<lambda>d. ok (view s) d \<and> d \<notin> set excl) draws)"
    and rand_all_answers: "good s \<Longrightarrow> (\<forall>d \<in> set draws. 0 \<le> d \<and> d < npts (view s)) \<Longrightarrow>
        answers good view s (sp_get_rand_index ops draws None None excl)
          (find (\<lambda>d. ok (view s) d \<and> d \<notin> set excl) draws)"
    and get_answers: "good s \<Longrightarrow> 0 \<le> i \<Longrightarrow> i < npts (view s) \<Longrightarrow> ok (view s) i \<Longrightarrow>
        answers good view s (sp_get ops i) (conf (view s) i)"
begin

text \<open>The valid indices of a range, in order.\<close>

abbreviation valids :: "'w \<Rightarrow> int \<Rightarrow> int \<Rightarrow> int list" where
  "valids w a b \<equiv> filter (ok w) [a..b - 1]"

lemma card_valids: "card {i. a \<le> i \<and> i < b \<and> ok w i} = length (valids w a b)"
proof -
  have "set (valids w a b) = {i. a \<le> i \<and> i < b \<and> ok w i}" by auto
  then show ?thesis by (metis distinct_card distinct_filter distinct_upto)
qed

text \<open>The element after the k-th valid index is the first valid one above it.\<close>

lemma next_of_nth:
  assumes "k < length (valids w a b)"
  shows "find (ok w) [valids w a b ! k + 1..b - 1] =
           (if Suc k < length (valids w a b) then Some (valids w a b ! Suc k) else None)"
proof -
  let ?L = "valids w a b" and ?x = "valids w a b ! k"
  have "?x \<in> set ?L" using assms by (rule nth_mem)
  then have x: "a \<le> ?x" "?x \<le> b - 1" by auto
  have split: "[a..b - 1] = [a..?x] @ [?x + 1..b - 1]" using x by (intro upto_split2) auto
  have "sorted ?L" "distinct ?L" by (simp_all add: sorted_wrt_filter)
  have "filter (ok w) [a..?x] @ filter (ok w) [?x + 1..b - 1] = ?L" by (simp only: split[symmetric] filter_append[symmetric])
  moreover have "length (filter (ok w) [a..?x]) = Suc k"
  proof -
    have "set (filter (ok w) [a..?x]) = set (take (Suc k) ?L)"
    proof (intro set_eqI iffI)
      fix y assume "y \<in> set (filter (ok w) [a..?x])"
      then have y: "y \<in> set ?L" "y \<le> ?x" using x by auto
      then obtain j where j: "j < length ?L" "?L ! j = y" by (metis in_set_conv_nth)
      then have "j \<le> k"
        using y(2) \<open>sorted ?L\<close> \<open>distinct ?L\<close> assms
        by (metis leI nth_eq_iff_index_eq order_antisym sorted_nth_mono nat_less_le)
      with j show "y \<in> set (take (Suc k) ?L)" by (metis in_set_conv_nth length_take less_Suc_eq_le min_less_iff_conj nth_take)
    next
      fix y assume "y \<in> set (take (Suc k) ?L)"
      then obtain j where j: "j \<le> k" "j < length ?L" "y = ?L ! j"
        by (metis in_set_conv_nth length_take less_Suc_eq_le min_less_iff_conj nth_take)
      then have "y \<le> ?x" using \<open>sorted ?L\<close> assms by (simp add: sorted_nth_mono)
      moreover have "y \<in> set ?L" using j nth_mem by blast
      ultimately show "y \<in> set (filter (ok w) [a..?x])" by auto
    qed
    then have "card (set (filter (ok w) [a..?x])) = card (set (take (Suc k) ?L))" by (rule arg_cong)
    moreover have "card (set (filter (ok w) [a..?x])) = length (filter (ok w) [a..?x])"
      by (rule distinct_card) simp
    moreover have "card (set (take (Suc k) ?L)) = Suc k"
      using \<open>distinct ?L\<close> assms by (subst distinct_card) auto
    ultimately show ?thesis by simp
  qed
  ultimately have tail: "filter (ok w) [?x + 1..b - 1] = drop (Suc k) ?L"
    by (metis append_eq_conv_conj)
  show ?thesis
  proof (cases "Suc k < length ?L")
    case True
    then have "drop (Suc k) ?L = ?L ! Suc k # drop (Suc (Suc k)) ?L" by (simp add: Cons_nth_drop_Suc)
    with True tail show ?thesis by (simp add: find_is_hd_filter)
  qed (use tail in \<open>simp add: find_is_hd_filter\<close>)
qed

end

section \<open>ConfigSpace keeps the promise\<close>

definition space_good :: "'v config_space \<Rightarrow> bool" where
  "space_good cs \<longleftrightarrow> proper cs \<and> coherent cs"

definition config_at :: "'v config_space \<Rightarrow> int \<Rightarrow> 'v config_entity" where
  "config_at w i = \<lparr>ce_index = i, ce_code_hash = code_hash w, ce_entities = decode (space_map w) i\<rparr>"

lemma yields_answers:
  assumes "yields cs m r" "proper cs"
  shows "answers space_good clear_cache cs m r"
proof -
  from assms(1) obtain cs' where 1: "m cs = (cs', Inr r)" "coherent cs'" "clear_cache cs' = clear_cache cs"
    by (auto simp: yields_def)
  with core_determines(5)[OF 1(3)] assms(2) show ?thesis by (auto simp: answers_def space_good_def)
qed

lemma view_determines [simp]:
  "num_points (clear_cache cs) = num_points cs" "valid_at (clear_cache cs) = valid_at cs"
  "config_at (clear_cache cs) = config_at cs" "space_lens (clear_cache cs) = space_lens cs"
  using core_determines(1-3)[of "clear_cache cs" cs] clear_cache_fields(1,3)[of "clear_cache cs" cs]
  by (simp_all add: config_at_def fun_eq_iff)

interpretation cfg: index_space config_ops space_good clear_cache num_points valid_at config_at
proof (unfold_locales, goal_cases)
  case (1 s)
  then show ?case by (simp add: space_good_def num_points_pos)
next
  case (2 s)
  then show ?case by (auto simp: space_good_def config_ops_def intro!: yields_answers range_length_yields)
next
  case (3 s)
  then show ?case
    using cs_len_yields[of s] by (auto simp: space_good_def config_ops_def length_valid_in intro: yields_answers)
next
  case (4 s i)
  then show ?case by (auto simp: space_good_def config_ops_def intro!: yields_answers is_index_valid_yields)
next
  case (5 s a b)
  then show ?case
    using subrange_length_yields[of s a b]
    by (auto simp: space_good_def config_ops_def valid_in_def intro: yields_answers)
next
  case (6 s a i b)
  have "kth (filter (valid_at s) [i + 1..b - 1]) (nat \<bar>1\<bar>) = find (valid_at s) [i + 1..b - 1]"
    by (cases "filter (valid_at s) [i + 1..b - 1]") (simp_all add: kth_def find_is_hd_filter)
  with get_next_index_yields[of s 1 "Some a" i b "Some b"] 6 show ?case
    by (auto simp: space_good_def config_ops_def next_valid_def valid_in_def start_or_0_def
        intro: yields_answers)
next
  case (7 s a b draws excl)
  then show ?case
    using get_rand_index_yields[of s b "Some b" "Some a" draws excl]
    by (force simp: space_good_def config_ops_def start_or_0_def intro: yields_answers)
next
  case (8 s draws excl)
  then show ?case
    using get_rand_index_yields[of s "num_points s" None None draws excl] num_points_pos[of s]
    by (force simp: space_good_def config_ops_def start_or_0_def intro: yields_answers)
next
  case (9 s i)
  then show ?case
    using cs_get_yields[of s i, folded config_at_def]
    by (auto simp: space_good_def config_ops_def intro: yields_answers)
qed

section \<open>Sampling and walking\<close>

text \<open>
  The optimizers also sample indices and move between neighbours; \<open>moves\<close> says which random
  numbers the generator can return for a walk.
\<close>

locale walk_space = index_space ops good view npts ok conf
  for ops :: "('s, 'c) space_ops" and good :: "'s \<Rightarrow> bool" and view :: "'s \<Rightarrow> 'w"
    and npts :: "'w \<Rightarrow> int" and ok :: "'w \<Rightarrow> int \<Rightarrow> bool" and conf :: "'w \<Rightarrow> int \<Rightarrow> 'c" +
  fixes moves :: "'w \<Rightarrow> (nat \<times> int) list \<Rightarrow> bool"
  assumes sample_answers: "good s \<Longrightarrow> 0 \<le> m \<Longrightarrow>
      m \<le> int (card {i. 0 \<le> i \<and> i < npts (view s) \<and> ok (view s) i}) \<Longrightarrow>
      (\<forall>d \<in> set draws. 0 \<le> d \<and> d < npts (view s)) \<Longrightarrow>
      \<exists>r. answers good view s (sp_sample_ints ops draws m) r \<and>
        (\<forall>xs. r = Some xs \<longrightarrow> distinct xs \<and> int (length xs) = m \<and>
           (\<forall>x \<in> set xs. 0 \<le> x \<and> x < npts (view s) \<and> ok (view s) x)) \<and>
        (r = None \<longrightarrow> int (card {d \<in> set draws. ok (view s) d}) < m)"
    and walk_answers: "good s \<Longrightarrow> 0 \<le> p \<Longrightarrow> p < npts (view s) \<Longrightarrow> moves (view s) ds \<Longrightarrow>
      \<exists>r. answers good view s (sp_random_walk ops ds p) r \<and>
        (\<forall>q. r = Some q \<longrightarrow> 0 \<le> q \<and> q < npts (view s) \<and> ok (view s) q \<and> q \<noteq> p)"
    and walk_determined: "good s \<Longrightarrow> good s' \<Longrightarrow> view s' = view s \<Longrightarrow> moves (view s) ds \<Longrightarrow>
      snd (sp_random_walk ops ds p s') = snd (sp_random_walk ops ds p s)"

interpretation cfgw: walk_space config_ops space_good clear_cache num_points valid_at config_at walk_draws
proof (unfold_locales, goal_cases)
  case (1 s m draws)
  then obtain r where r: "yields s (sample_ints draws m) r"
    "\<forall>xs. r = Some xs \<longrightarrow> fresh_valid s xs \<and> int (length xs) = m"
    "r = None \<longrightarrow> int (card {d \<in> set draws. valid_at s d}) < m"
    using sample_ints_yields[of s m draws] by (auto simp: space_good_def)
  have "answers space_good clear_cache s (sp_sample_ints config_ops draws m) r"
    using yields_answers[OF r(1)] 1 by (simp add: space_good_def config_ops_def)
  with r(2,3) show ?case by (auto simp: fresh_valid_def)
next
  case (2 s p ds)
  have "walk_draws s ds" using 2(4) by (simp add: walk_draws_def)
  with 2 obtain r where r: "yields s (random_walk ds p) r"
    "\<forall>q. r = Some q \<longrightarrow> 0 \<le> q \<and> q < num_points s \<and> valid_at s q \<and> q \<noteq> p"
    using random_walk_spec[of s p ds] by (auto simp: space_good_def)
  have "answers space_good clear_cache s (sp_random_walk config_ops ds p) r"
    using yields_answers[OF r(1)] 2 by (simp add: space_good_def config_ops_def)
  with r(2) show ?case by auto
next
  case (3 s s' ds p)
  have d: "walk_draws s ds" "walk_draws s' ds" using 3(3,4) core_determines[OF 3(3)] by (simp_all add: walk_draws_def)
  have "walk_done s' = walk_done s" using core_determines[OF 3(3)] by (simp add: walk_done_def fun_eq_iff)
  then show ?case
    using snd_yields[OF random_walk_yields[of s ds p]] snd_yields[OF random_walk_yields[of s' ds p]] d 3(1,2) core_determines[OF 3(3)]
    by (simp add: space_good_def config_ops_def)
qed

end
