(* ===== verification/SA_Optimizer.thy ===== *)
theory SA_Optimizer
  imports Heapq Space_Interface "HOL-Library.Option_ord" "HOL-Library.Product_Lexorder"
begin

text \<open>
  The simulated annealing optimizer of \<^verbatim>\<open>python/tvm/autotvm/tuner/sa_model_optimizer.py\<close>. The
  cost model is the parameter \<open>predict\<close>; the comparison of a random number with
  \<^verbatim>\<open>np.exp(np.minimum((new - old) / (t + 1e-5), 1))\<close> is the parameter \<open>accept\<close>. A score is
  \<open>None\<close> for \<^verbatim>\<open>float("-inf")\<close>, which is below every number. The random numbers are arguments, one
  list of moves per walk; \<open>None\<close> as a result means that a walk was still running when they ended.
\<close>

section \<open>The optimizer\<close>

type_synonym heap_item = "rat option \<times> int"

datatype temperature = ConstTemp rat | Cooling rat rat

record sa_params =
  sa_n_iter :: nat
  sa_temp :: temperature
  sa_persistent :: bool
  sa_parallel_size :: int
  sa_early_stop :: nat

text \<open>\<^verbatim>\<open>__init__\<close>: no more parallel points than the space has, and \<^verbatim>\<open>early_stop or 1e9\<close>.\<close>

definition sa_init ::
    "('s, 'c) space_ops \<Rightarrow> nat \<Rightarrow> temperature \<Rightarrow> bool \<Rightarrow> int \<Rightarrow> nat option \<Rightarrow> ('s, sa_params) st" where
  "sa_init ops n_iter temp persistent parallel_size early_stop =
     bindS (sp_len ops) (\<lambda>l.
       returnS \<lparr>sa_n_iter = n_iter, sa_temp = temp, sa_persistent = persistent,
                sa_parallel_size = min parallel_size l,
                sa_early_stop = (case early_stop of None \<Rightarrow> 10 ^ 9 | Some e \<Rightarrow> if e = 0 then 10 ^ 9 else e)\<rparr>)"

definition initial_heap :: "nat \<Rightarrow> heap_item list" where
  "initial_heap num = heapify id (map (\<lambda>i. (None, -1 - int i)) [0..<num])"

text \<open>The body of the two loops that insert points: the flag says whether the heap changed.\<close>

definition offer :: "rat \<times> int \<Rightarrow> heap_item list \<times> int set \<Rightarrow> (bool \<times> heap_item list \<times> int set) py" where
  "offer sp hs =
     (let (s, p) = sp; (heap, in_heap) = hs in
      bindE (py_nth heap 0) (\<lambda>top.
        if Some s > fst top \<and> p \<notin> in_heap then
          bindE (heapreplace id (Some s, p) heap) (\<lambda>(pop, heap').
            if snd pop \<in> in_heap then Inr (True, heap', insert p (in_heap - {snd pop}))
            else Inl KeyError)
        else Inr (False, heap, in_heap)))"

fun offer_all :: "(rat \<times> int) list \<Rightarrow> heap_item list \<times> int set \<Rightarrow> (bool \<times> heap_item list \<times> int set) py" where
  "offer_all [] hs = Inr (False, hs)"
| "offer_all (sp # sps) hs =
     bindE (offer sp hs) (\<lambda>(b, hs').
     bindE (offer_all sps hs') (\<lambda>(b', hs''). Inr (b \<or> b', hs'')))"

fun walk_all ::
    "('s, 'c) space_ops \<Rightarrow> (nat \<times> int) list list \<Rightarrow> int list \<Rightarrow> ('s, int list option) st" where
  "walk_all ops dss [] = returnS (Some [])"
| "walk_all ops [] (p # ps) = returnS None"
| "walk_all ops (ds # dss) (p # ps) =
     bindS (sp_random_walk ops ds p) (\<lambda>r.
       case r of
         None \<Rightarrow> returnS None
       | Some q \<Rightarrow> bindS (walk_all ops dss ps) (\<lambda>r'. returnS (map_option ((#) q) r')))"

text \<open>\<open>points[ac_index] = new_points[ac_index]\<close>, and the same for the scores.\<close>

definition accepted ::
    "(rat \<Rightarrow> rat \<Rightarrow> rat \<Rightarrow> rat \<Rightarrow> bool) \<Rightarrow> rat \<Rightarrow> rat list \<Rightarrow> rat list \<Rightarrow> rat list \<Rightarrow> 'a list \<Rightarrow> 'a list \<Rightarrow> 'a list" where
  "accepted accept t us new_scores scores news olds =
     map (\<lambda>i. if accept (new_scores ! i) (scores ! i) t (us ! i) then news ! i else olds ! i) [0..<length olds]"

definition initial_temp :: "temperature \<Rightarrow> nat \<Rightarrow> rat \<times> rat" where
  "initial_temp temp n_iter =
     (case temp of
        ConstTemp t \<Rightarrow> (t, 0)
      | Cooling t0 t1 \<Rightarrow> (t0, (t0 - t1) / (of_nat n_iter + 1)))"

record sa_loop_state =
  lp_points :: "int list"
  lp_scores :: "rat list"
  lp_heap :: "heap_item list"
  lp_in_heap :: "int set"

text \<open>
  The annealing loop: \<open>n\<close> iterations are left of \<^verbatim>\<open>n_iter\<close>, \<open>k\<close> were done and \<open>k_last\<close> is
  \<^verbatim>\<open>k_last_modify\<close>. A round consumes the moves of one walk per point and one number per point.
\<close>

fun anneal ::
    "('s, 'c) space_ops \<Rightarrow> (int list \<Rightarrow> rat list) \<Rightarrow> (rat \<Rightarrow> rat \<Rightarrow> rat \<Rightarrow> rat \<Rightarrow> bool) \<Rightarrow> nat \<Rightarrow> rat \<Rightarrow>
     nat \<Rightarrow> nat \<Rightarrow> nat \<Rightarrow> rat \<Rightarrow> ((nat \<times> int) list list \<times> rat list) list \<Rightarrow> sa_loop_state \<Rightarrow>
     ('s, sa_loop_state option) st" where
  "anneal ops predict accept early_stop cool 0 k k_last t rounds ls = returnS (Some ls)"
| "anneal ops predict accept early_stop cool (Suc n) k k_last t rounds ls =
     (if \<not> k < k_last + early_stop then returnS (Some ls)
      else case rounds of
        [] \<Rightarrow> returnS None
      | (dss, us) # rounds' \<Rightarrow>
          bindS (walk_all ops dss (lp_points ls)) (\<lambda>r.
            case r of
              None \<Rightarrow> returnS None
            | Some new_points \<Rightarrow>
                let new_scores = predict new_points;
                    acc = accepted accept t us new_scores (lp_scores ls) in
                bindS (liftS (offer_all (zip new_scores new_points) (lp_heap ls, lp_in_heap ls))) (\<lambda>(b, h, ih).
                  anneal ops predict accept early_stop cool n (Suc k) (if b then k else k_last) (t - cool) rounds'
                    \<lparr>lp_points = acc new_points (lp_points ls),
                     lp_scores = accepted accept t us new_scores (lp_scores ls) new_scores (lp_scores ls),
                     lp_heap = h, lp_in_heap = ih\<rparr>)))"

text \<open>
  The end of \<^verbatim>\<open>find_maximums\<close>: a stable sort by descending score, and only scores of at least 0.
  The key \<open>fst x\<close> in the reversed order stands for \<^verbatim>\<open>-item[0]\<close>.
\<close>

definition sa_result :: "heap_item list \<Rightarrow> int list" where
  "sa_result heap = map snd (filter (\<lambda>x. fst x \<ge> Some 0) (rev (sort_key fst (rev heap))))"

definition find_maximums ::
    "('s, 'c) space_ops \<Rightarrow> sa_params \<Rightarrow> (int list \<Rightarrow> rat list) \<Rightarrow> (rat \<Rightarrow> rat \<Rightarrow> rat \<Rightarrow> rat \<Rightarrow> bool) \<Rightarrow>
     nat \<Rightarrow> int set \<Rightarrow> int list option \<Rightarrow> int list \<Rightarrow> ((nat \<times> int) list list \<times> rat list) list \<Rightarrow>
     ('s, (int list option \<times> int list) option) st" where
  "find_maximums ops prm predict accept num exclusive saved sample_draws rounds =
     bindS (if sa_persistent prm \<and> saved \<noteq> None then returnS saved
            else sp_sample_ints ops sample_draws (sa_parallel_size prm)) (\<lambda>pts.
       case pts of
         None \<Rightarrow> returnS None
       | Some points \<Rightarrow>
           let scores = predict points;
               heap0 = initial_heap num;
               (t0, cool) = initial_temp (sa_temp prm) (sa_n_iter prm) in
           bindS (liftS (offer_all (zip scores points) (heap0, exclusive \<union> snd ` set heap0))) (\<lambda>(b, h, ih).
           bindS (anneal ops predict accept (sa_early_stop prm) cool (sa_n_iter prm) 0 0 t0 rounds
                    \<lparr>lp_points = points, lp_scores = scores, lp_heap = h, lp_in_heap = ih\<rparr>) (\<lambda>r.
             returnS (map_option (\<lambda>ls.
               (if sa_persistent prm then Some (lp_points ls) else saved, sa_result (lp_heap ls))) r))))"

section \<open>The points the search looks at\<close>

text \<open>
  The walk of the search without its heap, as a function: where \<^verbatim>\<open>random_walk\<close> gets from a point on given random
  numbers, where a round gets from all points, and the new points of each round.
\<close>

definition walk_from :: "('s, 'c) space_ops \<Rightarrow> 's \<Rightarrow> (nat \<times> int) list \<Rightarrow> int \<Rightarrow> int option" where
  "walk_from ops s ds p = (case snd (sp_random_walk ops ds p s) of Inl e \<Rightarrow> None | Inr r \<Rightarrow> r)"

fun moved_all :: "((nat \<times> int) list \<Rightarrow> int \<Rightarrow> int option) \<Rightarrow> (nat \<times> int) list list \<Rightarrow> int list \<Rightarrow> int list option" where
  "moved_all W dss [] = Some []"
| "moved_all W [] (p # ps) = None"
| "moved_all W (ds # dss) (p # ps) =
     (case W ds p of None \<Rightarrow> None | Some q \<Rightarrow> map_option ((#) q) (moved_all W dss ps))"

fun sa_path ::
    "((nat \<times> int) list \<Rightarrow> int \<Rightarrow> int option) \<Rightarrow> (int \<Rightarrow> rat) \<Rightarrow> (rat \<Rightarrow> rat \<Rightarrow> rat \<Rightarrow> rat \<Rightarrow> bool) \<Rightarrow> rat \<Rightarrow> rat \<Rightarrow>
     ((nat \<times> int) list list \<times> rat list) list \<Rightarrow> int list \<Rightarrow> int list list option" where
  "sa_path W f accept cool t [] ps = Some []"
| "sa_path W f accept cool t ((dss, us) # rounds) ps =
     (case moved_all W dss ps of
        None \<Rightarrow> None
      | Some qs \<Rightarrow> map_option ((#) qs)
          (sa_path W f accept cool (t - cool) rounds (accepted accept t us (map f qs) (map f ps) qs ps)))"

lemma moved_all_length: "moved_all W dss ps = Some qs \<Longrightarrow> length qs = length ps"
  by (induction W dss ps arbitrary: qs rule: moved_all.induct) (auto split: option.splits)

lemma accepted_scores:
  "length qs = length ps \<Longrightarrow>
   accepted accept t us ns ss (map f qs) (map f ps) = map f (accepted accept t us ns ss qs ps)"
  by (simp add: accepted_def)

section \<open>The heap keeps the best points\<close>

definition best_inv ::
    "(int \<Rightarrow> rat) \<Rightarrow> int set \<Rightarrow> nat \<Rightarrow> int set \<Rightarrow> heap_item list \<times> int set \<Rightarrow> bool" where
  "best_inv f excl num seen hs \<longleftrightarrow>
     (let (heap, in_heap) = hs in
      is_heap id heap \<and> length heap = num \<and> distinct (map snd heap) \<and>
      in_heap = excl \<union> snd ` set heap \<and> snd ` set heap \<inter> excl = {} \<and>
      (\<forall>x \<in> set heap. fst x = None \<and> snd x < 0 \<or> fst x = Some (f (snd x)) \<and> snd x \<in> seen) \<and>
      (\<forall>p \<in> seen. p \<notin> excl \<longrightarrow> p \<in> snd ` set heap \<or> (\<forall>x \<in> set heap. Some (f p) \<le> fst x)))"

lemma lex_fst: "(x :: 'a::linorder \<times> 'b::linorder) \<le> y \<Longrightarrow> fst x \<le> fst y"
  by (cases x; cases y) auto

lemma initial_heap_inv:
  assumes "\<forall>p \<in> excl. 0 \<le> p"
  shows "best_inv f excl num {} (initial_heap num, excl \<union> snd ` set (initial_heap num))"
proof -
  let ?l = "map (\<lambda>i. (None :: rat option, -1 - int i)) [0..<num]"
  have h: "is_heap id (initial_heap num)" "mset (initial_heap num) = mset ?l"
    by (simp_all only: initial_heap_def heapify_correct)
  have "set (initial_heap num) = set ?l" "length (initial_heap num) = num"
    using arg_cong[OF h(2), of set_mset] arg_cong[OF h(2), of size] by simp_all
  moreover have "distinct (map snd (initial_heap num))"
  proof -
    have "mset (map snd (initial_heap num)) = mset (map snd ?l)" by (simp only: mset_map h(2))
    moreover have "distinct (map snd ?l)" by (simp add: distinct_map comp_def inj_on_def)
    ultimately show ?thesis by (metis mset_eq_imp_distinct_iff)
  qed
  ultimately show ?thesis using h(1) assms by (auto simp: best_inv_def)
qed

lemma offer_inv:
  assumes "best_inv f excl num seen (heap, ih)" "0 < num" "0 \<le> p" "\<forall>q \<in> seen. 0 \<le> q"
  shows "\<exists>b heap' ih'. offer (f p, p) (heap, ih) = Inr (b, heap', ih') \<and>
           best_inv f excl num (insert p seen) (heap', ih')"
proof -
  have inv: "is_heap id heap" "length heap = num" "distinct (map snd heap)" "ih = excl \<union> snd ` set heap"
    "snd ` set heap \<inter> excl = {}"
    "\<And>x. x \<in> set heap \<Longrightarrow> fst x = None \<and> snd x < 0 \<or> fst x = Some (f (snd x)) \<and> snd x \<in> seen"
    "\<And>q. q \<in> seen \<Longrightarrow> q \<notin> excl \<Longrightarrow> q \<in> snd ` set heap \<or> (\<forall>x \<in> set heap. Some (f q) \<le> fst x)"
    using assms(1) by (auto simp: best_inv_def)
  have ne: "heap \<noteq> []" using inv(2) assms(2) by auto
  then have nth: "py_nth heap 0 = Inr (heap ! 0)" by simp
  obtain heap' where rep: "heapreplace id (Some (f p), p) heap = Inr (heap ! 0, heap')" "is_heap id heap'"
    "mset heap' = add_mset (Some (f p), p) (mset (tl heap))" "\<forall>y \<in> set heap. heap ! 0 \<le> y"
    using heapreplace_correct[OF inv(1) ne, of "(Some (f p), p)"] by auto
  have top: "fst (heap ! 0) \<le> fst y" if "y \<in> set heap" for y using rep(4) that by (auto intro: lex_fst)
  have heap: "heap = heap ! 0 # tl heap" using ne by (cases heap) auto
  show ?thesis
  proof (cases "Some (f p) > fst (heap ! 0) \<and> p \<notin> ih")
    case False
    then have "offer (f p, p) (heap, ih) = Inr (False, heap, ih)" using nth by (auto simp: offer_def)
    moreover have "p \<notin> excl \<longrightarrow> p \<in> snd ` set heap \<or> (\<forall>x \<in> set heap. Some (f p) \<le> fst x)"
      using False inv(4) top by (auto simp: not_less intro: order.trans)
    ultimately show ?thesis using inv by (auto simp: best_inv_def)
  next
    case True
    let ?pop = "heap ! 0"
    have pop_in: "?pop \<in> set heap" using ne by simp
    then have "offer (f p, p) (heap, ih) = Inr (True, heap', insert p (ih - {snd ?pop}))"
      using True nth rep(1) inv(4) by (simp add: offer_def)
    moreover have set': "set heap' = insert (Some (f p), p) (set (tl heap))"
      using arg_cong[OF rep(3), of set_mset] by simp
    have "best_inv f excl num (insert p seen) (heap', insert p (ih - {snd ?pop}))"
      unfolding best_inv_def Let_def prod.case
    proof (intro conjI)
      show "is_heap id heap'" by (rule rep(2))
      show "length heap' = num" using arg_cong[OF rep(3), of size] inv(2) ne by (cases heap) auto
      have "mset (map snd heap') = mset (p # map snd (tl heap))" using rep(3) by simp
      moreover have "distinct (p # map snd (tl heap))"
        using inv(3,4) True heap by (metis UnCI distinct.simps(2) image_eqI image_set list.map(2) list.set_intros(2))
      ultimately show "distinct (map snd heap')" by (metis mset_eq_imp_distinct_iff)
      have tl: "snd ` set heap = insert (snd ?pop) (snd ` set (tl heap))" "snd ?pop \<notin> snd ` set (tl heap)"
        using heap inv(3) by (metis image_insert list.simps(15), metis distinct.simps(2) image_set list.map(2))
      show "insert p (ih - {snd ?pop}) = excl \<union> snd ` set heap'"
        using tl inv(4,5) set' pop_in by auto
      show "snd ` set heap' \<inter> excl = {}" using inv(4,5) tl True set' by auto
      show "\<forall>x \<in> set heap'. fst x = None \<and> snd x < 0 \<or> fst x = Some (f (snd x)) \<and> snd x \<in> insert p seen"
        using inv(6) set' heap by (metis insertE insertI1 insertI2 list.set_intros(2) prod.sel)
      have low: "\<forall>x \<in> set heap'. fst ?pop \<le> fst x"
        using top True set' heap by (auto dest: list.set_sel(2)[OF ne] less_imp_le)
      show "\<forall>q \<in> insert p seen. q \<notin> excl \<longrightarrow> q \<in> snd ` set heap' \<or> (\<forall>x \<in> set heap'. Some (f q) \<le> fst x)"
      proof (intro ballI impI)
        fix q assume q: "q \<in> insert p seen" "q \<notin> excl"
        show "q \<in> snd ` set heap' \<or> (\<forall>x \<in> set heap'. Some (f q) \<le> fst x)"
        proof (cases "q = p \<or> q \<in> snd ` set (tl heap)")
          case True
          then show ?thesis using set' by auto
        next
          case False
          have "Some (f q) \<le> fst ?pop"
          proof (cases "q = snd ?pop")
            case True
            with inv(6)[OF pop_in] assms(3,4) False q show ?thesis by force
          next
            case neq: False
            with False q inv(7)[of q] tl pop_in show ?thesis by auto
          qed
          with low show ?thesis by (meson order.trans)
        qed
      qed
    qed
    ultimately show ?thesis by blast
  qed
qed

lemma offer_all_inv:
  assumes "best_inv f excl num seen (heap, ih)" "0 < num" "\<forall>p \<in> set ps. 0 \<le> p" "\<forall>q \<in> seen. 0 \<le> q"
  shows "\<exists>b heap' ih'. offer_all (zip (map f ps) ps) (heap, ih) = Inr (b, heap', ih') \<and>
           best_inv f excl num (set ps \<union> seen) (heap', ih')"
  using assms
proof (induction ps arbitrary: heap ih seen)
  case (Cons p ps)
  obtain b1 h1 ih1 where 1: "offer (f p, p) (heap, ih) = Inr (b1, h1, ih1)"
    "best_inv f excl num (insert p seen) (h1, ih1)"
    using offer_inv[OF Cons.prems(1,2), of p] Cons.prems(3,4) by auto
  obtain b2 h2 ih2 where 2: "offer_all (zip (map f ps) ps) (h1, ih1) = Inr (b2, h2, ih2)"
    "best_inv f excl num (set ps \<union> insert p seen) (h2, ih2)"
    using Cons.IH[OF 1(2) Cons.prems(2)] Cons.prems(3,4) by auto
  from 1 2 show ?case by simp
qed (auto intro: exI[of _ False])

text \<open>The flag tells when the heap has not changed.\<close>

lemma offer_kept: "offer sp hs = Inr (False, hs') \<Longrightarrow> hs' = hs"
  by (cases sp; cases hs) (auto simp: offer_def split: if_splits)

lemma offer_all_kept: "offer_all sps hs = Inr (False, hs') \<Longrightarrow> hs' = hs"
proof (induction sps arbitrary: hs)
  case (Cons sp sps)
  obtain b h1 where 1: "offer sp hs = Inr (b, h1)" using Cons.prems by (cases "offer sp hs") auto
  obtain b' h2 where 2: "offer_all sps h1 = Inr (b', h2)" using Cons.prems 1 by (cases "offer_all sps h1") auto
  have "\<not> b" "\<not> b'" "hs' = h2" using Cons.prems 1 2 by auto
  then show ?case using Cons.IH[of h1] offer_kept[of sp hs h1] 1 2 by auto
qed simp

text \<open>The points in a heap, without the entries it was made of.\<close>

definition heap_points :: "heap_item list \<Rightarrow> int set" where
  "heap_points heap = snd ` {x \<in> set heap. fst x \<noteq> None}"

lemma heap_points_seen: "best_inv f excl num seen (heap, ih) \<Longrightarrow> heap_points heap \<subseteq> seen"
  by (auto simp: best_inv_def heap_points_def)

lemma sa_result_points: "set (sa_result heap) \<subseteq> heap_points heap"
proof
  fix p assume "p \<in> set (sa_result heap)"
  then obtain x where "x \<in> set heap" "Some 0 \<le> fst x" "p = snd x" by (auto simp: sa_result_def)
  then show "p \<in> heap_points heap" by (cases "fst x") (auto simp: heap_points_def)
qed

lemma sorted_map_Some: "sorted (map Some xs) = sorted (xs :: 'a::linorder list)"
  by (induction xs) auto

text \<open>What the list of results owes to the invariant.\<close>

lemma sa_result_best:
  assumes "best_inv f excl num seen (heap, ih)" "\<forall>q \<in> seen. 0 \<le> q"
  shows "distinct (sa_result heap)" and "length (sa_result heap) \<le> num"
    and "set (sa_result heap) \<subseteq> {p \<in> seen. 0 \<le> f p} - excl"
    and "sorted (rev (map f (sa_result heap)))"
    and "p \<in> seen \<Longrightarrow> p \<notin> excl \<Longrightarrow> p \<notin> set (sa_result heap) \<Longrightarrow> 0 \<le> f p \<Longrightarrow>
           length (sa_result heap) = num \<and> (\<forall>q \<in> set (sa_result heap). f p \<le> f q)"
proof -
  let ?s = "rev (sort_key fst (rev heap))"
  let ?t = "filter (\<lambda>x. fst x \<ge> Some 0) ?s"
  have inv: "length heap = num" "distinct (map snd heap)" "snd ` set heap \<inter> excl = {}"
    "\<And>x. x \<in> set heap \<Longrightarrow> fst x = None \<and> snd x < 0 \<or> fst x = Some (f (snd x)) \<and> snd x \<in> seen"
    "\<And>q. q \<in> seen \<Longrightarrow> q \<notin> excl \<Longrightarrow> q \<in> snd ` set heap \<or> (\<forall>x \<in> set heap. Some (f q) \<le> fst x)"
    using assms(1) by (auto simp: best_inv_def)
  have res: "sa_result heap = map snd ?t" by (simp add: sa_result_def)
  have ms: "mset (map snd ?s) = mset (map snd heap)" by simp
  then have dis: "distinct (map snd ?s)" using inv(2) by (metis mset_eq_imp_distinct_iff)
  then show "distinct (sa_result heap)" unfolding res by (rule distinct_map_filter)
  have len: "length (sa_result heap) = length (filter (\<lambda>x. fst x \<ge> Some 0) ?s)" by (simp add: res)
  also have "\<dots> \<le> length ?s" by (rule length_filter_le)
  finally show "length (sa_result heap) \<le> num" using inv(1) by simp
  have item: "fst x = Some (f (snd x)) \<and> snd x \<in> seen \<and> x \<in> set heap" if "x \<in> set ?t" for x
    using that inv(4)[of x] by (auto simp: less_eq_option_None_is_None)
  show "set (sa_result heap) \<subseteq> {p \<in> seen. 0 \<le> f p} - excl"
    using item inv(3) unfolding res by fastforce
  have "map Some (map f (map snd (rev ?t))) = map fst (rev ?t)"
    using item by (simp only: map_map) (rule map_cong, simp_all)
  moreover have "sorted (map fst (rev ?t))" by (simp add: rev_filter[symmetric] sorted_filter)
  ultimately have "sorted (map f (map snd (rev ?t)))" by (metis sorted_map_Some)
  then show "sorted (rev (map f (sa_result heap)))" by (simp add: res rev_map)
  show "length (sa_result heap) = num \<and> (\<forall>q \<in> set (sa_result heap). f p \<le> f q)"
    if p: "p \<in> seen" "p \<notin> excl" "p \<notin> set (sa_result heap)" "0 \<le> f p"
  proof -
    have "p \<notin> snd ` set heap"
    proof
      assume "p \<in> snd ` set heap"
      then obtain x where x: "x \<in> set heap" "snd x = p" by auto
      with inv(4)[of x] assms(2) p have "fst x = Some (f p)" by force
      with x p(3,4) show False by (force simp: res)
    qed
    with inv(5)[OF p(1,2)] have low: "\<forall>x \<in> set heap. Some (f p) \<le> fst x" by blast
    have ge: "Some 0 \<le> fst x" if "x \<in> set ?s" for x
    proof -
      have "Some (0 :: rat) \<le> Some (f p)" using p(4) by simp
      also have "\<dots> \<le> fst x" using low that by simp
      finally show ?thesis .
    qed
    then have "?t = ?s" by (simp add: filter_id_conv)
    then have "length (sa_result heap) = num" using inv(1) by (simp add: len)
    moreover have "f p \<le> f q" if "q \<in> set (sa_result heap)" for q
    proof -
      from that obtain x where "x \<in> set ?t" "q = snd x" by (auto simp: res)
      with item[of x] low show ?thesis by auto
    qed
    ultimately show ?thesis by blast
  qed
qed

section \<open>Annealing stays inside the space\<close>

lemma accepted_set:
  "length news = length olds \<Longrightarrow> set (accepted accept t us ns ss news olds) \<subseteq> set news \<union> set olds"
  by (auto simp: accepted_def)

lemma length_accepted [simp]: "length (accepted accept t us ns ss news olds) = length olds"
  by (simp add: accepted_def)

context walk_space
begin

definition inside :: "'w \<Rightarrow> int set \<Rightarrow> bool" where
  "inside w ps \<longleftrightarrow> (\<forall>p \<in> ps. 0 \<le> p \<and> p < npts w \<and> ok w p)"

lemma walk_all_answers:
  assumes "good s0" "good s" "view s = view s0" "inside (view s) (set ps)" "\<forall>ds \<in> set dss. moves (view s) ds"
  shows "answers good view s (walk_all ops dss ps) (moved_all (walk_from ops s0) dss ps) \<and>
           (\<forall>qs. moved_all (walk_from ops s0) dss ps = Some qs \<longrightarrow> inside (view s) (set qs))"
  using assms(2-5)
proof (induction ps arbitrary: s dss)
  case Nil
  then show ?case by (auto simp: answers_def inside_def)
next
  case (Cons p ps)
  show ?case
  proof (cases dss)
    case Nil
    with Cons.prems show ?thesis by (auto simp: answers_def)
  next
    case (Cons ds dss')
    obtain s1 r1 where 1: "sp_random_walk ops ds p s = (s1, Inr r1)" "good s1" "view s1 = view s"
      "\<forall>q. r1 = Some q \<longrightarrow> 0 \<le> q \<and> q < npts (view s) \<and> ok (view s) q"
      using walk_answers[of s p ds] Cons.prems Cons by (auto simp: answers_def inside_def)
    have w: "walk_from ops s0 ds p = r1"
      using walk_determined[OF assms(1) Cons.prems(1,2), of ds p, symmetric] Cons.prems(2,4) 1(1) Cons by (simp add: walk_from_def)
    show ?thesis
    proof (cases r1)
      case None
      with 1 w Cons show ?thesis by (auto simp: answers_def)
    next
      case (Some q)
      have IH: "answers good view s1 (walk_all ops dss' ps) (moved_all (walk_from ops s0) dss' ps) \<and>
           (\<forall>qs. moved_all (walk_from ops s0) dss' ps = Some qs \<longrightarrow> inside (view s1) (set qs))"
        using Cons.prems Cons 1(2,3) by (intro Cons.IH) (auto simp: inside_def)
      then obtain s2 where 2: "walk_all ops dss' ps s1 = (s2, Inr (moved_all (walk_from ops s0) dss' ps))" "good s2" "view s2 = view s"
        using 1(3) by (auto simp: answers_def)
      have "walk_all ops dss (p # ps) s = (s2, Inr (moved_all (walk_from ops s0) dss (p # ps)))"
        using 1 2 w Some Cons by simp
      with IH 1(3,4) 2 w Some Cons show ?thesis by (auto simp: answers_def inside_def)
    qed
  qed
qed

text \<open>
  The loop after the rounds \<open>prior\<close> from \<open>pts\<close>. It looks at the points of \<open>sa_path\<close>; when it stops early, what
  is in the heap was found before the last rounds.
\<close>

definition anneal_at :: "(int \<Rightarrow> rat) \<Rightarrow> int set \<Rightarrow> nat \<Rightarrow> 'w \<Rightarrow> int list \<Rightarrow> int list list \<Rightarrow> nat \<Rightarrow> sa_loop_state \<Rightarrow> bool" where
  "anneal_at f excl num w pts prior k_last ls \<longleftrightarrow>
     best_inv f excl num (set (concat (pts # prior))) (lp_heap ls, lp_in_heap ls) \<and>
     set (lp_points ls) \<subseteq> set (concat (pts # prior)) \<and> inside w (set (concat (pts # prior))) \<and>
     lp_scores ls = map f (lp_points ls) \<and> k_last \<le> length prior \<and>
     heap_points (lp_heap ls) \<subseteq> set (concat (pts # take (Suc k_last) prior))"

lemma anneal_round:
  assumes at: "anneal_at f excl num (view s) pts prior k_last ls" and "0 < num" "inside (view s) (set qs)" "length qs = length (lp_points ls)"
  shows "\<exists>b h ih. offer_all (zip (map f qs) qs) (lp_heap ls, lp_in_heap ls) = Inr (b, h, ih) \<and>
     anneal_at f excl num (view s) pts (prior @ [qs]) (if b then length prior else k_last)
       \<lparr>lp_points = accepted accept t us (map f qs) (lp_scores ls) qs (lp_points ls),
        lp_scores = accepted accept t us (map f qs) (lp_scores ls) (map f qs) (lp_scores ls), lp_heap = h, lp_in_heap = ih\<rparr>"
proof -
  let ?seen = "set (concat (pts # prior))" and ?acc = "accepted accept t us (map f qs) (lp_scores ls)"
  have inv: "best_inv f excl num ?seen (lp_heap ls, lp_in_heap ls)" and pts: "set (lp_points ls) \<subseteq> ?seen"
    and ins: "inside (view s) ?seen" and sc: "lp_scores ls = map f (lp_points ls)" and kl: "k_last \<le> length prior"
    and hp: "heap_points (lp_heap ls) \<subseteq> set (concat (pts # take (Suc k_last) prior))" using at by (simp_all add: anneal_at_def)
  obtain b h ih where o: "offer_all (zip (map f qs) qs) (lp_heap ls, lp_in_heap ls) = Inr (b, h, ih)"
    "best_inv f excl num (set qs \<union> ?seen) (h, ih)"
    using offer_all_inv[OF inv assms(2), of qs] ins assms(3) by (auto simp: inside_def)
  have seen: "set (concat (pts # prior @ [qs])) = set qs \<union> ?seen" by auto
  have "set (?acc qs (lp_points ls)) \<subseteq> set (concat (pts # prior @ [qs]))"
    unfolding seen using accepted_set[OF assms(4)] pts by fastforce
  moreover have "inside (view s) (set (concat (pts # prior @ [qs])))" unfolding seen using ins assms(3) by (auto simp: inside_def)
  moreover have "?acc (map f qs) (lp_scores ls) = map f (?acc qs (lp_points ls))"
    unfolding sc by (rule accepted_scores[OF assms(4)])
  moreover have "heap_points h \<subseteq> set (concat (pts # take (Suc (if b then length prior else k_last)) (prior @ [qs])))"
  proof (cases b)
    case True
    then show ?thesis using heap_points_seen[OF o(2)] seen by simp
  next
    case False
    then have "h = lp_heap ls" using offer_all_kept[of _ _ "(h, ih)"] o(1) by auto
    then show ?thesis using False hp by auto
  qed
  ultimately show ?thesis using o(1) o(2)[folded seen] kl unfolding anneal_at_def by (intro exI[of _ b] exI[of _ h] exI[of _ ih]) simp
qed

lemma anneal_answers:
  assumes "good s0" "0 < num" "good s" "view s = view s0" "\<forall>(dss, us) \<in> set rounds. \<forall>ds \<in> set dss. moves (view s) ds"
    and "anneal_at f excl num (view s) pts prior k_last ls"
  defines "W \<equiv> walk_from ops s0"
  shows "\<exists>r. answers good view s (anneal ops (map f) accept early cool n (length prior) k_last t rounds ls) r \<and>
     (r = None \<longrightarrow> length rounds < n \<or> sa_path W f accept cool t (take n rounds) (lp_points ls) = None) \<and>
     (\<forall>ls'. r = Some ls' \<longrightarrow> (\<exists>m path k'. m \<le> n \<and> m \<le> length rounds \<and>
        sa_path W f accept cool t (take m rounds) (lp_points ls) = Some path \<and>
        anneal_at f excl num (view s) pts (prior @ path) k' ls' \<and> length path = m \<and>
        (m < n \<longrightarrow> k' + early \<le> length prior + m)))"
  using assms(3-6)
proof (induction n arbitrary: s prior k_last t rounds ls)
  case 0
  then show ?case by (intro exI[of _ "Some ls"]) (auto simp: answers_def)
next
  case (Suc n)
  show ?case
  proof (cases "length prior < k_last + early")
    case False
    have "\<exists>m path k'. m \<le> Suc n \<and> m \<le> length rounds \<and> sa_path W f accept cool t (take m rounds) (lp_points ls) = Some path \<and>
        anneal_at f excl num (view s) pts (prior @ path) k' ls \<and> length path = m \<and> (m < Suc n \<longrightarrow> k' + early \<le> length prior + m)"
      using False Suc.prems(4) by (intro exI[of _ "0 :: nat"] exI[of _ "[]"] exI[of _ k_last]) simp
    with False Suc.prems(1) show ?thesis by (intro exI[of _ "Some ls"]) (simp add: answers_def)
  next
    case going: True
    show ?thesis
    proof (cases rounds)
      case Nil
      with going Suc.prems(1) show ?thesis by (intro exI[of _ None]) (simp add: answers_def)
    next
      case (Cons r0 rounds')
      obtain dss us where rounds: "rounds = (dss, us) # rounds'" using Cons by (cases r0) simp
      have pts: "inside (view s) (set (lp_points ls))" using Suc.prems(4) by (auto simp: anneal_at_def inside_def)
      have mv: "\<forall>ds \<in> set dss. moves (view s) ds" using Suc.prems(3) rounds by auto
      obtain s1 where 1: "walk_all ops dss (lp_points ls) s = (s1, Inr (moved_all W dss (lp_points ls)))" "good s1" "view s1 = view s"
        and qs: "\<forall>qs. moved_all W dss (lp_points ls) = Some qs \<longrightarrow> inside (view s) (set qs)"
        using walk_all_answers[OF assms(1) Suc.prems(1,2) pts mv] unfolding W_def by (auto simp: answers_def)
      show ?thesis
      proof (cases "moved_all W dss (lp_points ls)")
        case None
        with 1 going rounds show ?thesis by (intro exI[of _ None]) (auto simp: answers_def)
      next
        case (Some qs)
        have sc: "lp_scores ls = map f (lp_points ls)" using Suc.prems(4) by (simp add: anneal_at_def)
        let ?acc = "accepted accept t us (map f qs) (lp_scores ls)"
        obtain b h ih where o: "offer_all (zip (map f qs) qs) (lp_heap ls, lp_in_heap ls) = Inr (b, h, ih)"
          "anneal_at f excl num (view s) pts (prior @ [qs]) (if b then length prior else k_last)
             \<lparr>lp_points = ?acc qs (lp_points ls), lp_scores = ?acc (map f qs) (lp_scores ls), lp_heap = h, lp_in_heap = ih\<rparr>"
          using anneal_round[OF Suc.prems(4) assms(2), of qs accept t us] qs Some moved_all_length[OF Some] by blast
        let ?k = "if b then length prior else k_last"
        let ?ls = "\<lparr>lp_points = ?acc qs (lp_points ls), lp_scores = ?acc (map f qs) (lp_scores ls), lp_heap = h, lp_in_heap = ih\<rparr>"
        have step: "anneal ops (map f) accept early cool (Suc n) (length prior) k_last t rounds ls s
            = anneal ops (map f) accept early cool n (length (prior @ [qs])) ?k (t - cool) rounds' ?ls s1"
          using going rounds 1(1) Some o(1) by (simp add: Let_def)
        have path: "sa_path W f accept cool t (take (Suc i) rounds) (lp_points ls) =
            map_option ((#) qs) (sa_path W f accept cool (t - cool) (take i rounds') (lp_points ?ls))" for i
          using rounds Some by (simp add: sc)
        have "view s1 = view s0" "\<forall>(dss, us) \<in> set rounds'. \<forall>ds \<in> set dss. moves (view s1) ds"
          "anneal_at f excl num (view s1) pts (prior @ [qs]) ?k ?ls" using Suc.prems(2,3) rounds 1(3) o(2) by simp_all
        from Suc.IH[OF 1(2) this, of "t - cool"] obtain r where r:
          "answers good view s1 (anneal ops (map f) accept early cool n (length (prior @ [qs])) ?k (t - cool) rounds' ?ls) r"
          "r = None \<longrightarrow> length rounds' < n \<or> sa_path W f accept cool (t - cool) (take n rounds') (lp_points ?ls) = None"
          "\<forall>ls'. r = Some ls' \<longrightarrow> (\<exists>m path k'. m \<le> n \<and> m \<le> length rounds' \<and>
             sa_path W f accept cool (t - cool) (take m rounds') (lp_points ?ls) = Some path \<and>
             anneal_at f excl num (view s1) pts ((prior @ [qs]) @ path) k' ls' \<and> length path = m \<and>
             (m < n \<longrightarrow> k' + early \<le> length (prior @ [qs]) + m))" by blast
        have "answers good view s (anneal ops (map f) accept early cool (Suc n) (length prior) k_last t rounds ls) r"
          using r(1) 1(3) step by (simp add: answers_def)
        moreover have "length rounds < Suc n \<or> sa_path W f accept cool t (take (Suc n) rounds) (lp_points ls) = None" if "r = None"
          using r(2) that path[of n] rounds by auto
        moreover have "\<exists>m path k'. m \<le> Suc n \<and> m \<le> length rounds \<and> sa_path W f accept cool t (take m rounds) (lp_points ls) = Some path \<and>
             anneal_at f excl num (view s) pts (prior @ path) k' ls' \<and> length path = m \<and> (m < Suc n \<longrightarrow> k' + early \<le> length prior + m)"
          if "r = Some ls'" for ls'
        proof -
          from r(3)[rule_format, OF that] obtain m path k' where "m \<le> n" "m \<le> length rounds'"
            "sa_path W f accept cool (t - cool) (take m rounds') (lp_points ?ls) = Some path"
            "anneal_at f excl num (view s) pts ((prior @ [qs]) @ path) k' ls'" "length path = m"
            "m < n \<longrightarrow> k' + early \<le> length (prior @ [qs]) + m" unfolding 1(3) by blast
          then show ?thesis using path[of m] rounds by (intro exI[of _ "Suc m"] exI[of _ "qs # path"] exI[of _ k']) auto
        qed
        ultimately show ?thesis by blast
      qed
    qed
  qed
qed

text \<open>The points a search starts from.\<close>

definition sa_start :: "sa_params \<Rightarrow> int list option \<Rightarrow> int list \<Rightarrow> 's \<Rightarrow> int list option" where
  "sa_start prm saved draws s = (if sa_persistent prm \<and> saved \<noteq> None then saved
     else projr (snd (sp_sample_ints ops draws (sa_parallel_size prm) s)))"

lemma sa_start_answers:
  assumes "good s" "0 \<le> sa_parallel_size prm" "sa_parallel_size prm \<le> int (card {i. 0 \<le> i \<and> i < npts (view s) \<and> ok (view s) i})"
    and "\<forall>pts. saved = Some pts \<longrightarrow> inside (view s) (set pts)" "\<forall>d \<in> set draws. 0 \<le> d \<and> d < npts (view s)"
  shows "answers good view s (if sa_persistent prm \<and> saved \<noteq> None then returnS saved else sp_sample_ints ops draws (sa_parallel_size prm))
       (sa_start prm saved draws s) \<and>
     (\<forall>pts. sa_start prm saved draws s = Some pts \<longrightarrow> inside (view s) (set pts)) \<and>
     (sa_start prm saved draws s = None \<longrightarrow> int (card {d \<in> set draws. ok (view s) d}) < sa_parallel_size prm)"
proof (cases "sa_persistent prm \<and> saved \<noteq> None")
  case True
  with assms(1,4) show ?thesis by (auto simp: sa_start_def answers_def)
next
  case False
  from sample_answers[OF assms(1,2,3,5)] obtain r where r: "answers good view s (sp_sample_ints ops draws (sa_parallel_size prm)) r"
    "\<forall>xs. r = Some xs \<longrightarrow> inside (view s) (set xs)" "r = None \<longrightarrow> int (card {d \<in> set draws. ok (view s) d}) < sa_parallel_size prm"
    by (auto simp: inside_def)
  have "sa_start prm saved draws s = r" using False r(1) unfolding sa_start_def answers_def by auto
  with r show ?thesis unfolding if_not_P[OF False] by simp
qed

lemma find_maximums_answers:
  assumes "good s" "0 < num" "\<forall>p \<in> excl. 0 \<le> p"
    and "0 \<le> sa_parallel_size prm" "sa_parallel_size prm \<le> int (card {i. 0 \<le> i \<and> i < npts (view s) \<and> ok (view s) i})"
    and "\<forall>pts. saved = Some pts \<longrightarrow> inside (view s) (set pts)" "\<forall>d \<in> set draws. 0 \<le> d \<and> d < npts (view s)"
    and "\<forall>(dss, us) \<in> set rounds. \<forall>ds \<in> set dss. moves (view s) ds"
    and t0: "initial_temp (sa_temp prm) (sa_n_iter prm) = (t0, cool)"
  defines "n \<equiv> sa_n_iter prm" and "early \<equiv> sa_early_stop prm" and "W \<equiv> walk_from ops s"
  shows "\<exists>r. answers good view s (find_maximums ops prm (map f) accept num excl saved draws rounds) r \<and>
     (case sa_start prm saved draws s of
        None \<Rightarrow> r = None \<and> int (card {d \<in> set draws. ok (view s) d}) < sa_parallel_size prm
      | Some points \<Rightarrow>
          (r = None \<longrightarrow> length rounds < n \<or> sa_path W f accept cool t0 (take n rounds) points = None) \<and>
          (\<forall>saved' res. r = Some (saved', res) \<longrightarrow> (\<exists>m path heap ih.
             m \<le> n \<and> sa_path W f accept cool t0 (take m rounds) points = Some path \<and> length path = m \<and>
             inside (view s) (set (concat (points # path))) \<and> best_inv f excl num (set (concat (points # path))) (heap, ih) \<and>
             res = sa_result heap \<and> (\<forall>pts. saved' = Some pts \<longrightarrow> inside (view s) (set pts)) \<and>
             (m < n \<longrightarrow> early \<le> m \<and> set res \<subseteq> set (concat (points # take (m - early + 1) path))))))"
proof -
  note start = sa_start_answers[OF assms(1,4-7)]
  let ?start = "if sa_persistent prm \<and> saved \<noteq> None then returnS saved else sp_sample_ints ops draws (sa_parallel_size prm)"
  obtain s1 where 1: "?start s = (s1, Inr (sa_start prm saved draws s))" "good s1" "view s1 = view s" using start by (auto simp: answers_def)
  show ?thesis
  proof (cases "sa_start prm saved draws s")
    case None
    with 1 have "answers good view s (find_maximums ops prm (map f) accept num excl saved draws rounds) None"
      by (simp add: answers_def find_maximums_def)
    with None start show ?thesis by auto
  next
    case (Some points)
    with start have pts: "inside (view s) (set points)" by simp
    let ?h0 = "initial_heap num"
    obtain b h ih where 2: "offer_all (zip (map f points) points) (?h0, excl \<union> snd ` set ?h0) = Inr (b, h, ih)"
      "best_inv f excl num (set points \<union> {}) (h, ih)"
      using offer_all_inv[OF initial_heap_inv[OF assms(3), of f num] assms(2), of points] pts by (auto simp: inside_def)
    let ?ls = "\<lparr>lp_points = points, lp_scores = map f points, lp_heap = h, lp_in_heap = ih\<rparr>"
    have "anneal_at f excl num (view s1) points [] 0 ?ls"
      using 2(2) pts 1(3) heap_points_seen[OF 2(2)] by (simp add: anneal_at_def)
    from anneal_answers[OF assms(1,2) 1(2,3) _ this, of rounds accept early cool n t0] assms(8) 1(3) obtain r where
      r: "answers good view s1 (anneal ops (map f) accept early cool n 0 0 t0 rounds ?ls) r"
        "r = None \<longrightarrow> length rounds < n \<or> sa_path W f accept cool t0 (take n rounds) points = None"
        "\<forall>ls'. r = Some ls' \<longrightarrow> (\<exists>m path k'. m \<le> n \<and> m \<le> length rounds \<and> sa_path W f accept cool t0 (take m rounds) points = Some path \<and>
           anneal_at f excl num (view s) points path k' ls' \<and> length path = m \<and> (m < n \<longrightarrow> k' + early \<le> m))"
      by (auto simp: W_def)
    then obtain s2 where 3: "anneal ops (map f) accept early cool n 0 0 t0 rounds ?ls s1 = (s2, Inr r)" "good s2" "view s2 = view s"
      using 1(3) by (auto simp: answers_def)
    let ?r = "map_option (\<lambda>ls. (if sa_persistent prm then Some (lp_points ls) else saved, sa_result (lp_heap ls))) r"
    have eval: "answers good view s (find_maximums ops prm (map f) accept num excl saved draws rounds) ?r"
      using 1(1) Some 2(1) t0 3 by (simp add: find_maximums_def Let_def answers_def n_def early_def)
    have "\<exists>m path heap ih. m \<le> n \<and> sa_path W f accept cool t0 (take m rounds) points = Some path \<and> length path = m \<and>
             inside (view s) (set (concat (points # path))) \<and> best_inv f excl num (set (concat (points # path))) (heap, ih) \<and>
             res = sa_result heap \<and> (\<forall>pts. saved' = Some pts \<longrightarrow> inside (view s) (set pts)) \<and>
             (m < n \<longrightarrow> early \<le> m \<and> set res \<subseteq> set (concat (points # take (m - early + 1) path)))"
      if res: "?r = Some (saved', res)" for saved' res
    proof -
      from res obtain ls where ls: "r = Some ls" "res = sa_result (lp_heap ls)"
        "saved' = (if sa_persistent prm then Some (lp_points ls) else saved)" by auto
      with r(3) obtain m path k' where m: "m \<le> n" "sa_path W f accept cool t0 (take m rounds) points = Some path" "length path = m"
        "anneal_at f excl num (view s) points path k' ls" "m < n \<longrightarrow> k' + early \<le> m" by blast
      have saved': "\<forall>pts. saved' = Some pts \<longrightarrow> inside (view s) (set pts)"
        using m(4) ls(3) assms(6) by (auto simp: anneal_at_def inside_def split: if_splits)
      have "set res \<subseteq> set (concat (points # take (m - early + 1) path))" "early \<le> m" if "m < n"
      proof -
        from that m(5) have k: "Suc k' \<le> m - early + 1" "early \<le> m" by simp_all
        have "heap_points (lp_heap ls) \<subseteq> set (concat (points # take (Suc k') path))" using m(4) by (simp add: anneal_at_def)
        then have "set res \<subseteq> set (concat (points # take (Suc k') path))" using sa_result_points[of "lp_heap ls"] ls(2) by simp
        also have "\<dots> \<subseteq> set (concat (points # take (m - early + 1) path))"
          using set_take_subset_set_take[OF k(1), of path] by auto
        finally show "set res \<subseteq> set (concat (points # take (m - early + 1) path))" .
        show "early \<le> m" by (rule k(2))
      qed
      with m saved' ls(2) show ?thesis unfolding anneal_at_def
        by (intro exI[of _ m] exI[of _ path] exI[of _ "lp_heap ls"] exI[of _ "lp_in_heap ls"]) simp
    qed
    with eval r(2) Some show ?thesis by (intro exI[of _ ?r]) auto
  qed
qed

end

text \<open>C14: The simulated annealing search over a configuration space, for a model that scores points one by one. It never
  raises. It starts from the saved points, or from a sample if there are none, and returns as soon as the random numbers
  suffice: only if the draws hold too few valid indices for the sample, or the walks of \<^verbatim>\<open>n_iter\<close> rounds do not all
  return, there may be no result. The points it looks at are those of the walk \<open>sa_path\<close> over some number m of
  rounds, and the result is the list of the best of them: distinct indices outside the excluded set, at most \<^verbatim>\<open>num\<close>, by
  descending score, and a point it has looked at with a score of at least 0 that is not excluded is missing only when the
  list is full of points that score at least as high. If it stops before \<^verbatim>\<open>n_iter\<close> rounds, it has made at least
  \<^verbatim>\<open>early_stop\<close> of them and found nothing of its result in the last \<^verbatim>\<open>early_stop\<close> - 1. The saved points are valid indices.\<close>

theorem annealing_returns_best_seen:
  assumes "proper cs" "coherent cs" "0 < num" "\<forall>p \<in> excl. 0 \<le> p"
    and "0 \<le> sa_parallel_size prm"
      "sa_parallel_size prm \<le> int (card {i. 0 \<le> i \<and> i < num_points cs \<and> valid_at cs i})"
    and "\<forall>pts p. saved = Some pts \<longrightarrow> p \<in> set pts \<longrightarrow> 0 \<le> p \<and> p < num_points cs \<and> valid_at cs p"
    and "\<forall>d \<in> set draws. 0 \<le> d \<and> d < num_points cs"
    and "\<forall>(dss, us) \<in> set rounds. \<forall>ds \<in> set dss. walk_draws cs ds"
    and "initial_temp (sa_temp prm) (sa_n_iter prm) = (t0, cool)"
  shows "\<exists>cs' r. find_maximums config_ops prm (map f) accept num excl saved draws rounds cs = (cs', Inr r) \<and>
     (case (if sa_persistent prm \<and> saved \<noteq> None then saved else projr (snd (sample_ints draws (sa_parallel_size prm) cs))) of
        None \<Rightarrow> r = None \<and> int (card {d \<in> set draws. valid_at cs d}) < sa_parallel_size prm
      | Some points \<Rightarrow>
          (r = None \<longrightarrow> length rounds < sa_n_iter prm \<or>
             sa_path (walk_from config_ops cs) f accept cool t0 (take (sa_n_iter prm) rounds) points = None) \<and>
          (\<forall>saved' res. r = Some (saved', res) \<longrightarrow>
             (\<forall>pts. saved' = Some pts \<longrightarrow> (\<forall>p \<in> set pts. 0 \<le> p \<and> p < num_points cs \<and> valid_at cs p)) \<and>
             distinct res \<and> length res \<le> num \<and> sorted (rev (map f res)) \<and>
             (\<exists>m path. m \<le> sa_n_iter prm \<and> length path = m \<and>
                sa_path (walk_from config_ops cs) f accept cool t0 (take m rounds) points = Some path \<and>
                (let seen = set (concat (points # path)) in
                   (\<forall>p \<in> seen. 0 \<le> p \<and> p < num_points cs \<and> valid_at cs p) \<and> set res \<subseteq> {p \<in> seen. 0 \<le> f p} - excl \<and>
                   (\<forall>p \<in> seen. p \<notin> excl \<longrightarrow> p \<notin> set res \<longrightarrow> 0 \<le> f p \<longrightarrow> length res = num \<and> (\<forall>q \<in> set res. f p \<le> f q))) \<and>
                (m < sa_n_iter prm \<longrightarrow> sa_early_stop prm \<le> m \<and>
                   set res \<subseteq> set (concat (points # take (m - sa_early_stop prm + 1) path))))))"
proof -
  let ?start = "if sa_persistent prm \<and> saved \<noteq> None then saved else projr (snd (sample_ints draws (sa_parallel_size prm) cs))"
  let ?W = "walk_from config_ops cs"
  have good: "space_good cs" using assms(1,2) by (simp add: space_good_def)
  have start: "cfgw.sa_start prm saved draws cs = ?start" unfolding cfgw.sa_start_def by (auto simp: config_ops_def)
  have "\<forall>(dss, us) \<in> set rounds. \<forall>ds \<in> set dss. walk_draws (clear_cache cs) ds" using assms(9) by (auto simp: walk_draws_def)
  moreover have "\<forall>pts. saved = Some pts \<longrightarrow> cfgw.inside (clear_cache cs) (set pts)" using assms(7) by (auto simp: cfgw.inside_def)
  ultimately obtain r where r: "answers space_good clear_cache cs (find_maximums config_ops prm (map f) accept num excl saved draws rounds) r"
    "case ?start of
        None \<Rightarrow> r = None \<and> int (card {d \<in> set draws. valid_at cs d}) < sa_parallel_size prm
      | Some points \<Rightarrow>
          (r = None \<longrightarrow> length rounds < sa_n_iter prm \<or> sa_path ?W f accept cool t0 (take (sa_n_iter prm) rounds) points = None) \<and>
          (\<forall>saved' res. r = Some (saved', res) \<longrightarrow> (\<exists>m path heap ih.
             m \<le> sa_n_iter prm \<and> sa_path ?W f accept cool t0 (take m rounds) points = Some path \<and> length path = m \<and>
             cfgw.inside (clear_cache cs) (set (concat (points # path))) \<and> best_inv f excl num (set (concat (points # path))) (heap, ih) \<and>
             res = sa_result heap \<and> (\<forall>pts. saved' = Some pts \<longrightarrow> cfgw.inside (clear_cache cs) (set pts)) \<and>
             (m < sa_n_iter prm \<longrightarrow> sa_early_stop prm \<le> m \<and> set res \<subseteq> set (concat (points # take (m - sa_early_stop prm + 1) path)))))"
    using cfgw.find_maximums_answers[OF good assms(3,4,5), of saved draws rounds t0 cool f accept] assms(6,8,10)
    unfolding view_determines start by blast
  obtain cs' where cs': "find_maximums config_ops prm (map f) accept num excl saved draws rounds cs = (cs', Inr r)"
    using r(1) by (auto simp: answers_def)
  show ?thesis
  proof (cases ?start)
    case None
    with r(2) cs' show ?thesis by simp
  next
    case (Some points)
    have "(\<forall>pts. saved' = Some pts \<longrightarrow> (\<forall>p \<in> set pts. 0 \<le> p \<and> p < num_points cs \<and> valid_at cs p)) \<and>
             distinct res \<and> length res \<le> num \<and> sorted (rev (map f res)) \<and>
             (\<exists>m path. m \<le> sa_n_iter prm \<and> length path = m \<and> sa_path ?W f accept cool t0 (take m rounds) points = Some path \<and>
                (let seen = set (concat (points # path)) in
                   (\<forall>p \<in> seen. 0 \<le> p \<and> p < num_points cs \<and> valid_at cs p) \<and> set res \<subseteq> {p \<in> seen. 0 \<le> f p} - excl \<and>
                   (\<forall>p \<in> seen. p \<notin> excl \<longrightarrow> p \<notin> set res \<longrightarrow> 0 \<le> f p \<longrightarrow> length res = num \<and> (\<forall>q \<in> set res. f p \<le> f q))) \<and>
                (m < sa_n_iter prm \<longrightarrow> sa_early_stop prm \<le> m \<and> set res \<subseteq> set (concat (points # take (m - sa_early_stop prm + 1) path))))"
      if res: "r = Some (saved', res)" for saved' res
    proof -
      from r(2) res Some obtain m path heap ih where h: "m \<le> sa_n_iter prm" "length path = m"
        "sa_path ?W f accept cool t0 (take m rounds) points = Some path"
        "cfgw.inside (clear_cache cs) (set (concat (points # path)))" "best_inv f excl num (set (concat (points # path))) (heap, ih)"
        "res = sa_result heap" "\<forall>pts. saved' = Some pts \<longrightarrow> cfgw.inside (clear_cache cs) (set pts)"
        "m < sa_n_iter prm \<longrightarrow> sa_early_stop prm \<le> m \<and> set res \<subseteq> set (concat (points # take (m - sa_early_stop prm + 1) path))"
        by auto
      have nonneg: "\<forall>q \<in> set (concat (points # path)). 0 \<le> q" using h(4) by (simp add: cfgw.inside_def)
      note best = sa_result_best[OF h(5) nonneg, folded h(6)]
      have ins: "\<forall>p \<in> A. 0 \<le> p \<and> p < num_points cs \<and> valid_at cs p" if "cfgw.inside (clear_cache cs) A" for A
        using that by (simp add: cfgw.inside_def)
      have sv: "\<forall>pts. saved' = Some pts \<longrightarrow> (\<forall>p \<in> set pts. 0 \<le> p \<and> p < num_points cs \<and> valid_at cs p)"
        using h(7) ins by blast
      have miss: "\<forall>p \<in> set (concat (points # path)). p \<notin> excl \<longrightarrow> p \<notin> set res \<longrightarrow> 0 \<le> f p \<longrightarrow>
          length res = num \<and> (\<forall>q \<in> set res. f p \<le> f q)" using best(5) by blast
      show ?thesis unfolding Let_def
        by (intro conjI exI[of _ m] exI[of _ path]) (fact sv best(1-4) h(1-3,8) ins[OF h(4)] miss)+
    qed
    with r(2) cs' Some show ?thesis by (intro exI[of _ cs'] exI[of _ r]) simp
  qed
qed

lemma demo_valid_set: "{i. 0 \<le> i \<and> i < num_points demo_space \<and> valid_at demo_space i} = {0, 2, 4}"
proof -
  have "0 \<le> i \<and> i < 6 \<and> i mod 2 \<noteq> 1 \<longleftrightarrow> i = 0 \<or> i = 2 \<or> i = (4 :: int)" for i by presburger
  then show ?thesis by (auto simp: demo_fields demo_valid)
qed

lemma demo_walk:
  "walk_from config_ops demo_space [(1, 1)] 0 = Some 2" "walk_from config_ops demo_space [(1, 2)] 2 = Some 4"
  using snd_yields[OF random_walk_yields[OF demo_proper demo_coherent, of "[(1, 1)]" 0]]
    snd_yields[OF random_walk_yields[OF demo_proper demo_coherent, of "[(1, 2)]" 2]]
  by (simp_all add: walk_from_def config_ops_def demo_fields walk_draws_def walk_done_def demo_valid)

theorem annealing_returns_best_seen_witness:
  "\<exists>cs' saved'. find_maximums config_ops
      \<lparr>sa_n_iter = 1, sa_temp = Cooling 1 0, sa_persistent = True, sa_parallel_size = 2, sa_early_stop = 50\<rparr>
      (map rat_of_int) (\<lambda>n o' t u. True) 2 {0} (Some [0, 2]) [] [([[(1, 1)], [(1, 2)]], [0, 0])] demo_space
        = (cs', Inr (Some (saved', [4, 2])))"
proof -
  let ?prm = "\<lparr>sa_n_iter = 1, sa_temp = Cooling 1 0, sa_persistent = True, sa_parallel_size = 2, sa_early_stop = 50\<rparr>"
  let ?rounds = "[([[(1, 1)], [(1, 2)]], [0, 0])] :: ((nat \<times> int) list list \<times> rat list) list"
  let ?path = "\<lambda>t rs. sa_path (walk_from config_ops demo_space) rat_of_int (\<lambda>n o' t u. True) (1 / 2) t rs [0, 2]"
  have temp: "initial_temp (sa_temp ?prm) (sa_n_iter ?prm) = (1, 1 / 2)" by (simp add: initial_temp_def)
  have path: "?path 1 ?rounds = Some [[2, 4]]" by (simp add: demo_walk del: One_nat_def)
  have size: "0 \<le> sa_parallel_size ?prm" "sa_parallel_size ?prm \<le> int (card {i. 0 \<le> i \<and> i < num_points demo_space \<and> valid_at demo_space i})"
    by (simp_all add: demo_valid_set)
  have saved: "\<forall>pts p. Some [0, 2] = Some pts \<longrightarrow> p \<in> set pts \<longrightarrow> 0 \<le> p \<and> p < num_points demo_space \<and> valid_at demo_space p"
    by (auto simp: demo_fields demo_valid)
  have rounds: "\<forall>(dss, us) \<in> set ?rounds. \<forall>ds \<in> set dss. walk_draws demo_space ds" by (simp add: walk_draws_def demo_fields)
  have start: "(if sa_persistent ?prm \<and> Some [0, 2] \<noteq> None then Some [0, 2 :: int] else x) = Some [0, 2]" for x by simp
  have hyps: "0 < (2 :: nat)" "\<forall>p \<in> {0}. 0 \<le> (p :: int)" "\<forall>d \<in> set []. 0 \<le> d \<and> d < num_points demo_space" by simp_all
  note search = annealing_returns_best_seen[OF demo_proper demo_coherent hyps(1,2) size saved hyps(3) rounds temp,
      of rat_of_int "\<lambda>n o' t u. True", unfolded start option.case Let_def]
  from search obtain cs' r where r:
    "find_maximums config_ops ?prm (map rat_of_int) (\<lambda>n o' t u. True) 2 {0} (Some [0, 2]) [] ?rounds demo_space = (cs', Inr r)"
    and none: "r = None \<longrightarrow> length ?rounds < sa_n_iter ?prm \<or> ?path 1 (take (sa_n_iter ?prm) ?rounds) = None"
    and some: "\<forall>saved' res. r = Some (saved', res) \<longrightarrow>
      (\<forall>pts. saved' = Some pts \<longrightarrow> (\<forall>p \<in> set pts. 0 \<le> p \<and> p < num_points demo_space \<and> valid_at demo_space p)) \<and> distinct res \<and> length res \<le> 2 \<and> sorted (rev (map rat_of_int res)) \<and>
      (\<exists>m path. m \<le> sa_n_iter ?prm \<and> length path = m \<and> ?path 1 (take m ?rounds) = Some path \<and>
         ((\<forall>p \<in> set (concat ([0, 2] # path)). 0 \<le> p \<and> p < num_points demo_space \<and> valid_at demo_space p) \<and>
          set res \<subseteq> {p \<in> set (concat ([0, 2] # path)). 0 \<le> rat_of_int p} - {0} \<and>
          (\<forall>p \<in> set (concat ([0, 2] # path)). p \<notin> {0} \<longrightarrow> p \<notin> set res \<longrightarrow> 0 \<le> rat_of_int p \<longrightarrow>
             length res = 2 \<and> (\<forall>q \<in> set res. rat_of_int p \<le> rat_of_int q))) \<and>
         (m < sa_n_iter ?prm \<longrightarrow> sa_early_stop ?prm \<le> m \<and>
            set res \<subseteq> set (concat ([0, 2] # take (m - sa_early_stop ?prm + 1) path))))"
    by (elim exE conjE) (rule that; assumption)
  have "r \<noteq> None" using none path by simp
  then obtain saved' res where res: "r = Some (saved', res)" by auto
  from some[rule_format, OF res, unfolded sa_params.simps] obtain m path where m: "distinct res" "length res \<le> 2" "sorted (rev (map rat_of_int res))"
    "m \<le> 1" "?path 1 (take m ?rounds) = Some path" "m < 1 \<longrightarrow> 50 \<le> m \<and> set res \<subseteq> set (concat ([0, 2] # take (m - 50 + 1) path))"
    "set res \<subseteq> {p \<in> set (concat ([0, 2] # path)). 0 \<le> rat_of_int p} - {0}"
    "\<forall>p \<in> set (concat ([0, 2] # path)). p \<notin> {0} \<longrightarrow> p \<notin> set res \<longrightarrow> 0 \<le> rat_of_int p \<longrightarrow> length res = 2 \<and> (\<forall>q \<in> set res. rat_of_int p \<le> rat_of_int q)"
    by (elim exE conjE) (rule that; assumption)
  have "m = 1" using m(4) m(6) by (cases "m < 1") auto
  with m(5) path have path': "path = [[2, 4]]" by simp
  have sub: "set res \<subseteq> {2, 4}" using m(7) unfolding path' by auto
  have "2 \<in> set res \<or> length res = 2" "4 \<in> set res \<or> length res = 2" using m(8) unfolding path' by auto
  moreover have "set res = {2, 4}" if "length res = 2"
    using sub card_subset_eq[of "{2, 4 :: int}" "set res"] that m(1) by (simp add: distinct_card)
  ultimately have set: "set res = {2, 4}" using sub by auto
  then have "length res = 2" using distinct_card[OF m(1)] by simp
  then obtain a b where ab: "res = [a, b]" by (auto simp: numeral_2_eq_2 length_Suc_conv)
  with set m(3) have "res = [4, 2]" by (auto simp: doubleton_eq_iff)
  with r(1) res show ?thesis by blast
qed

end
