(* ===== verification/Index_Tuner.thy ===== *)
theory Index_Tuner
  imports Space_Interface
begin

text \<open>
  The index based tuners of \<^verbatim>\<open>python/tvm/autotvm/tuner/index_based_tuner.py\<close>, over the operations
  of any space. The state of a method is the space together with the tuner's own fields.
\<close>

section \<open>Tuners\<close>

text \<open>\<^verbatim>\<open>visited\<close> holds what the tuner appends; the grid search may append \<^verbatim>\<open>None\<close>.\<close>

record idx_tuner =
  visited :: "int option list"
  begin_idx :: int
  end_idx :: int
  tn_range_length :: int
  visited_max :: int
  cur_index :: "int option"

definition on_space :: "('s, 'a) st \<Rightarrow> ('s \<times> 't, 'a) st" where
  "on_space m = (\<lambda>(s, t). let (s', r) = m s in ((s', t), r))"

definition on_tuner :: "('t \<Rightarrow> 't) \<Rightarrow> ('s \<times> 't, unit) st" where
  "on_tuner f = (\<lambda>(s, t). ((s, f t), Inr ()))"

definition index_base_init :: "('s, 'c) space_ops \<Rightarrow> (int \<times> int) option \<Rightarrow> ('s, idx_tuner) st" where
  "index_base_init ops range_idx =
     bindS (case range_idx of
              Some p \<Rightarrow> returnS p
            | None \<Rightarrow> bindS (sp_range_length ops) (\<lambda>r. returnS (0, r - 1))) (\<lambda>(b, e0).
     bindS (liftS (assertE (b \<ge> 0))) (\<lambda>_.
     let e = e0 + 1 in
     bindS (sp_range_length ops) (\<lambda>r.
     bindS (liftS (assertE (e \<le> r))) (\<lambda>_.
     bindS (liftS (assertE (e - b > 0))) (\<lambda>_.
     bindS (sp_subrange_length ops b e) (\<lambda>n.
       returnS \<lparr>visited = [], begin_idx = b, end_idx = e, tn_range_length = e - b,
                visited_max = n, cur_index = None\<rparr>))))))"

definition idx_has_next :: "idx_tuner \<Rightarrow> bool" where
  "idx_has_next t \<longleftrightarrow> int (length (visited t)) < visited_max t"

definition grid_init :: "('s, 'c) space_ops \<Rightarrow> (int \<times> int) option \<Rightarrow> ('s, idx_tuner) st" where
  "grid_init ops range_idx =
     bindS (index_base_init ops range_idx) (\<lambda>t.
     bindS (sp_is_index_valid ops (begin_idx t)) (\<lambda>b.
       if b then returnS (t\<lparr>cur_index := Some (begin_idx t)\<rparr>)
       else bindS (sp_get_next_index ops (begin_idx t) 1 (Some (begin_idx t)) (Some (end_idx t))) (\<lambda>i.
              returnS (t\<lparr>cur_index := i\<rparr>))))"

text \<open>One batch: \<open>n\<close> is \<^verbatim>\<open>batch_size - len(ret)\<close>. \<^verbatim>\<open>space.get(None)\<close> raises \<^verbatim>\<open>TypeError\<close>.\<close>

fun grid_next_batch :: "('s, 'c) space_ops \<Rightarrow> nat \<Rightarrow> ('s \<times> idx_tuner, 'c list) st" where
  "grid_next_batch ops 0 = returnS []"
| "grid_next_batch ops (Suc n) =
     bindS (getS snd) (\<lambda>t.
       if \<not> idx_has_next t then returnS []
       else bindS (on_tuner (\<lambda>t. t\<lparr>visited := visited t @ [cur_index t]\<rparr>)) (\<lambda>_.
         case cur_index t of
           None \<Rightarrow> liftS (Inl TypeError)
         | Some i \<Rightarrow>
             bindS (on_space (sp_get ops i)) (\<lambda>c.
             bindS (on_space (sp_get_next_index ops i 1 (Some (begin_idx t)) (Some (end_idx t)))) (\<lambda>j.
             bindS (on_tuner (\<lambda>t. t\<lparr>cur_index := j\<rparr>)) (\<lambda>_.
             bindS (grid_next_batch ops n) (\<lambda>cs. returnS (c # cs)))))))"

text \<open>
  The random tuner: one list of draws for each call of \<^verbatim>\<open>get_rand_index\<close>; \<open>None\<close> when the lists or
  the draws of a call run out while the loop is running.
\<close>

fun random_next_batch ::
    "('s, 'c) space_ops \<Rightarrow> int list list \<Rightarrow> nat \<Rightarrow> ('s \<times> idx_tuner, 'c list option) st" where
  "random_next_batch ops dss 0 = returnS (Some [])"
| "random_next_batch ops [] (Suc n) =
     bindS (getS snd) (\<lambda>t. returnS (if idx_has_next t then None else Some []))"
| "random_next_batch ops (ds # dss) (Suc n) =
     bindS (getS snd) (\<lambda>t.
       if \<not> idx_has_next t then returnS (Some [])
       else bindS (on_space (sp_get_rand_index ops ds (Some (begin_idx t)) (Some (end_idx t))
                      (List.map_filter id (visited t)))) (\<lambda>i.
         case i of
           None \<Rightarrow> returnS None
         | Some i \<Rightarrow>
             bindS (on_tuner (\<lambda>t. t\<lparr>visited := visited t @ [Some i]\<rparr>)) (\<lambda>_.
             bindS (on_space (sp_get ops i)) (\<lambda>c.
             bindS (random_next_batch ops dss n) (\<lambda>r. returnS (map_option ((#) c) r))))))"

lemma on_space_apply [simp]: "m s = (s', r) \<Longrightarrow> on_space m (s, t) = ((s', t), r)"
  by (simp add: on_space_def)

lemma on_tuner_apply [simp]: "on_tuner f (s, t) = ((s, f t), Inr ())"
  by (simp add: on_tuner_def)

text \<open>What a client sees that asks for batches of given sizes one after the other.\<close>

fun in_batches :: "(nat \<Rightarrow> ('s, 'c list) st) \<Rightarrow> nat list \<Rightarrow> ('s, 'c list) st" where
  "in_batches next [] = returnS []"
| "in_batches next (n # ns) =
     bindS (next n) (\<lambda>cs. bindS (in_batches next ns) (\<lambda>cs'. returnS (cs @ cs')))"

fun random_in_batches ::
    "('s, 'c) space_ops \<Rightarrow> (int list list \<times> nat) list \<Rightarrow> ('s \<times> idx_tuner, 'c list option) st" where
  "random_in_batches ops [] = returnS (Some [])"
| "random_in_batches ops ((dss, n) # bs) =
     bindS (random_next_batch ops dss n) (\<lambda>r.
       case r of
         None \<Rightarrow> returnS None
       | Some cs \<Rightarrow> bindS (random_in_batches ops bs) (\<lambda>r'. returnS (map_option ((@) cs) r')))"

section \<open>Grid search\<close>

context index_space
begin

text \<open>The tuner has visited the first \<open>k\<close> valid indices of its range and stands at the next one.\<close>

definition grid_at :: "'w \<Rightarrow> idx_tuner \<Rightarrow> nat \<Rightarrow> bool" where
  "grid_at w t k \<longleftrightarrow>
     (let L = valids w (begin_idx t) (end_idx t) in
      0 \<le> begin_idx t \<and> begin_idx t < end_idx t \<and> end_idx t \<le> npts w \<and>
      k \<le> length L \<and> visited t = map Some (take k L) \<and> visited_max t = int (length L) \<and>
      cur_index t = (if k < length L then Some (L ! k) else None))"

lemma base_init_answers:
  assumes "good s" "range_idx = Some (a, b) \<or> range_idx = None \<and> a = 0 \<and> b = npts (view s) - 1"
    and "0 \<le> a" "a \<le> b" "b < npts (view s)"
  shows "answers good view s (index_base_init ops range_idx)
           \<lparr>visited = [], begin_idx = a, end_idx = b + 1, tn_range_length = b + 1 - a,
            visited_max = int (length (valids (view s) a (b + 1))), cur_index = None\<rparr>"
proof -
  obtain s1 where 1: "(case range_idx of Some p \<Rightarrow> returnS p
      | None \<Rightarrow> bindS (sp_range_length ops) (\<lambda>r. returnS (0, r - 1))) s = (s1, Inr (a, b))"
      "good s1" "view s1 = view s"
    using assms(1,2) range_answers[OF assms(1)] by (cases range_idx) (auto simp: answers_def)
  obtain s2 where 2: "sp_range_length ops s1 = (s2, Inr (npts (view s)))" "good s2" "view s2 = view s"
    using range_answers[OF 1(2)] 1(3) by (auto simp: answers_def)
  obtain s3 where 3: "sp_subrange_length ops a (b + 1) s2 = (s3, Inr (int (length (valids (view s) a (b + 1)))))"
      "good s3" "view s3 = view s"
    using subrange_answers[OF 2(2), of a "b + 1"] 2(3) assms(3-5) by (auto simp: answers_def)
  show ?thesis
    using 1 2 3 assms(3-5) by (auto simp: answers_def index_base_init_def Let_def)
qed

lemma grid_init_answers:
  assumes "good s" "range_idx = Some (a, b) \<or> range_idx = None \<and> a = 0 \<and> b = npts (view s) - 1"
    and "0 \<le> a" "a \<le> b" "b < npts (view s)"
  shows "\<exists>t. answers good view s (grid_init ops range_idx) t \<and> grid_at (view s) t 0 \<and>
           begin_idx t = a \<and> end_idx t = b + 1"
proof -
  let ?w = "view s" and ?L = "valids (view s) a (b + 1)"
  let ?t = "\<lparr>visited = [], begin_idx = a, end_idx = b + 1, tn_range_length = b + 1 - a,
      visited_max = int (length ?L), cur_index = None\<rparr>"
  obtain s1 where 1: "index_base_init ops range_idx s = (s1, Inr ?t)" "good s1" "view s1 = ?w"
    using base_init_answers[OF assms] by (auto simp: answers_def)
  obtain s2 where 2: "sp_is_index_valid ops a s1 = (s2, Inr (ok ?w a))" "good s2" "view s2 = ?w"
    using valid_answers[OF 1(2), of a] 1(3) assms(3-5) by (auto simp: answers_def)
  have L: "?L = (if ok ?w a then a # filter (ok ?w) [a + 1..b] else filter (ok ?w) [a + 1..b])"
    using assms(4) by (simp add: upto_rec1)
  let ?i = "if ?L = [] then None else Some (?L ! 0)"
  show ?thesis
  proof (cases "ok ?w a")
    case True
    with 1 2 L assms(3-5) show ?thesis
      by (intro exI[of _ "?t\<lparr>cur_index := Some a\<rparr>"]) (auto simp: answers_def grid_init_def grid_at_def Let_def)
  next
    case False
    obtain s3 where 3: "sp_get_next_index ops a 1 (Some a) (Some (b + 1)) s2
        = (s3, Inr (find (ok ?w) [a + 1..b]))" "good s3" "view s3 = ?w"
      using next_answers[OF 2(2), of a a "b + 1"] 2(3) assms(3-5) by (auto simp: answers_def)
    have "find (ok ?w) [a + 1..b] = ?i"
      using False L by (simp add: find_is_hd_filter split: list.splits)
    with False 1 2 3 L assms(3-5) show ?thesis
      by (intro exI[of _ "?t\<lparr>cur_index := ?i\<rparr>"])
         (auto simp: answers_def grid_init_def grid_at_def Let_def)
  qed
qed

lemma grid_at_has_next: "grid_at w t k \<Longrightarrow> idx_has_next t \<longleftrightarrow> k < length (valids w (begin_idx t) (end_idx t))"
  by (auto simp: grid_at_def idx_has_next_def Let_def)

lemma grid_batch:
  assumes "good s" "grid_at (view s) t k"
  defines "L \<equiv> valids (view s) (begin_idx t) (end_idx t)"
  shows "\<exists>s' t'. grid_next_batch ops n (s, t) =
             ((s', t'), Inr (map (conf (view s)) (take n (drop k L)))) \<and>
           good s' \<and> view s' = view s \<and> grid_at (view s) t' (min (k + n) (length L)) \<and>
           begin_idx t' = begin_idx t \<and> end_idx t' = end_idx t"
  using assms(1,2) unfolding L_def
proof (induction n arbitrary: s t k)
  case 0
  then have "k \<le> length (valids (view s) (begin_idx t) (end_idx t))" by (simp add: grid_at_def Let_def)
  with 0 show ?case by (auto simp: min_absorb1)
next
  case (Suc n)
  let ?w = "view s" and ?L = "valids (view s) (begin_idx t) (end_idx t)"
  have k: "k \<le> length ?L" using Suc.prems(2) by (simp add: grid_at_def Let_def)
  show ?case
  proof (cases "k < length ?L")
    case False
    with k have "k = length ?L" by simp
    moreover from False Suc.prems(2) have "\<not> idx_has_next t" by (simp add: grid_at_has_next)
    ultimately show ?thesis using Suc.prems by (auto simp: min_absorb2)
  next
    case True
    let ?x = "?L ! k" and ?t = "t\<lparr>visited := visited t @ [cur_index t]\<rparr>"
    have bounds: "0 \<le> begin_idx t" "begin_idx t < end_idx t" "end_idx t \<le> npts ?w"
      and vis: "visited t = map Some (take k ?L)" and cur: "cur_index t = Some ?x"
      using Suc.prems(2) True by (auto simp: grid_at_def Let_def)
    have "?x \<in> set ?L" using True by (rule nth_mem)
    then have x: "begin_idx t \<le> ?x" "?x < end_idx t" "ok ?w ?x" by auto
    obtain s1 where 1: "sp_get ops ?x s = (s1, Inr (conf ?w ?x))" "good s1" "view s1 = ?w"
      using get_answers[OF Suc.prems(1), of ?x] x bounds by (auto simp: answers_def)
    let ?j = "if Suc k < length ?L then Some (?L ! Suc k) else None"
    obtain s2 where 2: "sp_get_next_index ops ?x 1 (Some (begin_idx t)) (Some (end_idx t)) s1 = (s2, Inr ?j)"
        "good s2" "view s2 = ?w"
      using next_answers[OF 1(2), of "begin_idx t" ?x "end_idx t"] next_of_nth[OF True] 1(3) x bounds
      by (auto simp: answers_def)
    let ?t2 = "?t\<lparr>cur_index := ?j\<rparr>"
    have at: "grid_at ?w ?t2 (Suc k)"
      using Suc.prems(2) True vis cur by (auto simp: grid_at_def Let_def take_Suc_conv_app_nth)
    have "\<exists>s' t'. grid_next_batch ops n (s2, ?t2) =
             ((s', t'), Inr (map (conf (view s2)) (take n (drop (Suc k) (valids (view s2) (begin_idx ?t2) (end_idx ?t2)))))) \<and>
           good s' \<and> view s' = view s2 \<and>
           grid_at (view s2) t' (min (Suc k + n) (length (valids (view s2) (begin_idx ?t2) (end_idx ?t2)))) \<and>
           begin_idx t' = begin_idx ?t2 \<and> end_idx t' = end_idx ?t2"
      using at 2(2,3) by (intro Suc.IH) simp_all
    then obtain s' t' where rest: "grid_next_batch ops n (s2, ?t2) =
        ((s', t'), Inr (map (conf ?w) (take n (drop (Suc k) ?L))))" "good s'" "view s' = ?w"
        "grid_at ?w t' (min (Suc k + n) (length ?L))" "begin_idx t' = begin_idx t" "end_idx t' = end_idx t"
      using 2(3) by auto
    have hd: "take (Suc n) (drop k ?L) = ?x # take n (drop (Suc k) ?L)"
      using True by (simp add: Cons_nth_drop_Suc[symmetric])
    have "grid_next_batch ops (Suc n) (s, t) = ((s', t'), Inr (map (conf ?w) (take (Suc n) (drop k ?L))))"
      unfolding hd using grid_at_has_next[OF Suc.prems(2)] True cur 1(1) 2(1) rest(1) by simp
    with rest show ?thesis by auto
  qed
qed

lemma grid_batches:
  assumes "good s" "grid_at (view s) t k"
  defines "L \<equiv> valids (view s) (begin_idx t) (end_idx t)"
  shows "\<exists>s' t'. in_batches (grid_next_batch ops) ns (s, t) =
             ((s', t'), Inr (map (conf (view s)) (take (sum_list ns) (drop k L)))) \<and>
           good s' \<and> view s' = view s \<and> grid_at (view s) t' (min (k + sum_list ns) (length L)) \<and>
           begin_idx t' = begin_idx t \<and> end_idx t' = end_idx t"
  using assms(1,2) unfolding L_def
proof (induction ns arbitrary: s t k)
  case Nil
  then have "k \<le> length (valids (view s) (begin_idx t) (end_idx t))" by (simp add: grid_at_def Let_def)
  with Nil show ?case by (auto simp: min_absorb1)
next
  case (Cons n ns)
  let ?L = "valids (view s) (begin_idx t) (end_idx t)"
  obtain s1 t1 where 1: "grid_next_batch ops n (s, t) =
      ((s1, t1), Inr (map (conf (view s)) (take n (drop k ?L))))" "good s1" "view s1 = view s"
      "grid_at (view s) t1 (min (k + n) (length ?L))" "begin_idx t1 = begin_idx t" "end_idx t1 = end_idx t"
    using grid_batch[OF Cons.prems, of n] by auto
  let ?k = "min (k + n) (length ?L)"
  obtain s2 t2 where 2: "in_batches (grid_next_batch ops) ns (s1, t1) =
      ((s2, t2), Inr (map (conf (view s)) (take (sum_list ns) (drop ?k ?L))))" "good s2" "view s2 = view s"
      "grid_at (view s) t2 (min (?k + sum_list ns) (length ?L))" "begin_idx t2 = begin_idx t" "end_idx t2 = end_idx t"
    using Cons.IH[of s1 t1 ?k] 1 by auto
  have k: "k \<le> length ?L" using Cons.prems(2) by (simp add: grid_at_def Let_def)
  have "take n (drop k ?L) @ take (sum_list ns) (drop ?k ?L) = take (n + sum_list ns) (drop k ?L)"
    by (cases "k + n \<le> length ?L") (simp_all add: take_add min_absorb1 min_absorb2 add.commute)
  then have "in_batches (grid_next_batch ops) (n # ns) (s, t) =
      ((s2, t2), Inr (map (conf (view s)) (take (sum_list (n # ns)) (drop k ?L))))"
    using 1(1) 2(1) by (simp only: in_batches.simps bindS_Inr returnS_apply map_append[symmetric] sum_list.Cons)
  moreover have "min (?k + sum_list ns) (length ?L) = min (k + sum_list (n # ns)) (length ?L)" by simp
  ultimately show ?case using 2(2-6) by (metis (no_types))
qed

section \<open>Random search\<close>

definition rand_at :: "'w \<Rightarrow> idx_tuner \<Rightarrow> int list \<Rightarrow> bool" where
  "rand_at w t vs \<longleftrightarrow>
     0 \<le> begin_idx t \<and> begin_idx t < end_idx t \<and> end_idx t \<le> npts w \<and>
     visited t = map Some vs \<and> distinct vs \<and> set vs \<subseteq> set (valids w (begin_idx t) (end_idx t)) \<and>
     visited_max t = int (length (valids w (begin_idx t) (end_idx t)))"

lemma map_filter_Some: "List.map_filter id (map Some xs) = xs"
  by (induction xs) (auto simp: map_filter_simps)

lemma rand_at_length:
  assumes "rand_at w t vs"
  shows "length vs \<le> length (valids w (begin_idx t) (end_idx t))"
    and "idx_has_next t \<longleftrightarrow> length vs < length (valids w (begin_idx t) (end_idx t))"
proof -
  have "length vs = card (set vs)" using assms by (simp add: rand_at_def distinct_card)
  also have "\<dots> \<le> card (set (valids w (begin_idx t) (end_idx t)))"
    using assms unfolding rand_at_def by (intro card_mono finite_set) blast
  also have "\<dots> \<le> length (valids w (begin_idx t) (end_idx t))" by (rule card_length)
  finally show "length vs \<le> length (valids w (begin_idx t) (end_idx t))" .
  show "idx_has_next t \<longleftrightarrow> length vs < length (valids w (begin_idx t) (end_idx t))"
    using assms by (simp add: rand_at_def idx_has_next_def)
qed

lemma find_Some_mem: "find P xs = Some x \<Longrightarrow> P x \<and> x \<in> set xs"
  by (induction xs) (auto split: if_splits)

lemma random_batch:
  assumes "good s" "rand_at (view s) t vs" "\<forall>ds \<in> set dss. \<forall>d \<in> set ds. begin_idx t \<le> d \<and> d < end_idx t"
  shows "\<exists>s' t' r us. random_next_batch ops dss n (s, t) = ((s', t'), Inr r) \<and>
           good s' \<and> view s' = view s \<and> rand_at (view s) t' (vs @ us) \<and>
           begin_idx t' = begin_idx t \<and> end_idx t' = end_idx t \<and>
           (\<forall>cs. r = Some cs \<longrightarrow> cs = map (conf (view s)) us \<and>
              length us = min n (length (valids (view s) (begin_idx t) (end_idx t)) - length vs))"
  using assms
proof (induction n arbitrary: dss s t vs)
  case 0
  then show ?case by (auto intro!: exI[of _ "[]"])
next
  case (Suc n)
  let ?w = "view s" and ?L = "valids (view s) (begin_idx t) (end_idx t)"
  note has = rand_at_length[OF Suc.prems(2)]
  show ?case
  proof (cases "idx_has_next t")
    case False
    with has have "?L = [] \<or> length ?L - length vs = 0" by auto
    with False Suc.prems show ?thesis
      by (cases dss) (auto intro!: exI[of _ "[]"])
  next
    case more: True
    show ?thesis
    proof (cases dss)
      case Nil
      with more Suc.prems show ?thesis by (auto intro!: exI[of _ "[]"])
    next
      case (Cons ds dss')
      have at: "0 \<le> begin_idx t" "begin_idx t < end_idx t" "end_idx t \<le> npts ?w"
        and vis: "visited t = map Some vs" using Suc.prems(2) by (auto simp: rand_at_def)
      let ?i = "find (\<lambda>d. ok ?w d \<and> d \<notin> set vs) ds"
      obtain s1 where 1: "sp_get_rand_index ops ds (Some (begin_idx t)) (Some (end_idx t)) vs s = (s1, Inr ?i)"
          "good s1" "view s1 = ?w"
        using rand_answers[OF Suc.prems(1) at, of ds vs] Suc.prems(3) Cons by (auto simp: answers_def)
      show ?thesis
      proof (cases ?i)
        case None
        with 1 more Cons vis Suc.prems(2) show ?thesis
          by (auto simp: map_filter_Some intro!: exI[of _ "[]"])
      next
        case (Some i)
        then have i: "ok ?w i" "i \<notin> set vs" "begin_idx t \<le> i" "i < end_idx t"
          using find_Some_mem[OF Some] Suc.prems(3) Cons by auto
        obtain s2 where 2: "sp_get ops i s1 = (s2, Inr (conf ?w i))" "good s2" "view s2 = ?w"
          using get_answers[OF 1(2), of i] 1(3) i at by (auto simp: answers_def)
        let ?t = "t\<lparr>visited := visited t @ [Some i]\<rparr>"
        have "rand_at (view s2) ?t (vs @ [i])"
          using Suc.prems(2) i 2(3) by (auto simp: rand_at_def)
        then have "\<exists>s' t' r us. random_next_batch ops dss' n (s2, ?t) = ((s', t'), Inr r) \<and>
           good s' \<and> view s' = view s2 \<and> rand_at (view s2) t' ((vs @ [i]) @ us) \<and>
           begin_idx t' = begin_idx ?t \<and> end_idx t' = end_idx ?t \<and>
           (\<forall>cs. r = Some cs \<longrightarrow> cs = map (conf (view s2)) us \<and>
              length us = min n (length (valids (view s2) (begin_idx ?t) (end_idx ?t)) - length (vs @ [i])))"
          using Suc.prems(3) Cons 2(2) by (intro Suc.IH) auto
        then obtain s' t' r us where rest: "random_next_batch ops dss' n (s2, ?t) = ((s', t'), Inr r)"
          "good s'" "view s' = ?w" "rand_at ?w t' (vs @ i # us)" "begin_idx t' = begin_idx t" "end_idx t' = end_idx t"
          "\<forall>cs. r = Some cs \<longrightarrow> cs = map (conf ?w) us \<and> length us = min n (length ?L - Suc (length vs))"
          using 2(3) by auto
        have "random_next_batch ops dss (Suc n) (s, t) = ((s', t'), Inr (map_option ((#) (conf ?w i)) r))"
          using Some 1 2 more Cons vis rest(1) by (simp add: map_filter_Some)
        moreover have "length vs < length ?L" using has(2) more by simp
        moreover have "\<forall>cs. map_option ((#) (conf ?w i)) r = Some cs \<longrightarrow>
            cs = map (conf ?w) (i # us) \<and> length (i # us) = min (Suc n) (length ?L - length vs)"
          using rest(7) \<open>length vs < length ?L\<close> by (cases r) auto
        ultimately show ?thesis using rest(2-6) by blast
      qed
    qed
  qed
qed

lemma min_batches: "min n (l - v) + min m (l - (v + min n (l - v))) = min (n + m) (l - v :: nat)"
  by (simp add: min_def) arith

lemma random_batches:
  assumes "good s" "rand_at (view s) t vs"
    and "\<forall>(dss, n) \<in> set bs. \<forall>ds \<in> set dss. \<forall>d \<in> set ds. begin_idx t \<le> d \<and> d < end_idx t"
  shows "\<exists>s' t' r us. random_in_batches ops bs (s, t) = ((s', t'), Inr r) \<and>
           rand_at (view s) t' (vs @ us) \<and> begin_idx t' = begin_idx t \<and> end_idx t' = end_idx t \<and>
           (\<forall>cs. r = Some cs \<longrightarrow> cs = map (conf (view s)) us \<and>
              length us = min (sum_list (map snd bs))
                (length (valids (view s) (begin_idx t) (end_idx t)) - length vs))"
  using assms
proof (induction bs arbitrary: s t vs)
  case Nil
  then show ?case by (auto intro!: exI[of _ "[]"])
next
  case (Cons p bs)
  obtain dss n where p: "p = (dss, n)" by (cases p)
  let ?w = "view s" and ?L = "valids (view s) (begin_idx t) (end_idx t)"
  obtain s1 t1 r1 us1 where 1: "random_next_batch ops dss n (s, t) = ((s1, t1), Inr r1)" "good s1"
      "view s1 = ?w" "rand_at ?w t1 (vs @ us1)" "begin_idx t1 = begin_idx t" "end_idx t1 = end_idx t"
      "\<forall>cs. r1 = Some cs \<longrightarrow> cs = map (conf ?w) us1 \<and> length us1 = min n (length ?L - length vs)"
    using random_batch[OF Cons.prems(1,2), of dss n] Cons.prems(3) p by auto
  show ?case
  proof (cases r1)
    case None
    with 1 p have "random_in_batches ops (p # bs) (s, t) = ((s1, t1), Inr None)" by simp
    with 1(4-6) show ?thesis by blast
  next
    case (Some cs1)
    have "\<exists>s' t' r us. random_in_batches ops bs (s1, t1) = ((s', t'), Inr r) \<and>
           rand_at (view s1) t' ((vs @ us1) @ us) \<and> begin_idx t' = begin_idx t1 \<and> end_idx t' = end_idx t1 \<and>
           (\<forall>cs. r = Some cs \<longrightarrow> cs = map (conf (view s1)) us \<and>
              length us = min (sum_list (map snd bs))
                (length (valids (view s1) (begin_idx t1) (end_idx t1)) - length (vs @ us1)))"
    proof (rule Cons.IH)
      show "good s1" by (rule 1(2))
      show "rand_at (view s1) t1 (vs @ us1)" using 1(3,4) by simp
      show "\<forall>(dss, n) \<in> set bs. \<forall>ds \<in> set dss. \<forall>d \<in> set ds. begin_idx t1 \<le> d \<and> d < end_idx t1"
        using Cons.prems(3) 1(5,6) by auto
    qed
    then obtain s2 t2 r2 us2 where 2: "random_in_batches ops bs (s1, t1) = ((s2, t2), Inr r2)"
        "rand_at ?w t2 (vs @ us1 @ us2)" "begin_idx t2 = begin_idx t" "end_idx t2 = end_idx t"
        "\<forall>cs. r2 = Some cs \<longrightarrow> cs = map (conf ?w) us2 \<and>
           length us2 = min (sum_list (map snd bs)) (length ?L - length (vs @ us1))"
      using 1(3,5,6) by auto
    have "random_in_batches ops (p # bs) (s, t) = ((s2, t2), Inr (map_option ((@) cs1) r2))"
      using 1(1) 2(1) Some p by (simp del: map_option_eq_Some)
    moreover have "\<forall>cs. map_option ((@) cs1) r2 = Some cs \<longrightarrow> cs = map (conf ?w) (us1 @ us2) \<and>
        length (us1 @ us2) = min (sum_list (map snd (p # bs))) (length ?L - length vs)"
    proof (cases r2)
      case (Some cs2)
      then have l2: "cs2 = map (conf ?w) us2"
        "length us2 = min (sum_list (map snd bs)) (length ?L - length (vs @ us1))" using 2(5) by blast+
      have l1: "cs1 = map (conf ?w) us1" "length us1 = min n (length ?L - length vs)"
        using 1(7) \<open>r1 = Some cs1\<close> by blast+
      have "length (us1 @ us2) = min (n + sum_list (map snd bs)) (length ?L - length vs)"
        unfolding length_append l1(2) l2(2) by (rule min_batches)
      with Some l1(1) l2(1) p show ?thesis by (simp only: option.map list.map sum_list.Cons snd_conv map_append) blast
    qed simp
    ultimately show ?thesis using 2(2-4) by blast
  qed
qed

end

section \<open>The tuners on a configuration space\<close>

text \<open>C13: The grid search over \<open>[a, b]\<close> hands out, in whatever batch sizes it is asked for, the
  configurations of exactly the valid indices of the range in increasing order, each once, and
  then empty batches.\<close>

theorem grid_search_enumerates:
  assumes "proper cs" "coherent cs" "0 \<le> a" "a \<le> b" "b < num_points cs"
  shows "\<exists>cs1 t st. grid_init config_ops (Some (a, b)) cs = (cs1, Inr t) \<and>
      in_batches (grid_next_batch config_ops) ns (cs1, t) =
        (st, Inr (map (config_at cs) (take (sum_list ns) (filter (valid_at cs) [a..b])))) \<and>
      (idx_has_next (snd st) \<longleftrightarrow> sum_list ns < length (filter (valid_at cs) [a..b]))"
proof -
  have good: "space_good cs" using assms by (simp add: space_good_def)
  obtain t cs1 where 1: "grid_init config_ops (Some (a, b)) cs = (cs1, Inr t)" "space_good cs1"
      "clear_cache cs1 = clear_cache cs" "cfg.grid_at (clear_cache cs) t 0" "begin_idx t = a" "end_idx t = b + 1"
    using cfg.grid_init_answers[OF good, of "Some (a, b)" a b] assms by (auto simp: answers_def)
  obtain cs2 t2 where 2: "in_batches (grid_next_batch config_ops) ns (cs1, t) =
        ((cs2, t2), Inr (map (config_at cs) (take (sum_list ns) (filter (valid_at cs) [a..b]))))"
      "cfg.grid_at (clear_cache cs) t2 (min (sum_list ns) (length (filter (valid_at cs) [a..b])))"
      "begin_idx t2 = a" "end_idx t2 = b + 1"
    using cfg.grid_batches[OF 1(2), of t 0 ns] 1 by auto
  from cfg.grid_at_has_next[OF 2(2)] 2(3,4)
  have "idx_has_next t2 \<longleftrightarrow> sum_list ns < length (filter (valid_at cs) [a..b])" by auto
  with 1(1) 2(1) show ?thesis by auto
qed

theorem grid_search_enumerates_witness:
  "\<exists>cs1 t st. grid_init config_ops (Some (1, 5)) demo_space = (cs1, Inr t) \<and>
     in_batches (grid_next_batch config_ops) [1, 4] (cs1, t) =
       (st, Inr (map (config_at demo_space) [2, 4])) \<and> \<not> idx_has_next (snd st)"
  using grid_search_enumerates[OF demo_proper demo_coherent, of 1 5 "[1, 4]"]
  by (simp add: demo_fields demo_valid upto_rec1)

text \<open>The random search never proposes a configuration twice and never an invalid one,
  whatever the generator draws from the range; when every batch returns, it has handed out as
  many as were asked for, or all of them.\<close>

theorem random_search_no_repeats:
  assumes "proper cs" "coherent cs" "0 \<le> a" "a \<le> b" "b < num_points cs"
    and "\<forall>(dss, n) \<in> set bs. \<forall>ds \<in> set dss. \<forall>d \<in> set ds. a \<le> d \<and> d \<le> b"
  shows "\<exists>cs1 t st r. index_base_init config_ops (Some (a, b)) cs = (cs1, Inr t) \<and>
      random_in_batches config_ops bs (cs1, t) = (st, Inr r) \<and>
      (\<forall>xs. r = Some xs \<longrightarrow> (\<exists>us. xs = map (config_at cs) us \<and> distinct us \<and>
         set us \<subseteq> {i. a \<le> i \<and> i \<le> b \<and> valid_at cs i} \<and>
         length us = min (sum_list (map snd bs)) (length (filter (valid_at cs) [a..b]))))"
proof -
  have good: "space_good cs" using assms by (simp add: space_good_def)
  let ?L = "filter (valid_at cs) [a..b]"
  let ?t = "\<lparr>visited = [], begin_idx = a, end_idx = b + 1, tn_range_length = b + 1 - a,
      visited_max = int (length ?L), cur_index = None\<rparr>"
  obtain cs1 where 1: "index_base_init config_ops (Some (a, b)) cs = (cs1, Inr ?t)" "space_good cs1"
      "clear_cache cs1 = clear_cache cs"
    using cfg.base_init_answers[OF good, of "Some (a, b)" a b] assms by (auto simp: answers_def)
  have at: "cfg.rand_at (clear_cache cs1) ?t []"
    using assms 1(3) by (simp add: cfg.rand_at_def)
  have draws: "\<forall>(dss, n) \<in> set bs. \<forall>ds \<in> set dss. \<forall>d \<in> set ds. begin_idx ?t \<le> d \<and> d < end_idx ?t"
    using assms(6) by auto
  obtain cs2 t2 r us where 2: "random_in_batches config_ops bs (cs1, ?t) = ((cs2, t2), Inr r)"
      "cfg.rand_at (clear_cache cs) t2 us" "begin_idx t2 = a" "end_idx t2 = b + 1"
      "\<forall>xs. r = Some xs \<longrightarrow> xs = map (config_at cs) us \<and> length us = min (sum_list (map snd bs)) (length ?L)"
    using cfg.random_batches[OF 1(2) at draws] 1(3) by auto
  have "distinct us" "set us \<subseteq> {i. a \<le> i \<and> i \<le> b \<and> valid_at cs i}"
    using 2(2-4) by (auto simp: cfg.rand_at_def)
  with 1(1) 2(1,5) show ?thesis by auto
qed

theorem random_search_no_repeats_witness:
  "\<exists>cs1 t st r. index_base_init config_ops (Some (0, 5)) demo_space = (cs1, Inr t) \<and>
     random_in_batches config_ops [([[3, 4], [4, 0]], 2)] (cs1, t) = (st, Inr r) \<and>
     (\<forall>xs. r = Some xs \<longrightarrow> (\<exists>us. xs = map (config_at demo_space) us \<and> distinct us \<and> length us = 2))"
  using random_search_no_repeats[OF demo_proper demo_coherent, of 0 5 "[([[3, 4], [4, 0]], 2)]"]
  by (fastforce simp: demo_fields demo_valid upto_rec1)

end
