(* ===== verification/Model_Tuner.thy ===== *)
theory Model_Tuner
  imports Index_Tuner
begin

text \<open>
  \<^verbatim>\<open>ModelBasedTuner\<close>, \<^verbatim>\<open>FeatureCache\<close> and \<^verbatim>\<open>submodular_pick\<close> of
  \<^verbatim>\<open>python/tvm/autotvm/tuner/model_based_tuner.py\<close>. The cost model and the optimizer are abstract
  classes there; what a call of them returns is an argument here. \<^verbatim>\<open>visited\<close> is a set: a list
  without repetitions.
\<close>

section \<open>Feature cache\<close>

type_synonym 'f feature_cache = "(string, (int, 'f) dict) dict"

definition fc_get :: "string \<Rightarrow> ('f feature_cache, (int, 'f) dict) st" where
  "fc_get key fc =
     (case map_of fc key of
        Some d \<Rightarrow> (fc, Inr d)
      | None \<Rightarrow> (AList.update key [] fc, Inr []))"

definition fc_size :: "string \<Rightarrow> 'f feature_cache \<Rightarrow> nat" where
  "fc_size key fc = (case map_of fc key of Some d \<Rightarrow> length d | None \<Rightarrow> 0)"

definition fc_clear :: "string \<Rightarrow> ('f feature_cache, unit) st" where
  "fc_clear key fc =
     (case map_of fc key of
        None \<Rightarrow> (fc, Inl KeyError)
      | Some d \<Rightarrow> (AList.update key [] (AList.delete key fc), Inr ()))"

section \<open>Picking by score and diversity\<close>

text \<open>\<^verbatim>\<open>tmp_delta\<close> of one point: its score, and a weight for every knob value not yet selected.\<close>

definition pick_gain :: "rat list \<Rightarrow> int list list \<Rightarrow> rat \<Rightarrow> nat \<Rightarrow> int set list \<Rightarrow> nat \<Rightarrow> rat py" where
  "pick_gain scores knobs w n_knobs ksets x =
     (if n_knobs \<le> length (knobs ! x)
      then Inr (scores ! x + w * of_nat (length (filter (\<lambda>i. knobs ! x ! i \<notin> ksets ! i) [0..<n_knobs])))
      else Inl IndexError)"

fun pick_best :: "(nat \<Rightarrow> rat py) \<Rightarrow> nat list \<Rightarrow> int \<times> rat \<Rightarrow> (int \<times> rat) py" where
  "pick_best gain [] best = Inr best"
| "pick_best gain (x # xs) best =
     bindE (gain x) (\<lambda>g. pick_best gain xs (if g > snd best then (int x, g) else best))"

fun pick_loop ::
    "rat list \<Rightarrow> int list list \<Rightarrow> rat \<Rightarrow> nat \<Rightarrow> nat \<Rightarrow> int set list \<Rightarrow> nat list \<Rightarrow> int list \<Rightarrow> int list py" where
  "pick_loop scores knobs w n_knobs 0 ksets remain ret = Inr ret"
| "pick_loop scores knobs w n_knobs (Suc n) ksets remain ret =
     bindE (pick_best (pick_gain scores knobs w n_knobs ksets) remain (-1, - (10 ^ 9))) (\<lambda>(x, g).
       if x < 0 \<or> nat x \<notin> set remain then Inl ValueError
       else pick_loop scores knobs w n_knobs n
              (map (\<lambda>i. insert (knobs ! nat x ! i) (ksets ! i)) [0..<n_knobs])
              (remove1 (nat x) remain) (ret @ [x]))"

definition submodular_pick :: "rat list \<Rightarrow> int list list \<Rightarrow> nat \<Rightarrow> rat \<Rightarrow> int list py" where
  "submodular_pick scores knobs n_pick w =
     bindE (assertE (length scores = length knobs)) (\<lambda>_.
     bindE (py_nth knobs 0) (\<lambda>k0.
       pick_loop scores knobs w (length k0) n_pick (replicate (length k0) {}) [0..<length scores] []))"

section \<open>The tuner\<close>

record mtuner =
  mt_plan_size :: nat
  mt_diversity :: "nat option"
  mt_trials :: "int list"
  mt_trial_pt :: nat
  mt_visited :: "int list"
  mt_xs :: "int list"
  mt_ys :: "rat list"
  mt_flops_max :: rat
  mt_train_ct :: nat

definition set_add :: "'a \<Rightarrow> 'a list \<Rightarrow> 'a list" where
  "set_add x xs = (if x \<in> set xs then xs else xs @ [x])"

definition mtuner_init :: "nat \<Rightarrow> nat option \<Rightarrow> mtuner py" where
  "mtuner_init plan_size diversity =
     bindE (case diversity of None \<Rightarrow> Inr () | Some r \<Rightarrow> if r = 0 then Inr () else assertE (r \<ge> 1)) (\<lambda>_.
       Inr \<lparr>mt_plan_size = plan_size, mt_diversity = diversity, mt_trials = [], mt_trial_pt = 0,
            mt_visited = [], mt_xs = [], mt_ys = [], mt_flops_max = 0, mt_train_ct = 0\<rparr>)"

definition mt_has_next :: "('s, 'c) space_ops \<Rightarrow> mtuner \<Rightarrow> ('s, bool) st" where
  "mt_has_next ops t = bindS (sp_len ops) (\<lambda>l. returnS (int (length (mt_visited t)) < l))"

text \<open>The inner loop: how many trials from the current position on are visited or invalid.\<close>

fun skip_trials :: "('s, 'c) space_ops \<Rightarrow> int list \<Rightarrow> int list \<Rightarrow> ('s, nat) st" where
  "skip_trials ops vis [] = returnS 0"
| "skip_trials ops vis (i # is') =
     (if i \<in> set vis then bindS (skip_trials ops vis is') (\<lambda>n. returnS (Suc n))
      else bindS (sp_is_index_valid ops i) (\<lambda>b.
        if b then returnS 0 else bindS (skip_trials ops vis is') (\<lambda>n. returnS (Suc n))))"

text \<open>
  One round of \<^verbatim>\<open>next_batch\<close>: move \<^verbatim>\<open>trial_pt\<close>, then choose randomly when the plan is used up or
  in its last 5 percent. \<open>ds\<close> are the draws of the call of \<^verbatim>\<open>get_rand_index\<close>, if it is made.
\<close>

definition mt_choose :: "('s, 'c) space_ops \<Rightarrow> int list \<Rightarrow> ('s \<times> mtuner, int option) st" where
  "mt_choose ops ds =
     bindS (getS snd) (\<lambda>t.
     bindS (on_space (skip_trials ops (mt_visited t) (drop (mt_trial_pt t) (mt_trials t)))) (\<lambda>n.
     let pt = mt_trial_pt t + n in
     bindS (on_tuner (\<lambda>t. t\<lparr>mt_trial_pt := pt\<rparr>)) (\<lambda>_.
       if int pt \<ge> int (length (mt_trials t)) - int (mt_plan_size t div 20)
       then on_space (sp_get_rand_index ops ds None None (mt_visited t))
       else returnS (Some (mt_trials t ! pt)))))"

fun mt_next_batch ::
    "('s, 'c) space_ops \<Rightarrow> int list list \<Rightarrow> nat \<Rightarrow> ('s \<times> mtuner, 'c list option) st" where
  "mt_next_batch ops dss 0 = returnS (Some [])"
| "mt_next_batch ops dss (Suc n) =
     bindS (getS snd) (\<lambda>t.
     bindS (on_space (mt_has_next ops t)) (\<lambda>more.
       if \<not> more then returnS (Some [])
       else case dss of
         [] \<Rightarrow> returnS None
       | ds # dss' \<Rightarrow>
           bindS (mt_choose ops ds) (\<lambda>i.
             case i of
               None \<Rightarrow> returnS None
             | Some i \<Rightarrow>
                 bindS (on_space (sp_get ops i)) (\<lambda>c.
                 bindS (on_tuner (\<lambda>t. t\<lparr>mt_visited := set_add i (mt_visited t)\<rparr>)) (\<lambda>_.
                 bindS (mt_next_batch ops dss' n) (\<lambda>r. returnS (map_option ((#) c) r)))))))"

text \<open>A measurement: the index of the configuration, and the costs or an error.\<close>

datatype measured = Measured int rat "rat list" | Failed int

fun measured_index :: "measured \<Rightarrow> int" where
  "measured_index (Measured i fl costs) = i"
| "measured_index (Failed i) = i"

definition np_mean :: "rat list \<Rightarrow> rat" where
  "np_mean xs = sum_list xs / of_nat (length xs)"

fun measured_flops :: "measured \<Rightarrow> rat" where
  "measured_flops (Measured i fl costs) = fl / np_mean costs"
| "measured_flops (Failed i) = 0"

fun mt_record :: "('s, 'c) space_ops \<Rightarrow> measured list \<Rightarrow> ('s \<times> mtuner, unit) st" where
  "mt_record ops [] = returnS ()"
| "mt_record ops (m # ms) =
     bindS (on_tuner (\<lambda>t. t\<lparr>mt_xs := mt_xs t @ [measured_index m], mt_ys := mt_ys t @ [measured_flops m],
                           mt_flops_max := (case m of Measured i f c \<Rightarrow> max (mt_flops_max t) (measured_flops m)
                                                    | Failed i \<Rightarrow> mt_flops_max t)\<rparr>)) (\<lambda>_.
     bindS (on_space (sp_is_index_valid ops (measured_index m))) (\<lambda>b.
     bindS (liftS (assertE b)) (\<lambda>_.
     bindS (on_tuner (\<lambda>t. t\<lparr>mt_visited := set_add (measured_index m) (mt_visited t)\<rparr>)) (\<lambda>_.
       mt_record ops ms))))"

text \<open>
  The new plan: \<open>maximize num exclusive\<close> is \<^verbatim>\<open>model_optimizer.find_maximums\<close> after the fit,
  \<open>n_scores\<close> the number of predictions for the candidates (\<^verbatim>\<open>0 * scores\<close> are passed on).
\<close>

definition mt_plan ::
    "('s, 'c) space_ops \<Rightarrow> (nat \<Rightarrow> int list \<Rightarrow> ('s, int list) st) \<Rightarrow> mtuner \<Rightarrow> ('s, int list) st" where
  "mt_plan ops maximize t =
     (case mt_diversity t of
        Some r \<Rightarrow>
          if r = 0 then maximize (mt_plan_size t) (mt_visited t)
          else
            bindS (maximize (mt_plan_size t * r) (mt_visited t)) (\<lambda>cand.
            bindS (foldr (\<lambda>x k. bindS (sp_point2knob ops x) (\<lambda>kn. bindS k (\<lambda>kns. returnS (kn # kns)))) cand (returnS [])) (\<lambda>knobs.
            bindS (liftS (submodular_pick (replicate (length cand) 0) knobs (mt_plan_size t) 1)) (\<lambda>pick.
              liftS (mapE (py_nth cand) pick))))
      | None \<Rightarrow> maximize (mt_plan_size t) (mt_visited t))"

definition mt_update ::
    "('s, 'c) space_ops \<Rightarrow> (nat \<Rightarrow> int list \<Rightarrow> ('s, int list) st) \<Rightarrow> measured list \<Rightarrow> ('s \<times> mtuner, unit) st" where
  "mt_update ops maximize ms =
     bindS (mt_record ops ms) (\<lambda>_.
     bindS (getS snd) (\<lambda>t.
       if length (mt_xs t) \<ge> mt_plan_size t * (mt_train_ct t + 1) \<and> mt_flops_max t > 1 / 10 ^ 6 then
         bindS (on_space (mt_plan ops maximize t)) (\<lambda>maximums.
           on_tuner (\<lambda>t. t\<lparr>mt_trials := maximums, mt_trial_pt := 0, mt_train_ct := mt_train_ct t + 1\<rparr>))
       else returnS ()))"

text \<open>\<^verbatim>\<open>load_history\<close>: \<open>success\<close> is the result of \<^verbatim>\<open>base_model.fit_log\<close>.\<close>

definition mt_load_history ::
    "(nat \<Rightarrow> int list \<Rightarrow> ('s, int list) st) \<Rightarrow> bool \<Rightarrow> ('s \<times> mtuner, unit) st" where
  "mt_load_history maximize success =
     (if \<not> success then returnS ()
      else bindS (getS snd) (\<lambda>t.
        if mt_trials t = [] then
          bindS (on_space (maximize (mt_plan_size t) (mt_visited t))) (\<lambda>maximums.
            on_tuner (\<lambda>t. t\<lparr>mt_trials := maximums, mt_trial_pt := 0\<rparr>))
        else returnS ()))"

section \<open>Submodular pick\<close>

text \<open>
  The specification: \<open>x\<close> is a first best choice of \<open>R\<close> for the knob values already taken by the
  points \<open>P\<close>, and a run of greedy choices.
\<close>

definition new_knobs :: "int list list \<Rightarrow> nat \<Rightarrow> nat list \<Rightarrow> nat \<Rightarrow> nat" where
  "new_knobs knobs n_knobs P x = card {i. i < n_knobs \<and> (\<forall>p \<in> set P. knobs ! p ! i \<noteq> knobs ! x ! i)}"

definition marginal :: "rat list \<Rightarrow> int list list \<Rightarrow> rat \<Rightarrow> nat \<Rightarrow> nat list \<Rightarrow> nat \<Rightarrow> rat" where
  "marginal scores knobs w n_knobs P x = scores ! x + w * of_nat (new_knobs knobs n_knobs P x)"

definition taken_knobs :: "int list list \<Rightarrow> nat \<Rightarrow> nat list \<Rightarrow> int set list" where
  "taken_knobs knobs n_knobs P = map (\<lambda>i. (\<lambda>p. knobs ! p ! i) ` set P) [0..<n_knobs]"

lemma pick_gain_marginal:
  assumes "n_knobs \<le> length (knobs ! x)"
  shows "pick_gain scores knobs w n_knobs (taken_knobs knobs n_knobs P) x
           = Inr (marginal scores knobs w n_knobs P x)"
proof -
  let ?Q = "\<lambda>i. knobs ! x ! i \<notin> taken_knobs knobs n_knobs P ! i"
  have "length (filter ?Q [0..<n_knobs]) = card (set (filter ?Q [0..<n_knobs]))"
    by (rule distinct_card[symmetric]) simp
  also have "set (filter ?Q [0..<n_knobs]) = {i. i < n_knobs \<and> (\<forall>p \<in> set P. knobs ! p ! i \<noteq> knobs ! x ! i)}"
    by (auto simp: taken_knobs_def image_iff) (metis, metis)
  finally show ?thesis using assms by (simp add: pick_gain_def marginal_def new_knobs_def)
qed

text \<open>The scan keeps the first of the largest gains above the initial bound.\<close>

lemma pick_best_scan:
  assumes "\<forall>x \<in> set xs. gain x = Inr (m x)"
  shows "\<exists>b. pick_best gain xs (b0, g0) = Inr b \<and> (\<forall>x \<in> set xs. m x \<le> snd b) \<and> g0 \<le> snd b \<and>
           (b = (b0, g0) \<or> (\<exists>x \<in> set xs. b = (int x, m x)))"
  using assms
proof (induction xs arbitrary: b0 g0)
  case (Cons x xs)
  let ?b = "if m x > g0 then (int x, m x) else (b0, g0)"
  obtain b where b: "pick_best gain xs ?b = Inr b" "\<forall>x \<in> set xs. m x \<le> snd b" "snd ?b \<le> snd b"
    "b = ?b \<or> (\<exists>x \<in> set xs. b = (int x, m x))"
    using Cons.IH[of "fst ?b" "snd ?b"] Cons.prems by (simp only: prod.collapse set_simps ball_simps) blast
  then show ?case using Cons.prems by (intro exI[of _ b]) (auto split: if_splits)
qed simp

lemma taken_step:
  "map (\<lambda>i. insert (knobs ! x ! i) (taken_knobs knobs n P ! i)) [0..<n] = taken_knobs knobs n (P @ [x])"
  by (simp add: taken_knobs_def)

text \<open>Every pick is a best one among the points still there.\<close>

fun greedy_run :: "(nat list \<Rightarrow> nat \<Rightarrow> rat) \<Rightarrow> nat list \<Rightarrow> nat set \<Rightarrow> nat list \<Rightarrow> bool" where
  "greedy_run m P R [] \<longleftrightarrow> True"
| "greedy_run m P R (x # xs) \<longleftrightarrow>
     x \<in> R \<and> (\<forall>y \<in> R. m P y \<le> m P x) \<and> greedy_run m (P @ [x]) (R - {x}) xs"

lemma greedy_run_subset: "greedy_run m P R xs \<Longrightarrow> set xs \<subseteq> R \<and> distinct xs"
  by (induction xs arbitrary: P R) (simp, fastforce)

lemma pick_loop_greedy:
  assumes "\<forall>x \<in> set R. n_knobs \<le> length (knobs ! x) \<and> (\<forall>P. - (10 ^ 9) < marginal scores knobs w n_knobs P x)"
    and "distinct R" "n \<le> length R"
  shows "\<exists>xs. pick_loop scores knobs w n_knobs n (taken_knobs knobs n_knobs P) R ret = Inr (ret @ map int xs) \<and>
           length xs = n \<and> greedy_run (marginal scores knobs w n_knobs) P (set R) xs"
  using assms
proof (induction n arbitrary: P R ret)
  case (Suc n)
  let ?m = "marginal scores knobs w n_knobs" and ?g = "pick_gain scores knobs w n_knobs (taken_knobs knobs n_knobs P)"
  have "\<forall>x \<in> set R. ?g x = Inr (?m P x)" using Suc.prems(1) by (simp add: pick_gain_marginal)
  then obtain b where b: "pick_best ?g R (-1, - (10 ^ 9)) = Inr b" "\<forall>x \<in> set R. ?m P x \<le> snd b"
      "b = (-1, - (10 ^ 9)) \<or> (\<exists>x \<in> set R. b = (int x, ?m P x))"
    using pick_best_scan[of R ?g "?m P" "-1" "- (10 ^ 9)"] by blast
  from Suc.prems(3) have "hd R \<in> set R" by (cases R) auto
  with b(2) Suc.prems(1) have "- (10 ^ 9) < snd b" by (meson less_le_trans)
  with b(3) obtain x where x: "x \<in> set R" "b = (int x, ?m P x)" by auto
  have "\<exists>xs. pick_loop scores knobs w n_knobs n (taken_knobs knobs n_knobs (P @ [x])) (remove1 x R) (ret @ [int x])
            = Inr ((ret @ [int x]) @ map int xs) \<and> length xs = n \<and> greedy_run ?m (P @ [x]) (set (remove1 x R)) xs"
  proof (rule Suc.IH)
    show "\<forall>y \<in> set (remove1 x R). n_knobs \<le> length (knobs ! y) \<and> (\<forall>P. - (10 ^ 9) < ?m P y)"
      using Suc.prems(1) notin_set_remove1 by fast
  qed (use Suc.prems x in \<open>simp_all add: length_remove1\<close>)
  then obtain xs where xs: "pick_loop scores knobs w n_knobs n (taken_knobs knobs n_knobs (P @ [x])) (remove1 x R) (ret @ [int x])
      = Inr ((ret @ [int x]) @ map int xs)" "length xs = n" "greedy_run ?m (P @ [x]) (set R - {x}) xs"
    using Suc.prems(2) by auto
  have "greedy_run ?m P (set R) (x # xs)" using xs(3) x b(2) by simp
  with b(1) x xs(1,2) show ?case by (intro exI[of _ "x # xs"]) (simp add: taken_step)
qed simp

lemma marginal_lower: "0 \<le> w \<Longrightarrow> - (10 ^ 9) < scores ! x \<Longrightarrow> - (10 ^ 9) < marginal scores knobs w n P x"
  by (simp add: marginal_def add_strict_increasing2 add.commute less_le_trans)

lemma pick_loop_too_many:
  assumes "\<forall>x \<in> set R. n_knobs \<le> length (knobs ! x) \<and> (\<forall>P. - (10 ^ 9) < marginal scores knobs w n_knobs P x)"
    and "distinct R" "length R < n"
  shows "pick_loop scores knobs w n_knobs n (taken_knobs knobs n_knobs P) R ret = Inl ValueError"
  using assms
proof (induction n arbitrary: P R ret)
  case (Suc n)
  let ?m = "marginal scores knobs w n_knobs" and ?g = "pick_gain scores knobs w n_knobs (taken_knobs knobs n_knobs P)"
  have "\<forall>x \<in> set R. ?g x = Inr (?m P x)" using Suc.prems(1) by (simp add: pick_gain_marginal)
  then obtain b where b: "pick_best ?g R (-1, - (10 ^ 9)) = Inr b"
      "b = (-1, - (10 ^ 9)) \<or> (\<exists>x \<in> set R. b = (int x, ?m P x))"
    using pick_best_scan[of R ?g "?m P" "-1" "- (10 ^ 9)"] by blast
  show ?case
  proof (cases "\<exists>x \<in> set R. b = (int x, ?m P x)")
    case True
    then obtain x where x: "x \<in> set R" "b = (int x, ?m P x)" by blast
    have "pick_loop scores knobs w n_knobs n (taken_knobs knobs n_knobs (P @ [x])) (remove1 x R) (ret @ [int x]) = Inl ValueError"
    proof (rule Suc.IH)
      show "\<forall>y \<in> set (remove1 x R). n_knobs \<le> length (knobs ! y) \<and> (\<forall>P. - (10 ^ 9) < ?m P y)"
        using Suc.prems(1) notin_set_remove1 by fast
    qed (use Suc.prems x in \<open>auto simp: length_remove1\<close>, cases R, auto)
    with b x show ?thesis by (simp add: taken_step)
  qed (use b in auto)
qed simp

lemma submodular_pick_zero:
  assumes "knobs \<noteq> []" "\<forall>k \<in> set knobs. length k = n_knobs"
  shows "n_pick \<le> length knobs \<Longrightarrow> \<exists>xs. submodular_pick (replicate (length knobs) 0) knobs n_pick 1 = Inr (map int xs) \<and>
           length xs = n_pick \<and> (\<forall>x \<in> set xs. x < length knobs)"
    and "length knobs < n_pick \<Longrightarrow> submodular_pick (replicate (length knobs) 0) knobs n_pick 1 = Inl ValueError"
proof -
  let ?s = "replicate (length knobs) (0 :: rat)"
  have k0: "py_nth knobs 0 = Inr (hd knobs)" "length (hd knobs) = n_knobs"
    using assms by (cases knobs; simp)+
  have empty: "replicate n_knobs {} = taken_knobs knobs n_knobs []"
    by (simp add: taken_knobs_def list_eq_iff_nth_eq)
  have all: "\<forall>x \<in> set [0..<length knobs]. n_knobs \<le> length (knobs ! x) \<and>
      (\<forall>P. - (10 ^ 9) < marginal ?s knobs 1 n_knobs P x)"
    using assms(2) by (auto intro!: marginal_lower[simplified])
  show "\<exists>xs. submodular_pick ?s knobs n_pick 1 = Inr (map int xs) \<and> length xs = n_pick \<and>
      (\<forall>x \<in> set xs. x < length knobs)" if n: "n_pick \<le> length knobs"
  proof -
    obtain xs where xs: "pick_loop ?s knobs 1 n_knobs n_pick (taken_knobs knobs n_knobs []) [0..<length knobs] [] = Inr (map int xs)"
      "length xs = n_pick" "greedy_run (marginal ?s knobs 1 n_knobs) [] (set [0..<length knobs]) xs"
      using pick_loop_greedy[OF all, of n_pick "[]" "[]"] n by auto
    with greedy_run_subset[OF xs(3)] k0 show ?thesis
      by (intro exI[of _ xs]) (auto simp: submodular_pick_def empty)
  qed
  show "submodular_pick ?s knobs n_pick 1 = Inl ValueError" if "length knobs < n_pick"
    using pick_loop_too_many[OF all, of n_pick "[]" "[]"] that k0 by (simp add: submodular_pick_def empty)
qed

text \<open>\<^verbatim>\<open>submodular_pick\<close> with scores above \<^verbatim>\<open>-1e9\<close> and a weight that is not negative. If there
  are at least \<open>n_pick\<close> points, it returns \<open>n_pick\<close> different positions, each of which has the
  largest increase of the objective (score plus weighted number of new knob values) among the
  points that are left; if there are fewer points it raises \<^verbatim>\<open>ValueError\<close>.\<close>

theorem submodular_pick_greedy:
  assumes "knobs \<noteq> []" "length scores = length knobs" "\<forall>k \<in> set knobs. length k = n_knobs"
    and "0 \<le> w" "\<forall>x \<in> set scores. - (10 ^ 9) < x"
  shows "if n_pick \<le> length scores
         then \<exists>xs. submodular_pick scores knobs n_pick w = Inr (map int xs) \<and> length xs = n_pick \<and>
                distinct xs \<and> (\<forall>x \<in> set xs. x < length scores) \<and>
                greedy_run (marginal scores knobs w n_knobs) [] {..<length scores} xs
         else submodular_pick scores knobs n_pick w = Inl ValueError"
proof -
  have k0: "py_nth knobs 0 = Inr (hd knobs)" "length (hd knobs) = n_knobs"
    using assms(1,3) by (cases knobs; simp)+
  have empty: "replicate n_knobs {} = taken_knobs knobs n_knobs []"
    by (simp add: taken_knobs_def list_eq_iff_nth_eq)
  have all: "\<forall>x \<in> set [0..<length scores]. n_knobs \<le> length (knobs ! x) \<and>
      (\<forall>P. - (10 ^ 9) < marginal scores knobs w n_knobs P x)"
    using assms(2-5) by (metis atLeastLessThan_iff atLeastLessThan_upt marginal_lower nth_mem order_refl)
  show ?thesis
  proof (cases "n_pick \<le> length scores")
    case True
    with pick_loop_greedy[OF all, of n_pick "[]" "[]"] obtain xs where xs:
      "pick_loop scores knobs w n_knobs n_pick (taken_knobs knobs n_knobs []) [0..<length scores] [] = Inr (map int xs)"
      "length xs = n_pick" "greedy_run (marginal scores knobs w n_knobs) [] {..<length scores} xs"
      by (auto simp: atLeast0LessThan)
    have "submodular_pick scores knobs n_pick w = Inr (map int xs)"
      using xs(1) k0 assms(2) by (simp add: submodular_pick_def empty)
    with True xs(2,3) greedy_run_subset[OF xs(3)] show ?thesis by auto
  next
    case False
    with pick_loop_too_many[OF all, of n_pick "[]" "[]"] k0 assms(2) show ?thesis
      by (simp add: submodular_pick_def empty)
  qed
qed

theorem submodular_pick_greedy_witness:
  "\<exists>xs. submodular_pick [3, 5, 5] [[0, 0], [1, 0], [1, 0]] 2 1 = Inr (map int xs) \<and> length xs = 2 \<and>
     distinct xs \<and> (\<forall>x \<in> set xs. x < 3) \<and>
     greedy_run (marginal [3, 5, 5] [[0, 0], [1, 0], [1, 0]] 1 2) [] {..<3} xs"
  using submodular_pick_greedy[of "[[0, 0], [1, 0], [1, 0]]" "[3, 5, 5]" 2 1 2] by (simp add: numeral_3_eq_3)

section \<open>Batches without repetition\<close>

text \<open>The tuner has visited only valid indices \<open>V\<close>, each once, and its plan is in range.\<close>

definition plan_wf :: "int set \<Rightarrow> int \<Rightarrow> mtuner \<Rightarrow> bool" where
  "plan_wf V n t \<longleftrightarrow>
     distinct (mt_visited t) \<and> set (mt_visited t) \<subseteq> V \<and> (\<forall>i \<in> set (mt_trials t). 0 \<le> i \<and> i < n)"

text \<open>The trial the plan proposes, and whether it is taken rather than a random index.\<close>

definition plan_pos :: "(int \<Rightarrow> bool) \<Rightarrow> mtuner \<Rightarrow> nat" where
  "plan_pos vld t = mt_trial_pt t +
     length (takeWhile (\<lambda>i. i \<in> set (mt_visited t) \<or> \<not> vld i) (drop (mt_trial_pt t) (mt_trials t)))"

definition plan_choice :: "(int \<Rightarrow> bool) \<Rightarrow> mtuner \<Rightarrow> int list \<Rightarrow> int option" where
  "plan_choice vld t ds =
     (if plan_pos vld t + mt_plan_size t div 20 < length (mt_trials t)
      then Some (mt_trials t ! plan_pos vld t)
      else find (\<lambda>d. vld d \<and> d \<notin> set (mt_visited t)) ds)"

lemma plan_pos_fresh:
  assumes "plan_pos vld t < length (mt_trials t)"
  shows "vld (mt_trials t ! plan_pos vld t)" "mt_trials t ! plan_pos vld t \<notin> set (mt_visited t)"
proof -
  let ?P = "\<lambda>i. i \<in> set (mt_visited t) \<or> \<not> vld i" and ?d = "drop (mt_trial_pt t) (mt_trials t)"
  have "length (takeWhile ?P ?d) < length ?d" using assms by (simp add: plan_pos_def)
  then have "\<not> ?P (?d ! length (takeWhile ?P ?d))" by (rule nth_length_takeWhile)
  moreover have "?d ! length (takeWhile ?P ?d) = mt_trials t ! plan_pos vld t"
    using assms by (simp add: plan_pos_def)
  ultimately show "vld (mt_trials t ! plan_pos vld t)" "mt_trials t ! plan_pos vld t \<notin> set (mt_visited t)"
    by simp_all
qed

lemma plan_choice_fresh:
  assumes "plan_choice vld t ds = Some i"
  shows "vld i \<and> i \<notin> set (mt_visited t) \<and> (i \<in> set (mt_trials t) \<or> i \<in> set ds)"
  using assms plan_pos_fresh[of vld t] nth_mem[of "plan_pos vld t" "mt_trials t"]
  by (auto simp: plan_choice_def find_Some_iff split: if_splits)

text \<open>If something is left and the draws cover all valid indices, the choice is made.\<close>

lemma plan_choice_total:
  assumes "set (mt_visited t) \<subseteq> V" "length (mt_visited t) < card V" "V \<subseteq> set ds" "\<forall>i \<in> V. vld i"
  shows "plan_choice vld t ds \<noteq> None"
proof -
  have "card (set (mt_visited t)) < card V" using assms(2) card_length[of "mt_visited t"] by linarith
  with assms(1) obtain i where "i \<in> V" "i \<notin> set (mt_visited t)" by (metis nat_neq_iff subsetI subset_antisym)
  with assms(3,4) have "find (\<lambda>d. vld d \<and> d \<notin> set (mt_visited t)) ds \<noteq> None"
    by (auto simp: find_None_iff)
  then show ?thesis by (simp add: plan_choice_def)
qed

context index_space
begin

lemma skip_answers:
  assumes "good s" "\<forall>i \<in> set js. 0 \<le> i \<and> i < npts (view s)"
  shows "answers good view s (skip_trials ops vis js)
           (length (takeWhile (\<lambda>i. i \<in> set vis \<or> \<not> ok (view s) i) js))"
  using assms
proof (induction js arbitrary: s)
  case Nil
  then show ?case by (simp add: answers_def)
next
  case (Cons i js)
  show ?case
  proof (cases "i \<in> set vis")
    case True
    with Cons.IH[OF Cons.prems(1)] Cons.prems(2) show ?thesis by (auto simp: answers_def)
  next
    case False
    from valid_answers[OF Cons.prems(1), of i] Cons.prems(2) obtain s1 where 1:
      "sp_is_index_valid ops i s = (s1, Inr (ok (view s) i))" "good s1" "view s1 = view s"
      by (auto simp: answers_def)
    show ?thesis
    proof (cases "ok (view s) i")
      case True
      with False 1 show ?thesis by (auto simp: answers_def)
    next
      case invalid: False
      from Cons.IH[OF 1(2)] Cons.prems(2) 1(3) obtain s2 where
        "skip_trials ops vis js s1 = (s2, Inr (length (takeWhile (\<lambda>i. i \<in> set vis \<or> \<not> ok (view s) i) js)))"
        "good s2" "view s2 = view s"
        by (auto simp: answers_def)
      with False invalid 1 show ?thesis by (auto simp: answers_def)
    qed
  qed
qed

lemma choose_answers:
  assumes "good s" "\<forall>i \<in> set (mt_trials t). 0 \<le> i \<and> i < npts (view s)"
    and "\<forall>d \<in> set ds. 0 \<le> d \<and> d < npts (view s)"
  shows "\<exists>s'. mt_choose ops ds (s, t) =
             ((s', t\<lparr>mt_trial_pt := plan_pos (ok (view s)) t\<rparr>), Inr (plan_choice (ok (view s)) t ds)) \<and>
           good s' \<and> view s' = view s"
proof -
  let ?d = "drop (mt_trial_pt t) (mt_trials t)" and ?pt = "plan_pos (ok (view s)) t"
  let ?n = "length (takeWhile (\<lambda>i. i \<in> set (mt_visited t) \<or> \<not> ok (view s) i) ?d)"
  have "\<forall>i \<in> set ?d. 0 \<le> i \<and> i < npts (view s)" using assms(2) by (meson in_set_dropD)
  from skip_answers[OF assms(1) this, of "mt_visited t"] obtain s1 where 1:
    "skip_trials ops (mt_visited t) ?d s = (s1, Inr ?n)" "good s1" "view s1 = view s"
    by (auto simp: answers_def)
  have pt: "mt_trial_pt t + ?n = ?pt" by (simp add: plan_pos_def)
  show ?thesis
  proof (cases "?pt + mt_plan_size t div 20 < length (mt_trials t)")
    case True
    with 1 pt show ?thesis by (auto simp: mt_choose_def plan_choice_def Let_def)
  next
    case False
    from rand_all_answers[OF 1(2), of ds "mt_visited t"] assms(3) 1(3) obtain s2 where 2:
      "sp_get_rand_index ops ds None None (mt_visited t) s1
         = (s2, Inr (find (\<lambda>d. ok (view s) d \<and> d \<notin> set (mt_visited t)) ds))" "good s2" "view s2 = view s"
      by (auto simp: answers_def)
    with False 1 pt show ?thesis by (auto simp: mt_choose_def plan_choice_def Let_def)
  qed
qed

lemma model_has_next:
  assumes "good s"
  shows "answers good view s (mt_has_next ops t)
           (length (mt_visited t) < card {i. 0 \<le> i \<and> i < npts (view s) \<and> ok (view s) i})"
  using len_answers[OF assms] by (auto simp: answers_def mt_has_next_def)

abbreviation valid_set :: "'w \<Rightarrow> int set" where
  "valid_set w \<equiv> {i. 0 \<le> i \<and> i < npts w \<and> ok w i}"

lemma model_batch:
  assumes "good s" "plan_wf (valid_set (view s)) (npts (view s)) t"
    and "\<forall>ds \<in> set dss. \<forall>d \<in> set ds. 0 \<le> d \<and> d < npts (view s)"
  shows "\<exists>s' t' r us. mt_next_batch ops dss n (s, t) = ((s', t'), Inr r) \<and> good s' \<and> view s' = view s \<and>
           plan_wf (valid_set (view s)) (npts (view s)) t' \<and> mt_visited t' = mt_visited t @ us \<and>
           (\<forall>cs. r = Some cs \<longrightarrow> cs = map (conf (view s)) us \<and>
              length us = min n (card (valid_set (view s)) - length (mt_visited t))) \<and>
           (n \<le> length dss \<and> (\<forall>ds \<in> set dss. valid_set (view s) \<subseteq> set ds) \<longrightarrow> r \<noteq> None)"
  using assms
proof (induction n arbitrary: dss s t)
  case 0
  then show ?case by auto
next
  case (Suc n)
  let ?w = "view s" and ?V = "valid_set (view s)"
  obtain s1 where 1: "mt_has_next ops t s = (s1, Inr (length (mt_visited t) < card ?V))" "good s1" "view s1 = ?w"
    using model_has_next[OF Suc.prems(1)] by (auto simp: answers_def)
  show ?case
  proof (cases "length (mt_visited t) < card ?V")
    case False
    then have "mt_next_batch ops dss (Suc n) (s, t) = ((s1, t), Inr (Some []))" using 1 by simp
    with False 1(2,3) Suc.prems(2) show ?thesis
      by (intro exI[of _ s1] exI[of _ t] exI[of _ "Some []"] exI[of _ "[]"]) simp
  next
    case more: True
    show ?thesis
    proof (cases dss)
      case Nil
      with more 1 have "mt_next_batch ops dss (Suc n) (s, t) = ((s1, t), Inr None)" by simp
      with 1(2,3) Suc.prems(2) Nil show ?thesis
        by (intro exI[of _ s1] exI[of _ t] exI[of _ None] exI[of _ "[]"]) simp
    next
      case (Cons ds dss')
      let ?t1 = "t\<lparr>mt_trial_pt := plan_pos (ok ?w) t\<rparr>"
      obtain s2 where 2: "mt_choose ops ds (s1, t) = ((s2, ?t1), Inr (plan_choice (ok ?w) t ds))"
          "good s2" "view s2 = ?w"
        using choose_answers[OF 1(2), of t ds] Suc.prems(2,3) Cons 1(3) by (auto simp: plan_wf_def)
      have wf1: "plan_wf ?V (npts ?w) ?t1" using Suc.prems(2) by (simp add: plan_wf_def)
      show ?thesis
      proof (cases "plan_choice (ok ?w) t ds")
        case None
        with more 1 2 Cons have "mt_next_batch ops dss (Suc n) (s, t) = ((s2, ?t1), Inr None)" by simp
        moreover have "set (mt_visited t) \<subseteq> ?V" using Suc.prems(2) unfolding plan_wf_def by blast
        then have "\<not> ?V \<subseteq> set ds"
          using None plan_choice_total[OF _ more, of ds "ok ?w"] by blast
        ultimately show ?thesis using 2(2,3) wf1 Cons by (intro exI[of _ s2] exI[of _ ?t1] exI[of _ None] exI[of _ "[]"]) simp
      next
        case (Some i)
        from plan_choice_fresh[OF Some] Suc.prems(2,3) Cons
        have i: "ok ?w i" "i \<notin> set (mt_visited t)" "0 \<le> i" "i < npts ?w" by (auto simp: plan_wf_def)
        obtain s3 where 3: "sp_get ops i s2 = (s3, Inr (conf ?w i))" "good s3" "view s3 = ?w"
          using get_answers[OF 2(2), of i] 2(3) i by (auto simp: answers_def)
        define t2 where "t2 = ?t1\<lparr>mt_visited := mt_visited t @ [i]\<rparr>"
        have vis: "mt_visited t2 = mt_visited t @ [i]" by (simp add: t2_def)
        have wf2: "plan_wf ?V (npts ?w) t2" using Suc.prems(2) i by (auto simp: plan_wf_def t2_def)
        have "\<forall>ds \<in> set dss'. \<forall>d \<in> set ds. 0 \<le> d \<and> d < npts ?w" using Suc.prems(3) Cons by simp
        note IH = Suc.IH[OF 3(2), of t2 dss', unfolded 3(3), OF wf2 this]
        obtain s' t' r us where rest: "mt_next_batch ops dss' n (s3, t2) = ((s', t'), Inr r)" "good s'"
            "view s' = ?w" "plan_wf ?V (npts ?w) t'" "mt_visited t' = mt_visited t @ i # us"
            "\<forall>cs. r = Some cs \<longrightarrow> cs = map (conf ?w) us \<and> length us = min n (card ?V - Suc (length (mt_visited t)))"
            "n \<le> length dss' \<and> (\<forall>ds \<in> set dss'. ?V \<subseteq> set ds) \<longrightarrow> r \<noteq> None"
          using IH unfolding vis append.assoc append.simps length_append_singleton by blast
        have "mt_next_batch ops dss (Suc n) (s, t) = ((s', t'), Inr (map_option ((#) (conf ?w i)) r))"
          using more 1 2 3 Cons Some rest(1) i(2) by (simp add: set_add_def t2_def)
        moreover have "\<forall>cs. map_option ((#) (conf ?w i)) r = Some cs \<longrightarrow>
            cs = map (conf ?w) (i # us) \<and> length (i # us) = min (Suc n) (card ?V - length (mt_visited t))"
          using rest(6) more by (cases r) auto
        moreover have "Suc n \<le> length dss \<and> (\<forall>ds \<in> set dss. ?V \<subseteq> set ds) \<longrightarrow>
            map_option ((#) (conf ?w i)) r \<noteq> None"
          using rest(7) Cons by simp
        ultimately show ?thesis using rest(2-5)
          by - (intro exI[of _ s'] exI[of _ t'] exI[of _ "map_option ((#) (conf ?w i)) r"] exI[of _ "i # us"] conjI; assumption)
      qed
    qed
  qed
qed

end

text \<open>C15: \<^verbatim>\<open>ModelBasedTuner.next_batch\<close> on a configuration space, with a plan in range and only
  valid indices visited: it never raises, returns the configurations of new, valid and pairwise
  different indices, as many as asked for or all that are left, and adds exactly those to
  \<^verbatim>\<open>visited\<close>. It returns whenever every call of the random generator can draw each valid index.\<close>

theorem model_tuner_no_repeats:
  assumes "proper cs" "coherent cs"
    and "plan_wf {i. 0 \<le> i \<and> i < num_points cs \<and> valid_at cs i} (num_points cs) t"
    and "\<forall>ds \<in> set dss. \<forall>d \<in> set ds. 0 \<le> d \<and> d < num_points cs"
  shows "\<exists>cs' t' r us. mt_next_batch config_ops dss n (cs, t) = ((cs', t'), Inr r) \<and>
           mt_visited t' = mt_visited t @ us \<and>
           plan_wf {i. 0 \<le> i \<and> i < num_points cs \<and> valid_at cs i} (num_points cs) t' \<and>
           (\<forall>xs. r = Some xs \<longrightarrow> xs = map (config_at cs) us \<and>
              length us = min n (card {i. 0 \<le> i \<and> i < num_points cs \<and> valid_at cs i} - length (mt_visited t))) \<and>
           (n \<le> length dss \<and>
              (\<forall>ds \<in> set dss. {i. 0 \<le> i \<and> i < num_points cs \<and> valid_at cs i} \<subseteq> set ds) \<longrightarrow> r \<noteq> None)"
proof -
  have "space_good cs" using assms(1,2) by (simp add: space_good_def)
  from cfg.model_batch[OF this, of t dss n] assms(3,4) show ?thesis
    unfolding view_determines by blast
qed

theorem model_tuner_no_repeats_witness:
  "\<exists>cs' t' r us. mt_next_batch config_ops [[0, 2, 4], [0, 2, 4]] 2
       (demo_space, \<lparr>mt_plan_size = 64, mt_diversity = None, mt_trials = [2, 3], mt_trial_pt = 0, mt_visited = [4],
          mt_xs = [], mt_ys = [], mt_flops_max = 0, mt_train_ct = 0\<rparr>) = ((cs', t'), Inr r) \<and>
     mt_visited t' = 4 # us \<and> r = Some (map (config_at demo_space) us) \<and> length us = 2"
proof -
  have V: "{i. 0 \<le> i \<and> i < 6 \<and> i mod 2 \<noteq> (1::int)} = {0, 2, 4}" by (auto; presburger)
  show ?thesis
    using model_tuner_no_repeats[OF demo_proper demo_coherent, of
      "\<lparr>mt_plan_size = 64, mt_diversity = None, mt_trials = [2, 3], mt_trial_pt = 0, mt_visited = [4],
          mt_xs = [], mt_ys = [], mt_flops_max = 0, mt_train_ct = 0\<rparr>" "[[0, 2, 4], [0, 2, 4]]" 2]
    unfolding demo_fields demo_valid V by (auto simp: plan_wf_def)
qed

section \<open>Updates\<close>

text \<open>What the loop of \<^verbatim>\<open>update\<close> does to the tuner when no assertion fails.\<close>

fun recorded :: "measured list \<Rightarrow> mtuner \<Rightarrow> mtuner" where
  "recorded [] t = t"
| "recorded (m # ms) t =
     recorded ms (t\<lparr>mt_xs := mt_xs t @ [measured_index m], mt_ys := mt_ys t @ [measured_flops m],
                    mt_flops_max := (case m of Measured i f c \<Rightarrow> max (mt_flops_max t) (measured_flops m)
                                             | Failed i \<Rightarrow> mt_flops_max t),
                    mt_visited := set_add (measured_index m) (mt_visited t)\<rparr>)"

lemma recorded_fields:
  "mt_xs (recorded ms t) = mt_xs t @ map measured_index ms"
  "mt_ys (recorded ms t) = mt_ys t @ map measured_flops ms"
  "set (mt_visited (recorded ms t)) = set (mt_visited t) \<union> measured_index ` set ms"
  "distinct (mt_visited t) \<Longrightarrow> distinct (mt_visited (recorded ms t))"
  "mt_plan_size (recorded ms t) = mt_plan_size t" "mt_train_ct (recorded ms t) = mt_train_ct t"
  "mt_trials (recorded ms t) = mt_trials t" "mt_diversity (recorded ms t) = mt_diversity t"
  by (induction ms arbitrary: t) (auto simp: set_add_def)

text \<open>\<^verbatim>\<open>flops_max\<close> is the maximum of zero and of all recorded speeds.\<close>

definition best_recorded :: "mtuner \<Rightarrow> bool" where
  "best_recorded t \<longleftrightarrow> mt_flops_max t = foldl max 0 (mt_ys t)"

lemma foldl_max_ge: "(a :: rat) \<le> foldl max a xs"
proof (induction xs arbitrary: a)
  case (Cons x xs)
  show ?case using Cons.IH[of "max a x"] by simp
qed simp

lemma recorded_best:
  assumes "best_recorded t" shows "best_recorded (recorded ms t)"
  using assms
proof (induction ms arbitrary: t)
  case (Cons m ms)
  have "0 \<le> foldl max 0 (mt_ys t)" by (rule foldl_max_ge)
  with Cons.prems have "best_recorded (t\<lparr>mt_xs := mt_xs t @ [measured_index m], mt_ys := mt_ys t @ [measured_flops m],
                    mt_flops_max := (case m of Measured i f c \<Rightarrow> max (mt_flops_max t) (measured_flops m)
                                             | Failed i \<Rightarrow> mt_flops_max t),
                    mt_visited := set_add (measured_index m) (mt_visited t)\<rparr>)"
    by (cases m) (simp_all add: best_recorded_def max_absorb1)
  then show ?case unfolding recorded.simps by (rule Cons.IH)
qed simp

context index_space
begin

lemma record_answers:
  assumes "good s" "\<forall>m \<in> set ms. measured_index m \<in> valid_set (view s)"
  shows "\<exists>s'. mt_record ops ms (s, t) = ((s', recorded ms t), Inr ()) \<and> good s' \<and> view s' = view s"
  using assms
proof (induction ms arbitrary: s t)
  case (Cons m ms)
  from valid_answers[OF Cons.prems(1), of "measured_index m"] Cons.prems(2) obtain s1 where 1:
    "sp_is_index_valid ops (measured_index m) s = (s1, Inr True)" "good s1" "view s1 = view s"
    by (auto simp: answers_def)
  let ?t = "t\<lparr>mt_xs := mt_xs t @ [measured_index m], mt_ys := mt_ys t @ [measured_flops m],
              mt_flops_max := (case m of Measured i f c \<Rightarrow> max (mt_flops_max t) (measured_flops m)
                                       | Failed i \<Rightarrow> mt_flops_max t),
              mt_visited := set_add (measured_index m) (mt_visited t)\<rparr>"
  obtain s2 where "mt_record ops ms (s1, ?t) = ((s2, recorded ms ?t), Inr ())" "good s2" "view s2 = view s"
    using Cons.IH[OF 1(2), of ?t] Cons.prems(2) 1(3) by auto
  with 1 show ?case by (auto simp: on_tuner_def)
qed simp

text \<open>A measurement of an index the filters reject stops the update.\<close>

lemma record_rejects:
  assumes "good s" "\<forall>m \<in> set ms. measured_index m \<in> valid_set (view s)"
    and "0 \<le> measured_index m" "measured_index m < npts (view s)" "\<not> ok (view s) (measured_index m)"
  shows "snd (mt_record ops (ms @ m # ms') (s, t)) = Inl AssertionError"
  using assms
proof (induction ms arbitrary: s t)
  case Nil
  from valid_answers[OF Nil(1,3,4)] Nil(5) obtain s1 where
    "sp_is_index_valid ops (measured_index m) s = (s1, Inr False)" by (auto simp: answers_def)
  then show ?case by (simp add: bindS_def on_tuner_def liftS_def assertE_def)
next
  case (Cons m' ms)
  from valid_answers[OF Cons.prems(1), of "measured_index m'"] Cons.prems(2) obtain s1 where 1:
    "sp_is_index_valid ops (measured_index m') s = (s1, Inr True)" "good s1" "view s1 = view s"
    by (auto simp: answers_def)
  with Cons.IH[OF 1(2)] Cons.prems(2-5) show ?case by (simp add: on_tuner_def)
qed

end

text \<open>
  What an optimizer promises: indices in range outside the excluded ones. How many candidates
  the tuner asks for, and how many it needs.
\<close>

definition finds ::
    "('s \<Rightarrow> bool) \<Rightarrow> ('s \<Rightarrow> 'w) \<Rightarrow> (nat \<Rightarrow> int list \<Rightarrow> ('s, int list) st) \<Rightarrow> 'w \<Rightarrow> int \<Rightarrow> nat \<Rightarrow> int list \<Rightarrow> nat \<Rightarrow> bool" where
  "finds good view maximize w n num excl least \<longleftrightarrow>
     (\<forall>s. good s \<and> view s = w \<longrightarrow> (\<exists>r. answers good view s (maximize num excl) r \<and> least \<le> length r \<and>
        (\<forall>i \<in> set r. 0 \<le> i \<and> i < n \<and> i \<notin> set excl)))"

definition diverse :: "mtuner \<Rightarrow> bool" where
  "diverse t \<longleftrightarrow> mt_diversity t \<noteq> None \<and> mt_diversity t \<noteq> Some 0"

definition plan_request :: "mtuner \<Rightarrow> nat" where
  "plan_request t = (if diverse t then mt_plan_size t * the (mt_diversity t) else mt_plan_size t)"

text \<open>When the plan is renewed.\<close>

definition plan_due :: "mtuner \<Rightarrow> bool" where
  "plan_due t \<longleftrightarrow> length (mt_xs t) \<ge> mt_plan_size t * (mt_train_ct t + 1) \<and> mt_flops_max t > 1 / 10 ^ 6"

lemma mt_update_due:
  "mt_update ops maximize ms =
     bindS (mt_record ops ms) (\<lambda>_. bindS (getS snd) (\<lambda>t.
       if plan_due t then
         bindS (on_space (mt_plan ops maximize t)) (\<lambda>maximums.
           on_tuner (\<lambda>t. t\<lparr>mt_trials := maximums, mt_trial_pt := 0, mt_train_ct := mt_train_ct t + 1\<rparr>))
       else returnS ()))"
  unfolding mt_update_def plan_due_def by (rule refl)

text \<open>The diversity filter also asks for the knobs of a point.\<close>

locale knob_space = index_space ops good view npts ok conf
  for ops :: "('s, 'c) space_ops" and good :: "'s \<Rightarrow> bool" and view :: "'s \<Rightarrow> 'w"
    and npts :: "'w \<Rightarrow> int" and ok :: "'w \<Rightarrow> int \<Rightarrow> bool" and conf :: "'w \<Rightarrow> int \<Rightarrow> 'c" +
  fixes knobs_at :: "'w \<Rightarrow> int \<Rightarrow> int list" and n_dims :: "'w \<Rightarrow> nat"
  assumes knob_answers: "good s \<Longrightarrow> answers good view s (sp_point2knob ops i) (knobs_at (view s) i)"
    and knob_length: "length (knobs_at w i) = n_dims w"
begin

lemma knobs_answers:
  assumes "good s"
  shows "answers good view s
    (foldr (\<lambda>x k. bindS (sp_point2knob ops x) (\<lambda>kn. bindS k (\<lambda>kns. returnS (kn # kns)))) xs (returnS []))
    (map (knobs_at (view s)) xs)"
  using assms
proof (induction xs arbitrary: s)
  case (Cons x xs)
  from knob_answers[OF Cons.prems, of x] obtain s1 where 1:
    "sp_point2knob ops x s = (s1, Inr (knobs_at (view s) x))" "good s1" "view s1 = view s"
    by (auto simp: answers_def)
  with Cons.IH[OF 1(2)] show ?case by (auto simp: answers_def)
qed (simp add: answers_def)

lemma mapE_nth_ints:
  assumes "\<forall>x \<in> set xs. x < length cand"
  shows "mapE (py_nth cand) (map int xs) = Inr (map ((!) cand) xs)"
  using assms by (induction xs) (auto simp: py_nth_def)

lemma plan_answers:
  assumes "good s" "finds good view maximize (view s) (npts (view s)) (plan_request t) (mt_visited t)
                      (if diverse t then max 1 (mt_plan_size t) else 0)"
  shows "\<exists>r. answers good view s (mt_plan ops maximize t) r \<and>
           (\<forall>i \<in> set r. 0 \<le> i \<and> i < npts (view s) \<and> i \<notin> set (mt_visited t))"
proof (cases "diverse t")
  case False
  then have "mt_plan ops maximize t = maximize (plan_request t) (mt_visited t)"
    by (auto simp: mt_plan_def diverse_def plan_request_def split: option.splits)
  with assms show ?thesis unfolding finds_def by metis
next
  case True
  then obtain d where d: "mt_diversity t = Some d" "d \<noteq> 0" by (auto simp: diverse_def)
  have req: "plan_request t = mt_plan_size t * d" using True d by (simp add: plan_request_def)
  from assms True obtain cand s1 where 1: "maximize (mt_plan_size t * d) (mt_visited t) s = (s1, Inr cand)"
      "good s1" "view s1 = view s" "max 1 (mt_plan_size t) \<le> length cand"
      "\<forall>i \<in> set cand. 0 \<le> i \<and> i < npts (view s) \<and> i \<notin> set (mt_visited t)"
    unfolding finds_def answers_def req by auto
  let ?k = "map (knobs_at (view s)) cand"
  from knobs_answers[OF 1(2), of cand] 1(3) obtain s2 where 2:
    "foldr (\<lambda>x k. bindS (sp_point2knob ops x) (\<lambda>kn. bindS k (\<lambda>kns. returnS (kn # kns)))) cand (returnS []) s1 = (s2, Inr ?k)"
    "good s2" "view s2 = view s" by (auto simp: answers_def)
  have "?k \<noteq> []" "\<forall>k \<in> set ?k. length k = n_dims (view s)" "mt_plan_size t \<le> length ?k"
    using 1(4) by (auto simp: knob_length)
  from submodular_pick_zero(1)[OF this] obtain xs where xs:
    "submodular_pick (replicate (length cand) 0) ?k (mt_plan_size t) 1 = Inr (map int xs)"
    "\<forall>x \<in> set xs. x < length cand" by auto
  have "mt_plan ops maximize t s = (s2, Inr (map ((!) cand) xs))"
    using d 1(1) 2(1) xs mapE_nth_ints[OF xs(2)] by (simp add: mt_plan_def)
  moreover have "set (map ((!) cand) xs) \<subseteq> set cand" using xs(2) by auto
  ultimately show ?thesis using 2(2,3) 1(5) by (intro exI[of _ "map ((!) cand) xs"]) (auto simp: answers_def)
qed

lemma plan_short:
  assumes "good s" "mt_diversity t = Some d" "d \<noteq> 0" "length cand < mt_plan_size t"
    and "answers good view s (maximize (mt_plan_size t * d) (mt_visited t)) cand"
  shows "snd (mt_plan ops maximize t s) = Inl (if cand = [] then IndexError else ValueError)"
proof -
  from assms(5) obtain s1 where 1: "maximize (mt_plan_size t * d) (mt_visited t) s = (s1, Inr cand)"
      "good s1" "view s1 = view s" by (auto simp: answers_def)
  let ?k = "map (knobs_at (view s)) cand"
  from knobs_answers[OF 1(2), of cand] 1(3) obtain s2 where 2:
    "foldr (\<lambda>x k. bindS (sp_point2knob ops x) (\<lambda>kn. bindS k (\<lambda>kns. returnS (kn # kns)))) cand (returnS []) s1 = (s2, Inr ?k)"
    by (auto simp: answers_def)
  have "submodular_pick (replicate (length cand) 0) ?k (mt_plan_size t) 1 = Inl (if cand = [] then IndexError else ValueError)"
  proof (cases "cand = []")
    case False
    with submodular_pick_zero(2)[of ?k "n_dims (view s)" "mt_plan_size t"] assms(4) show ?thesis
      by (simp add: knob_length)
  qed (simp add: submodular_pick_def py_nth_def)
  with 1(1) 2 assms(2,3) show ?thesis by (simp add: mt_plan_def bindS_def)
qed

lemma update_answers:
  assumes "good s" "\<forall>m \<in> set ms. measured_index m \<in> valid_set (view s)"
    and "plan_due (recorded ms t) \<Longrightarrow>
      finds good view maximize (view s) (npts (view s)) (plan_request (recorded ms t)) (mt_visited (recorded ms t))
        (if diverse t then max 1 (mt_plan_size t) else 0)"
  shows "\<exists>s' r. mt_update ops maximize ms (s, t) =
       ((s', if plan_due (recorded ms t)
             then (recorded ms t)\<lparr>mt_trials := r, mt_trial_pt := 0, mt_train_ct := mt_train_ct t + 1\<rparr>
             else recorded ms t), Inr ()) \<and>
     (\<forall>i \<in> set r. 0 \<le> i \<and> i < npts (view s) \<and> i \<notin> set (mt_visited (recorded ms t)))"
proof -
  let ?t = "recorded ms t"
  obtain s1 where 1: "mt_record ops ms (s, t) = ((s1, ?t), Inr ())" "good s1" "view s1 = view s"
    using record_answers[OF assms(1,2), of t] by blast
  show ?thesis
  proof (cases "plan_due ?t")
    case False
    with 1 show ?thesis by (intro exI[of _ s1] exI[of _ "[]"]) (simp add: mt_update_due)
  next
    case True
    have "diverse ?t = diverse t" "mt_plan_size ?t = mt_plan_size t"
      by (simp_all add: diverse_def recorded_fields)
    with plan_answers[OF 1(2), of maximize ?t] assms(3)[OF True] 1(3) obtain r where
      r: "answers good view s1 (mt_plan ops maximize ?t) r"
        "\<forall>i \<in> set r. 0 \<le> i \<and> i < npts (view s) \<and> i \<notin> set (mt_visited ?t)" by auto
    then obtain s2 where "mt_plan ops maximize ?t s1 = (s2, Inr r)" by (auto simp: answers_def)
    with 1(1) True have "mt_update ops maximize ms (s, t) =
        ((s2, ?t\<lparr>mt_trials := r, mt_trial_pt := 0, mt_train_ct := mt_train_ct ?t + 1\<rparr>), Inr ())"
      by (simp add: mt_update_due)
    with r(2) True show ?thesis by (auto simp: recorded_fields)
  qed
qed

lemma update_short:
  assumes "good s" "\<forall>m \<in> set ms. measured_index m \<in> valid_set (view s)"
    and "plan_due (recorded ms t)" "mt_diversity t = Some d" "d \<noteq> 0"
    and "\<And>s'. good s' \<Longrightarrow> view s' = view s \<Longrightarrow>
      answers good view s' (maximize (mt_plan_size t * d) (mt_visited (recorded ms t))) cand"
    and "length cand < mt_plan_size t"
  shows "snd (mt_update ops maximize ms (s, t)) = Inl (if cand = [] then IndexError else ValueError)"
proof -
  let ?t = "recorded ms t"
  obtain s1 where 1: "mt_record ops ms (s, t) = ((s1, ?t), Inr ())" "good s1" "view s1 = view s"
    using record_answers[OF assms(1,2), of t] by blast
  have "snd (mt_plan ops maximize ?t s1) = Inl (if cand = [] then IndexError else ValueError)"
    using plan_short[OF 1(2), of ?t d cand maximize] assms(4-7) 1 by (simp add: recorded_fields)
  with 1(1) assms(3) show ?thesis
    by (cases "mt_plan ops maximize ?t s1") (simp add: mt_update_due)
qed

end

lemma length_digits_of: "length (digits_of ds p) = length ds"
  by (induction ds arbitrary: p) simp_all

interpretation cfgk: knob_space config_ops space_good clear_cache num_points valid_at config_at
    "\<lambda>cs. digits_of (space_lens cs)" "\<lambda>cs. length (space_lens cs)"
proof (unfold_locales, goal_cases)
  case (1 s i)
  then show ?case
    using point2knob_yields[of s i] by (auto simp: space_good_def config_ops_def intro: yields_answers)
next
  case (2 w i)
  show ?case by (rule length_digits_of)
qed

text \<open>C16: \<^verbatim>\<open>ModelBasedTuner.update\<close> after measurements of valid configurations, with an optimizer
  that returns indices in range outside its excluded set (and, for the diversity filter, at
  least \<^verbatim>\<open>plan_size\<close> of them): it does not raise, adds the measurements to \<^verbatim>\<open>xs\<close>, \<^verbatim>\<open>ys\<close> and
  \<^verbatim>\<open>visited\<close>, keeps \<^verbatim>\<open>flops_max\<close> the maximum of the speeds, and renews the plan exactly when enough
  samples have come since the last training; a renewed plan has only indices that were not visited.\<close>

theorem model_tuner_update:
  assumes "proper cs" "coherent cs"
    and "plan_wf {i. 0 \<le> i \<and> i < num_points cs \<and> valid_at cs i} (num_points cs) t" "best_recorded t"
    and "\<forall>m \<in> set ms. 0 \<le> measured_index m \<and> measured_index m < num_points cs \<and> valid_at cs (measured_index m)"
    and "finds space_good clear_cache maximize (clear_cache cs) (num_points cs)
           (plan_request (recorded ms t)) (mt_visited (recorded ms t)) (if diverse t then max 1 (mt_plan_size t) else 0)"
  shows "\<exists>cs' t'. mt_update config_ops maximize ms (cs, t) = ((cs', t'), Inr ()) \<and>
     plan_wf {i. 0 \<le> i \<and> i < num_points cs \<and> valid_at cs i} (num_points cs) t' \<and> best_recorded t' \<and>
     mt_xs t' = mt_xs t @ map measured_index ms \<and> mt_ys t' = mt_ys t @ map measured_flops ms \<and>
     set (mt_visited t') = set (mt_visited t) \<union> measured_index ` set ms \<and>
     (if length (mt_xs t') \<ge> mt_plan_size t * (mt_train_ct t + 1) \<and> mt_flops_max t' > 1 / 10 ^ 6
      then mt_train_ct t' = mt_train_ct t + 1 \<and> mt_trial_pt t' = 0 \<and> set (mt_trials t') \<inter> set (mt_visited t') = {}
      else mt_train_ct t' = mt_train_ct t \<and> mt_trials t' = mt_trials t)"
proof -
  let ?t = "recorded ms t" and ?V = "{i. 0 \<le> i \<and> i < num_points cs \<and> valid_at cs i}"
  have good: "space_good cs" using assms(1,2) by (simp add: space_good_def)
  obtain cs' r where r: "mt_update config_ops maximize ms (cs, t) =
       ((cs', if plan_due ?t then ?t\<lparr>mt_trials := r, mt_trial_pt := 0, mt_train_ct := mt_train_ct t + 1\<rparr> else ?t), Inr ())"
     "\<forall>i \<in> set r. 0 \<le> i \<and> i < num_points cs \<and> i \<notin> set (mt_visited ?t)"
    using cfgk.update_answers[OF good, of ms t maximize] assms(5,6) by auto
  have wf: "plan_wf ?V (num_points cs) ?t"
    using assms(3,5) by (auto simp: plan_wf_def recorded_fields)
  have best: "best_recorded ?t" by (rule recorded_best[OF assms(4)])
  show ?thesis
  proof (cases "plan_due ?t")
    case True
    with r wf best show ?thesis
      by (intro exI[of _ cs'] exI[of _ "?t\<lparr>mt_trials := r, mt_trial_pt := 0, mt_train_ct := mt_train_ct t + 1\<rparr>"])
        (auto simp: plan_wf_def best_recorded_def plan_due_def recorded_fields)
  next
    case False
    with r wf best show ?thesis
      by (intro exI[of _ cs'] exI[of _ ?t]) (auto simp: plan_due_def recorded_fields)
  qed
qed

definition demo_tuner :: mtuner where
  "demo_tuner = \<lparr>mt_plan_size = 1, mt_diversity = Some 1, mt_trials = [], mt_trial_pt = 0, mt_visited = [0],
     mt_xs = [], mt_ys = [], mt_flops_max = 0, mt_train_ct = 0\<rparr>"

lemma demo_finds:
  "finds space_good clear_cache (\<lambda>n ex. returnS [4]) (clear_cache demo_space) 6 n [0, 2] 1"
  by (auto simp: finds_def answers_def)

lemma demo_recorded: "recorded [Measured 2 8 [2]] demo_tuner =
   demo_tuner\<lparr>mt_xs := [2], mt_ys := [4], mt_flops_max := 4, mt_visited := [0, 2]\<rparr>"
  by (simp add: demo_tuner_def np_mean_def set_add_def)

theorem model_tuner_update_witness:
  "\<exists>cs' t'. mt_update config_ops (\<lambda>n ex. returnS [4]) [Measured 2 8 [2]] (demo_space, demo_tuner) = ((cs', t'), Inr ()) \<and>
     mt_xs t' = [2] \<and> mt_train_ct t' = 1 \<and> set (mt_visited t') = {0, 2} \<and> 0 \<notin> set (mt_trials t')"
proof -
  let ?ms = "[Measured 2 8 [2]]" and ?f = "\<lambda>n ex. returnS [4] :: (nat config_space, int list) st"
  have wf: "plan_wf {i. 0 \<le> i \<and> i < num_points demo_space \<and> valid_at demo_space i} (num_points demo_space) demo_tuner"
    "best_recorded demo_tuner"
    by (simp_all add: plan_wf_def best_recorded_def demo_tuner_def demo_fields demo_valid)
  have least: "(if diverse demo_tuner then max 1 (mt_plan_size demo_tuner) else 0) = 1"
    by (simp add: diverse_def demo_tuner_def)
  have vis: "mt_visited (recorded ?ms demo_tuner) = [0, 2]" by (simp only: demo_recorded) simp
  have ms: "\<forall>m \<in> set ?ms. 0 \<le> measured_index m \<and> measured_index m < num_points demo_space \<and>
      valid_at demo_space (measured_index m)" by (simp add: demo_fields demo_valid)
  obtain cs' t' where *: "mt_update config_ops ?f ?ms (demo_space, demo_tuner) = ((cs', t'), Inr ())"
      "best_recorded t'" "mt_xs t' = mt_xs demo_tuner @ map measured_index ?ms"
      "mt_ys t' = mt_ys demo_tuner @ map measured_flops ?ms"
      "set (mt_visited t') = set (mt_visited demo_tuner) \<union> measured_index ` set ?ms"
      "if length (mt_xs t') \<ge> mt_plan_size demo_tuner * (mt_train_ct demo_tuner + 1) \<and> mt_flops_max t' > 1 / 10 ^ 6
       then mt_train_ct t' = mt_train_ct demo_tuner + 1 \<and> mt_trial_pt t' = 0 \<and> set (mt_trials t') \<inter> set (mt_visited t') = {}
       else mt_train_ct t' = mt_train_ct demo_tuner \<and> mt_trials t' = mt_trials demo_tuner"
    using model_tuner_update[OF demo_proper demo_coherent wf ms, of ?f] demo_finds
    unfolding vis least demo_fields(3) by blast
  have "mt_ys t' = [4]" using *(4) by (simp add: demo_tuner_def np_mean_def)
  with *(2) have "mt_flops_max t' = 4" by (simp add: best_recorded_def)
  with * show ?thesis by (intro exI[of _ cs'] exI[of _ t']) (auto simp: demo_tuner_def)
qed

text \<open>The diversity filter with an optimizer that finds fewer than \<^verbatim>\<open>plan_size\<close> candidates: \<^verbatim>\<open>update\<close>
  does not return but raises, \<^verbatim>\<open>ValueError\<close> from \<^verbatim>\<open>remain.remove(-1)\<close>, or \<^verbatim>\<open>IndexError\<close> from \<^verbatim>\<open>knobs[0]\<close>
  if it finds none.\<close>

theorem diversity_filter_short_raises:
  assumes "proper cs" "coherent cs"
    and "\<forall>m \<in> set ms. 0 \<le> measured_index m \<and> measured_index m < num_points cs \<and> valid_at cs (measured_index m)"
    and "plan_due (recorded ms t)" "mt_diversity t = Some d" "d \<noteq> 0" "length cand < mt_plan_size t"
  shows "snd (mt_update config_ops (\<lambda>n ex. returnS cand) ms (cs, t)) =
           Inl (if cand = [] then IndexError else ValueError)"
  using cfgk.update_short[of cs ms t d "\<lambda>n ex. returnS cand" cand] assms
  by (simp add: space_good_def answers_def)

theorem diversity_filter_short_raises_witness:
  "snd (mt_update config_ops (\<lambda>n ex. returnS []) [Measured 2 8 [2]] (demo_space, demo_tuner)) = Inl IndexError"
  using diversity_filter_short_raises[OF demo_proper demo_coherent, of "[Measured 2 8 [2]]" demo_tuner 1 "[]"]
  by (simp add: demo_recorded plan_due_def demo_fields demo_valid) (simp add: demo_tuner_def np_mean_def)

end
