(* ===== verification/GA_Tuner.thy ===== *)
theory GA_Tuner
  imports Model_Tuner
begin

text \<open>
  The genetic tuner of \<^verbatim>\<open>python/tvm/autotvm/tuner/ga_tuner.py\<close>. A gene is a knob vector. Random
  numbers are arguments: the draws of the first sample, and for every offspring the two parents,
  the crossover point and, for every knob, the number compared with \<^verbatim>\<open>mutation_prob\<close> and the new
  value. \<^verbatim>\<open>np.argpartition\<close> leaves the order of its result open and is an argument as well.
\<close>

section \<open>The tuner\<close>

record gtuner =
  ga_pop_size :: int
  ga_elite_num :: int
  ga_mutation_prob :: rat
  ga_visited :: "int list"
  ga_genes :: "int list list"
  ga_scores :: "rat list"
  ga_elites :: "int list list"
  ga_elite_scores :: "rat list"
  ga_trial_pt :: nat

record offspring =
  of_parents :: "nat \<times> nat"
  of_point :: nat
  of_mutations :: "(rat \<times> int) list"

fun all_knobs :: "('s, 'c) space_ops \<Rightarrow> int list \<Rightarrow> ('s, int list list) st" where
  "all_knobs ops [] = returnS []"
| "all_knobs ops (x # xs) =
     bindS (sp_point2knob ops x) (\<lambda>k. bindS (all_knobs ops xs) (\<lambda>ks. returnS (k # ks)))"

definition ga_init ::
    "('s, 'c) space_ops \<Rightarrow> int \<Rightarrow> int \<Rightarrow> rat \<Rightarrow> int list \<Rightarrow> ('s, gtuner option) st" where
  "ga_init ops pop_size elite_num prob draws =
     bindS (liftS (assertE (elite_num \<le> pop_size))) (\<lambda>_.
     bindS (sp_len ops) (\<lambda>l.
     let pop = min pop_size l; elite = min pop elite_num in
     bindS (sp_sample_ints ops draws pop) (\<lambda>r.
       case r of
         None \<Rightarrow> returnS None
       | Some vis \<Rightarrow>
           bindS (all_knobs ops vis) (\<lambda>genes.
             returnS (Some \<lparr>ga_pop_size = pop, ga_elite_num = elite, ga_mutation_prob = prob,
               ga_visited = vis, ga_genes = genes, ga_scores = [], ga_elites = [], ga_elite_scores = [],
               ga_trial_pt = 0\<rparr>)))))"

definition ga_has_next :: "('s, 'c) space_ops \<Rightarrow> gtuner \<Rightarrow> ('s, bool) st" where
  "ga_has_next ops t =
     bindS (sp_len ops) (\<lambda>l.
       returnS (int (length (ga_visited t)) - (int (length (ga_genes t)) - int (ga_trial_pt t)) < l))"

definition ga_gene :: "gtuner \<Rightarrow> int list py" where
  "ga_gene t =
     (if ga_pop_size t = 0 then Inl ZeroDivisionError
      else py_nth (ga_genes t) (int (ga_trial_pt t) mod ga_pop_size t))"

fun ga_next_batch :: "('s, 'c) space_ops \<Rightarrow> nat \<Rightarrow> ('s \<times> gtuner, 'c list) st" where
  "ga_next_batch ops 0 = returnS []"
| "ga_next_batch ops (Suc n) =
     bindS (getS snd) (\<lambda>t.
     bindS (on_space (ga_has_next ops t)) (\<lambda>more.
       if \<not> more then returnS []
       else
         bindS (liftS (ga_gene t)) (\<lambda>g.
         bindS (on_tuner (\<lambda>t. t\<lparr>ga_trial_pt := ga_trial_pt t + 1\<rparr>)) (\<lambda>_.
         bindS (on_space (bindS (sp_knob2point ops g) (sp_get ops))) (\<lambda>c.
         bindS (ga_next_batch ops n) (\<lambda>cs. returnS (c # cs)))))))"

section \<open>The next generation\<close>

text \<open>All indices that are left, when they are no more than a population.\<close>

primrec unvisited_genes :: "('s, 'c) space_ops \<Rightarrow> int list \<Rightarrow> int list \<Rightarrow> ('s, int list list \<times> int list) st" where
  "unvisited_genes ops vis [] = returnS ([], vis)"
| "unvisited_genes ops vis (i # is') =
     bindS (sp_is_index_valid ops i) (\<lambda>b.
       if b \<and> i \<notin> set vis then
         bindS (sp_point2knob ops i) (\<lambda>k.
         bindS (unvisited_genes ops (set_add i vis) is') (\<lambda>(ks, vis'). returnS (k # ks, vis')))
       else unvisited_genes ops vis is')"

text \<open>\<^verbatim>\<open>xs[-n:]\<close>: all of \<open>xs\<close> for \<^verbatim>\<open>n = 0\<close>.\<close>

definition tail_slice :: "int \<Rightarrow> 'a list \<Rightarrow> 'a list" where
  "tail_slice n xs = (if n \<le> 0 then drop (nat (- n)) xs else drop (length xs - nat n) xs)"

definition reserve_elites ::
    "(rat list \<Rightarrow> int \<Rightarrow> nat list) \<Rightarrow> int list list \<Rightarrow> rat list \<Rightarrow> int \<Rightarrow> (int list list \<times> rat list) py" where
  "reserve_elites argpartition genes scores elite_num =
     bindE (mapE (\<lambda>i. bindE (py_nth genes (int i)) (\<lambda>g. bindE (py_nth scores (int i)) (\<lambda>s. Inr (g, s))))
              (tail_slice elite_num (argpartition scores (- elite_num)))) (\<lambda>gs.
       Inr (map fst gs, map snd gs))"

text \<open>The probabilities of the parents.\<close>

definition parent_probs :: "rat list \<Rightarrow> rat list" where
  "parent_probs scores =
     (let s = map (\<lambda>x. x + 1 / 10 ^ 8) scores; m = foldr max (tl s) (hd s); s' = map (\<lambda>x. x / m) s in
      map (\<lambda>x. x / sum_list s') s')"

text \<open>\<^verbatim>\<open>np.random.choice(indices, size=2, replace=False, p=probs)\<close>: the errors it raises.\<close>

definition choose_parents :: "rat list \<Rightarrow> nat \<times> nat \<Rightarrow> (nat \<times> nat) py" where
  "choose_parents probs ps =
     (if length (filter (\<lambda>p. p \<noteq> 0) probs) < 2 \<or> (\<exists>p \<in> set probs. p < 0) then Inl ValueError else Inr ps)"

fun mutate :: "rat \<Rightarrow> (rat \<times> int) list \<Rightarrow> int list \<Rightarrow> int list" where
  "mutate prob ((r, v) # ms) (g # gs) = (if r < prob then v else g) # mutate prob ms gs"
| "mutate prob ms gs = gs"

definition crossover :: "rat \<Rightarrow> int list list \<Rightarrow> offspring \<Rightarrow> int list py" where
  "crossover prob genes o' =
     bindE (py_nth genes (int (fst (of_parents o')))) (\<lambda>p1.
     bindE (py_nth genes (int (snd (of_parents o')))) (\<lambda>p2.
       Inr (mutate prob (of_mutations o') (take (of_point o') p1 @ drop (of_point o') p2))))"

text \<open>\<open>n\<close> is \<^verbatim>\<open>pop_size - len(next_genes)\<close>; \<open>None\<close> when the offspring run out.\<close>

fun breed ::
    "('s, 'c) space_ops \<Rightarrow> rat \<Rightarrow> int list list \<Rightarrow> rat list \<Rightarrow> offspring list \<Rightarrow> nat \<Rightarrow> int list \<Rightarrow>
     ('s, (int list list \<times> int list) option) st" where
  "breed ops prob genes probs os 0 vis = returnS (Some ([], vis))"
| "breed ops prob genes probs [] (Suc n) vis = returnS None"
| "breed ops prob genes probs (o' # os) (Suc n) vis =
     bindS (liftS (choose_parents probs (of_parents o'))) (\<lambda>_.
     bindS (liftS (crossover prob genes o')) (\<lambda>g.
     bindS (bindS (sp_knob2point ops g) (sp_is_index_valid ops)) (\<lambda>b.
       if b then
         bindS (sp_knob2point ops g) (\<lambda>p.
         bindS (breed ops prob genes probs os n (set_add p vis)) (\<lambda>r.
           returnS (map_option (\<lambda>(gs, vis'). (g # gs, vis')) r)))
       else breed ops prob genes probs os (Suc n) vis)))"

definition ga_generation ::
    "('s, 'c) space_ops \<Rightarrow> (rat list \<Rightarrow> int \<Rightarrow> nat list) \<Rightarrow> offspring list \<Rightarrow> ('s \<times> gtuner, unit option) st" where
  "ga_generation ops argpartition os =
     bindS (getS snd) (\<lambda>t.
     bindS (on_space (sp_len ops)) (\<lambda>l.
       if l - int (length (ga_visited t)) \<le> ga_pop_size t then
         bindS (on_space (sp_range_length ops)) (\<lambda>r.
         bindS (on_space (unvisited_genes ops (ga_visited t) [0..r - 1])) (\<lambda>(gs, vis).
         bindS (on_tuner (\<lambda>t. t\<lparr>ga_visited := vis, ga_genes := gs, ga_trial_pt := 0, ga_scores := []\<rparr>)) (\<lambda>_.
           returnS (Some ()))))
       else
         let genes = ga_genes t @ ga_elites t;
             scores = take (length (ga_genes t)) (ga_scores t) @ ga_elite_scores t in
         bindS (liftS (reserve_elites argpartition genes scores (ga_elite_num t))) (\<lambda>(es, ess).
         bindS (on_tuner (\<lambda>t. t\<lparr>ga_elites := es, ga_elite_scores := ess\<rparr>)) (\<lambda>_.
         bindS (on_space (breed ops (ga_mutation_prob t) genes (parent_probs scores) os
                            (nat (ga_pop_size t)) (ga_visited t))) (\<lambda>r.
           case r of
             None \<Rightarrow> returnS None
           | Some (gs, vis) \<Rightarrow>
               bindS (on_tuner (\<lambda>t. t\<lparr>ga_visited := vis, ga_genes := gs, ga_trial_pt := 0, ga_scores := []\<rparr>)) (\<lambda>_.
                 returnS (Some ())))))))"

definition ga_update ::
    "('s, 'c) space_ops \<Rightarrow> (rat list \<Rightarrow> int \<Rightarrow> nat list) \<Rightarrow> offspring list \<Rightarrow> measured list \<Rightarrow>
     ('s \<times> gtuner, unit option) st" where
  "ga_update ops argpartition os ms =
     bindS (on_tuner (\<lambda>t. t\<lparr>ga_scores := ga_scores t @ map measured_flops ms\<rparr>)) (\<lambda>_.
     bindS (getS snd) (\<lambda>t.
       if length (ga_scores t) \<ge> length (ga_genes t) then
         bindS (on_space (sp_len ops)) (\<lambda>l.
           if int (length (ga_visited t)) < l then ga_generation ops argpartition os
           else returnS (Some ()))
       else returnS (Some ())))"

section \<open>What the tuner needs of the space\<close>

locale gene_space = walk_space ops good view npts ok conf moves + knob_space ops good view npts ok conf knobs_at n_dims
  for ops :: "('s, 'c) space_ops" and good :: "'s \<Rightarrow> bool" and view :: "'s \<Rightarrow> 'w"
    and npts :: "'w \<Rightarrow> int" and ok :: "'w \<Rightarrow> int \<Rightarrow> bool" and conf :: "'w \<Rightarrow> int \<Rightarrow> 'c"
    and moves :: "'w \<Rightarrow> (nat \<times> int) list \<Rightarrow> bool"
    and knobs_at :: "'w \<Rightarrow> int \<Rightarrow> int list" and n_dims :: "'w \<Rightarrow> nat" +
  fixes dims_of :: "'w \<Rightarrow> int list" and point_of :: "'w \<Rightarrow> int list \<Rightarrow> int"
  assumes point_answers: "good s \<Longrightarrow> in_dims (dims_of (view s)) ks \<Longrightarrow>
      answers good view s (sp_knob2point ops ks) (point_of (view s) ks)"
    and point_range: "good s \<Longrightarrow> in_dims (dims_of (view s)) ks \<Longrightarrow>
      0 \<le> point_of (view s) ks \<and> point_of (view s) ks < npts (view s)"
    and knobs_in_dims: "good s \<Longrightarrow> in_dims (dims_of (view s)) (knobs_at (view s) i)"
    and point_of_knobs: "good s \<Longrightarrow> 0 \<le> i \<Longrightarrow> i < npts (view s) \<Longrightarrow> point_of (view s) (knobs_at (view s) i) = i"

interpretation cfgg: gene_space config_ops space_good clear_cache num_points valid_at config_at walk_draws
    "\<lambda>cs. digits_of (space_lens cs)" "\<lambda>cs. length (space_lens cs)" space_lens "\<lambda>cs. encode (space_lens cs)"
proof (unfold_locales, goal_cases)
  case (1 s ks)
  then show ?case
    using knob2point_yields[of s ks] in_dims_length[of "space_lens s" ks]
    by (auto simp: space_good_def config_ops_def intro: yields_answers)
next
  case (2 s ks)
  then show ?case using encode_bounds[of "space_lens s" ks] by (simp add: num_points_def)
next
  case (3 s i)
  then show ?case using space_lens_pos[of s] by (auto simp: space_good_def intro!: in_dims_digits)
next
  case (4 s i)
  then show ?case using space_lens_pos[of s]
    by (auto simp: space_good_def num_points_def intro!: encode_digits)
qed

section \<open>Batches\<close>

text \<open>
  The invariant: only valid indices are visited, genes and elites are knob vectors, the genes stand
  for visited indices, and the generation is a full population unless everything is visited.
\<close>

definition ga_wf :: "int set \<Rightarrow> int list \<Rightarrow> (int list \<Rightarrow> int) \<Rightarrow> gtuner \<Rightarrow> bool" where
  "ga_wf V ds pt t \<longleftrightarrow>
     0 < ga_pop_size t \<and> distinct (ga_visited t) \<and> set (ga_visited t) \<subseteq> V \<and>
     (\<forall>g \<in> set (ga_genes t). in_dims ds g \<and> pt g \<in> set (ga_visited t)) \<and>
     (\<forall>g \<in> set (ga_elites t). in_dims ds g) \<and> length (ga_elites t) = length (ga_elite_scores t) \<and>
     (\<forall>x \<in> set (ga_scores t) \<union> set (ga_elite_scores t). 0 \<le> x) \<and>
     (int (length (ga_genes t)) = ga_pop_size t \<or>
      length (ga_visited t) = card V \<and> int (length (ga_genes t)) \<le> ga_pop_size t)"

text \<open>How many configurations \<^verbatim>\<open>next_batch\<close> can still hand out in this generation.\<close>

definition ga_left :: "int set \<Rightarrow> gtuner \<Rightarrow> nat" where
  "ga_left V t = nat (int (card V) - int (length (ga_visited t)) + int (length (ga_genes t)) - int (ga_trial_pt t))"

lemma ga_gene_next:
  assumes "ga_wf V ds pt t" "0 < ga_left V t"
  shows "ga_gene t = Inr (ga_genes t ! (ga_trial_pt t mod nat (ga_pop_size t)))"
    and "ga_genes t ! (ga_trial_pt t mod nat (ga_pop_size t)) \<in> set (ga_genes t)"
proof -
  let ?i = "ga_trial_pt t mod nat (ga_pop_size t)"
  have pop: "0 < ga_pop_size t" using assms(1) by (simp add: ga_wf_def)
  have i: "?i < length (ga_genes t)"
  proof (cases "int (length (ga_genes t)) = ga_pop_size t")
    case True
    then have "nat (ga_pop_size t) = length (ga_genes t)" by simp
    then show ?thesis using pop by (simp only: mod_less_divisor zero_less_nat_eq)
  next
    case False
    with assms(1) have "length (ga_visited t) = card V" "int (length (ga_genes t)) \<le> ga_pop_size t"
      unfolding ga_wf_def by blast+
    with assms(2) have "ga_trial_pt t < length (ga_genes t)" "length (ga_genes t) \<le> nat (ga_pop_size t)"
      by (auto simp: ga_left_def)
    then show ?thesis by simp
  qed
  have "int (ga_trial_pt t) mod ga_pop_size t = int ?i" using pop by (simp add: zmod_int)
  with i pop show "ga_gene t = Inr (ga_genes t ! ?i)" by (simp add: ga_gene_def py_nth_def)
  from i show "ga_genes t ! ?i \<in> set (ga_genes t)" by (rule nth_mem)
qed

lemma ga_wf_trial [simp]: "ga_wf V ds pt (t\<lparr>ga_trial_pt := n\<rparr>) = ga_wf V ds pt t"
  by (simp add: ga_wf_def)

lemma ga_left_trial: "ga_left V (t\<lparr>ga_trial_pt := Suc (ga_trial_pt t)\<rparr>) = ga_left V t - 1"
  by (simp add: ga_left_def)

context gene_space
begin

abbreviation gene_wf :: "'w \<Rightarrow> gtuner \<Rightarrow> bool" where
  "gene_wf w \<equiv> ga_wf (valid_set w) (dims_of w) (point_of w)"

lemma ga_has_next_answers:
  assumes "good s"
  shows "answers good view s (ga_has_next ops t) (0 < ga_left (valid_set (view s)) t)"
proof -
  from len_answers[OF assms] obtain s1 where 1:
    "sp_len ops s = (s1, Inr (int (card (valid_set (view s)))))" "good s1" "view s1 = view s"
    by (auto simp: answers_def)
  then have "ga_has_next ops t s = (s1, Inr (int (length (ga_visited t)) - (int (length (ga_genes t)) -
      int (ga_trial_pt t)) < int (card (valid_set (view s)))))" by (simp add: ga_has_next_def)
  moreover have "(int (length (ga_visited t)) - (int (length (ga_genes t)) - int (ga_trial_pt t))
      < int (card (valid_set (view s)))) = (0 < ga_left (valid_set (view s)) t)"
    unfolding ga_left_def by linarith
  ultimately show ?thesis using 1 by (simp add: answers_def)
qed

lemma ga_gene_config:
  assumes "good s" "gene_wf (view s) t" "g \<in> set (ga_genes t)"
  shows "answers good view s (bindS (sp_knob2point ops g) (sp_get ops)) (conf (view s) (point_of (view s) g))"
proof -
  have g: "in_dims (dims_of (view s)) g" "point_of (view s) g \<in> valid_set (view s)"
    using assms(2,3) by (auto simp: ga_wf_def)
  from point_answers[OF assms(1) g(1)] obtain s1 where 1:
    "sp_knob2point ops g s = (s1, Inr (point_of (view s) g))" "good s1" "view s1 = view s"
    by (auto simp: answers_def)
  from get_answers[OF 1(2), of "point_of (view s) g"] g(2) 1(3) show ?thesis
    using 1(1) by (auto simp: answers_def)
qed

lemma ga_batch:
  fixes n :: nat
  assumes "good s" "gene_wf (view s) t"
  defines "gene \<equiv> \<lambda>k. ga_genes t ! ((ga_trial_pt t + k) mod nat (ga_pop_size t))"
    and "m \<equiv> min n (ga_left (valid_set (view s)) t)"
  shows "\<exists>s'. ga_next_batch ops n (s, t) =
           ((s', t\<lparr>ga_trial_pt := ga_trial_pt t + m\<rparr>), Inr (map (\<lambda>k. conf (view s) (point_of (view s) (gene k))) [0..<m])) \<and>
           good s' \<and> view s' = view s"
  using assms(1,2) unfolding gene_def m_def
proof (induction n arbitrary: s t)
  case 0
  then show ?case by simp
next
  case (Suc n)
  let ?V = "valid_set (view s)" and ?g = "\<lambda>t k. ga_genes t ! ((ga_trial_pt t + k) mod nat (ga_pop_size t))"
  from ga_has_next_answers[OF Suc.prems(1), of t] obtain s1 where 1:
    "ga_has_next ops t s = (s1, Inr (0 < ga_left ?V t))" "good s1" "view s1 = view s" by (auto simp: answers_def)
  show ?case
  proof (cases "0 < ga_left ?V t")
    case False
    with 1 show ?thesis by (intro exI[of _ s1]) (simp add: bindS_def)
  next
    case True
    note g = ga_gene_next[OF Suc.prems(2) True]
    let ?t = "t\<lparr>ga_trial_pt := Suc (ga_trial_pt t)\<rparr>"
    have "?g t 0 \<in> set (ga_genes t)" using g(2) by simp
    from ga_gene_config[OF 1(2), of t "?g t 0"] this Suc.prems(2) 1(3) obtain s2 where 2:
      "bindS (sp_knob2point ops (?g t 0)) (sp_get ops) s1 = (s2, Inr (conf (view s) (point_of (view s) (?g t 0))))"
      "good s2" "view s2 = view s" by (auto simp: answers_def)
    let ?m = "min n (ga_left ?V t - 1)"
    have "gene_wf (view s2) ?t" using Suc.prems(2) 2(3) by simp
    from Suc.IH[OF 2(2) this] 2(3) obtain s3 where 3:
      "ga_next_batch ops n (s2, ?t) = ((s3, ?t\<lparr>ga_trial_pt := ga_trial_pt ?t + ?m\<rparr>),
         Inr (map (\<lambda>k. conf (view s) (point_of (view s) (?g ?t k))) [0..<?m]))" "good s3" "view s3 = view s"
      by (auto simp: ga_left_trial)
    have m: "min (Suc n) (ga_left ?V t) = Suc ?m" using True by simp
    have "map (\<lambda>k. conf (view s) (point_of (view s) (?g t k))) [0..<Suc ?m] =
        conf (view s) (point_of (view s) (?g t 0)) # map (\<lambda>k. conf (view s) (point_of (view s) (?g ?t k))) [0..<?m]"
      by (simp only: map_upt_Suc) simp
    with True 1(1) g(1) 2(1) 3 show ?thesis unfolding m by (intro exI[of _ s3]) (simp add: bindS_Inr[of "on_space (ga_has_next ops t)" _ _ True])
  qed
qed

end

section \<open>Offspring\<close>

text \<open>Draws the generator can return: parents of the pool, mutated values within their dimension.\<close>

definition offspring_ok :: "int list \<Rightarrow> int list list \<Rightarrow> offspring \<Rightarrow> bool" where
  "offspring_ok ds pool o' \<longleftrightarrow>
     fst (of_parents o') < length pool \<and> snd (of_parents o') < length pool \<and>
     list_all2 (\<lambda>d m. 0 \<le> snd m \<and> snd m < d) ds (of_mutations o')"

text \<open>The child of one draw, and the children of a list of draws that pass the test of the loop.\<close>

definition child :: "rat \<Rightarrow> int list list \<Rightarrow> offspring \<Rightarrow> int list" where
  "child prob pool o' = mutate prob (of_mutations o')
     (take (of_point o') (pool ! fst (of_parents o')) @ drop (of_point o') (pool ! snd (of_parents o')))"

definition valid_children :: "(int list \<Rightarrow> bool) \<Rightarrow> rat \<Rightarrow> int list list \<Rightarrow> offspring list \<Rightarrow> int list list" where
  "valid_children passes prob pool os = filter passes (map (child prob pool) os)"

lemma fold_set_add: "set (fold set_add ps vis) = set vis \<union> set ps" "distinct (fold set_add ps vis) = distinct vis"
  by (induction ps arbitrary: vis) (auto simp: set_add_def)

lemma mutate_in_dims:
  assumes "list_all2 (\<lambda>d m. 0 \<le> snd m \<and> snd m < d) ds ms" "in_dims ds g"
  shows "in_dims ds (mutate prob ms g)"
  using assms
proof (induction arbitrary: g rule: list_all2_induct)
  case (Cons d ds m ms)
  then obtain k ks where g: "g = k # ks" "0 \<le> k" "k < d" "in_dims ds ks"
    by (auto simp: in_dims_def list_all2_Cons1)
  with Cons show ?case by (cases m) (auto simp: in_dims_def)
qed simp

lemma crossover_child:
  assumes "offspring_ok ds pool o'" "\<forall>g \<in> set pool. in_dims ds g"
  shows "crossover prob pool o' = Inr (child prob pool o')" "in_dims ds (child prob pool o')"
proof -
  let ?p1 = "pool ! fst (of_parents o')" and ?p2 = "pool ! snd (of_parents o')"
  have p: "in_dims ds ?p1" "in_dims ds ?p2" using assms by (simp_all add: offspring_ok_def)
  have "in_dims (take (of_point o') ds @ drop (of_point o') ds) (take (of_point o') ?p1 @ drop (of_point o') ?p2)"
    unfolding in_dims_def
    using p by (intro list_all2_appendI list_all2_takeI list_all2_dropI) (simp_all add: in_dims_def)
  then show "in_dims ds (child prob pool o')"
    unfolding child_def using assms(1) by (intro mutate_in_dims) (auto simp: offspring_ok_def)
  show "crossover prob pool o' = Inr (child prob pool o')"
    using assms(1) by (simp add: crossover_def child_def py_nth_def offspring_ok_def)
qed

lemma valid_children_in_dims:
  assumes "\<forall>o' \<in> set os. offspring_ok ds pool o'" "\<forall>g \<in> set pool. in_dims ds g" "g \<in> set (take n (valid_children passes prob pool os))"
  shows "in_dims ds g \<and> passes g"
  using in_set_takeD[OF assms(3)] crossover_child(2)[OF _ assms(2), of _ prob] assms(1)
  by (auto simp: valid_children_def)

lemma scaled_pos: "\<forall>y \<in> set ys. 0 < y \<Longrightarrow> 0 < c \<Longrightarrow> \<forall>p \<in> set (map (\<lambda>y. y / c) ys). 0 < (p :: rat)"
  by simp

lemma reserve_elites_ok:
  assumes "set (argpart scores (- n)) \<subseteq> {..<length scores}" "length scores = length genes"
  shows "\<exists>es ess. reserve_elites argpart genes scores n = Inr (es, ess) \<and>
     set es \<subseteq> set genes \<and> set ess \<subseteq> set scores \<and> length es = length ess"
proof -
  let ?f = "\<lambda>i. bindE (py_nth genes (int i)) (\<lambda>g. bindE (py_nth scores (int i)) (\<lambda>s. Inr (g, s)))"
  let ?is = "tail_slice n (argpart scores (- n))"
  have "mapE ?f js = Inr (map (\<lambda>i. (genes ! i, scores ! i)) js)" if "set js \<subseteq> {..<length genes}" for js
    using that assms(2) by (induction js) (auto simp: py_nth_def)
  moreover have "set ?is \<subseteq> {..<length genes}" using assms by (auto simp: tail_slice_def dest: in_set_dropD)
  ultimately show ?thesis using assms(2) by (auto simp: reserve_elites_def)
qed

text \<open>With scores that are not negative all probabilities are positive.\<close>

lemma parent_probs_pos:
  assumes "\<forall>x \<in> set scores. 0 \<le> x"
  shows "\<forall>p \<in> set (parent_probs scores). 0 < p"
proof (cases scores)
  case (Cons x xs)
  let ?s = "map (\<lambda>x. x + 1 / 10 ^ 8) scores"
  have pos: "\<forall>y \<in> set ?s. 0 < y" using assms by (auto intro: add_nonneg_pos)
  have "0 < foldr max ys a" if "0 < a" for ys :: "rat list" and a using that by (induction ys) (auto simp: less_max_iff_disj)
  then have m: "0 < foldr max (tl ?s) (hd ?s)" using pos Cons by simp
  let ?s' = "map (\<lambda>y. y / foldr max (tl ?s) (hd ?s)) ?s"
  have pos': "\<forall>y \<in> set ?s'. 0 < y" by (rule scaled_pos[OF pos m])
  have "0 < sum_list ys" if "\<forall>y \<in> set ys. 0 < y" "ys \<noteq> []" for ys :: "rat list"
    using that by (induction ys) (auto intro: add_pos_nonneg sum_list_nonneg less_imp_le)
  then have "0 < sum_list ?s'" using pos' Cons by blast
  from scaled_pos[OF pos' this] show ?thesis unfolding parent_probs_def Let_def .
qed (simp add: parent_probs_def Let_def)

lemma choose_parents_ok:
  assumes "\<forall>x \<in> set scores. 0 \<le> x" "2 \<le> length scores"
  shows "choose_parents (parent_probs scores) ps = Inr ps"
proof -
  have "filter (\<lambda>p. p \<noteq> 0) (parent_probs scores) = parent_probs scores"
    using parent_probs_pos[OF assms(1)] by (force intro: filter_True)
  moreover have "length (parent_probs scores) = length scores" by (simp add: parent_probs_def Let_def)
  ultimately show ?thesis
    using parent_probs_pos[OF assms(1)] assms(2) by (force simp: choose_parents_def)
qed

context gene_space
begin

lemma all_knobs_answers:
  assumes "good s"
  shows "answers good view s (all_knobs ops xs) (map (knobs_at (view s)) xs)"
  using assms
proof (induction xs arbitrary: s)
  case (Cons x xs)
  from knob_answers[OF Cons.prems, of x] obtain s1 where 1:
    "sp_point2knob ops x s = (s1, Inr (knobs_at (view s) x))" "good s1" "view s1 = view s"
    by (auto simp: answers_def)
  with Cons.IH[OF 1(2)] show ?case by (auto simp: answers_def)
qed (simp add: answers_def)

lemma unvisited_answers:
  assumes "good s" "\<forall>i \<in> set js. 0 \<le> i \<and> i < npts (view s)" "distinct js"
  shows "answers good view s (unvisited_genes ops vis js)
    (let fresh = filter (\<lambda>i. ok (view s) i \<and> i \<notin> set vis) js in (map (knobs_at (view s)) fresh, vis @ fresh))"
  using assms
proof (induction js arbitrary: s vis)
  case Nil
  then show ?case by (simp add: answers_def)
next
  case (Cons i js)
  from valid_answers[OF Cons.prems(1), of i] Cons.prems(2) obtain s1 where 1:
    "sp_is_index_valid ops i s = (s1, Inr (ok (view s) i))" "good s1" "view s1 = view s" by (auto simp: answers_def)
  have js: "\<forall>j \<in> set js. 0 \<le> j \<and> j < npts (view s1)" "distinct js" using Cons.prems(2,3) 1(3) by auto
  show ?case
  proof (cases "ok (view s) i \<and> i \<notin> set vis")
    case True
    from knob_answers[OF 1(2), of i] 1(3) obtain s2 where 2:
      "sp_point2knob ops i s1 = (s2, Inr (knobs_at (view s) i))" "good s2" "view s2 = view s" by (auto simp: answers_def)
    have same: "filter (\<lambda>j. ok (view s) j \<and> j \<notin> set (vis @ [i])) js = filter (\<lambda>j. ok (view s) j \<and> j \<notin> set vis) js"
      using Cons.prems(3) by (auto intro!: filter_cong)
    from Cons.IH[OF 2(2) _ js(2), of "vis @ [i]"] js(1) 1(3) 2(3) obtain s3 where
      "unvisited_genes ops (vis @ [i]) js s2 = (s3, Inr
        (let fresh = filter (\<lambda>i. ok (view s) i \<and> i \<notin> set vis) js in (map (knobs_at (view s)) fresh, (vis @ [i]) @ fresh)))"
      "good s3" "view s3 = view s"
      unfolding answers_def 2(3) same by auto
    with True 1 2 show ?thesis
      unfolding answers_def by (intro exI[of _ s3]) (simp add: set_add_def Let_def bindS_def)
  next
    case False
    from Cons.IH[OF 1(2) js, of vis] 1(3) obtain s2 where
      "unvisited_genes ops vis js s1 = (s2, Inr
        (let fresh = filter (\<lambda>i. ok (view s) i \<and> i \<notin> set vis) js in (map (knobs_at (view s)) fresh, vis @ fresh)))"
      "good s2" "view s2 = view s" by (auto simp: answers_def)
    with False 1 show ?thesis
      unfolding answers_def by (intro exI[of _ s2]) (auto simp: Let_def bindS_def)
  qed
qed

text \<open>The loop takes the first \<open>n\<close> children that are valid; it goes on while there are fewer.\<close>

abbreviation gene_valid :: "'w \<Rightarrow> int list \<Rightarrow> bool" where
  "gene_valid w \<equiv> \<lambda>g. ok w (point_of w g)"

lemma breed_answers:
  assumes "good s" "\<forall>g \<in> set pool. in_dims (dims_of (view s)) g"
    and "\<And>ps. choose_parents probs ps = Inr ps" "\<forall>o' \<in> set os. offspring_ok (dims_of (view s)) pool o'"
  shows "answers good view s (breed ops prob pool probs os n vis)
    (let kids = valid_children (gene_valid (view s)) prob pool os in
     if n \<le> length kids then Some (take n kids, fold set_add (map (point_of (view s)) (take n kids)) vis) else None)"
  using assms
proof (induction os arbitrary: s n vis)
  case Nil
  then show ?case by (cases n) (auto simp: answers_def valid_children_def)
next
  case (Cons o' os)
  let ?w = "view s" and ?g = "child prob pool o'"
  let ?p = "point_of ?w ?g"
  show ?case
  proof (cases n)
    case 0
    with Cons.prems show ?thesis by (auto simp: answers_def Let_def)
  next
    case (Suc m)
    have g: "crossover prob pool o' = Inr ?g" "in_dims (dims_of ?w) ?g"
      using crossover_child[of "dims_of ?w" pool o' prob] Cons.prems(2,4) by auto
    have p: "0 \<le> ?p" "?p < npts ?w" using point_range[OF Cons.prems(1) g(2)] by auto
    from point_answers[OF Cons.prems(1) g(2)] obtain s1 where 1:
      "sp_knob2point ops ?g s = (s1, Inr ?p)" "good s1" "view s1 = ?w" by (auto simp: answers_def)
    from valid_answers[OF 1(2), of ?p] p 1(3) obtain s2 where 2:
      "sp_is_index_valid ops ?p s1 = (s2, Inr (ok ?w ?p))" "good s2" "view s2 = ?w" by (auto simp: answers_def)
    have os: "\<forall>o' \<in> set os. offspring_ok (dims_of ?w) pool o'" using Cons.prems(4) by simp
    show ?thesis
    proof (cases "ok ?w ?p")
      case False
      have "breed ops prob pool probs (o' # os) (Suc m) vis s = breed ops prob pool probs os (Suc m) vis s2"
        using False 1(1) 2(1) g(1) Cons.prems(3) by (simp add: bindS_def)
      moreover have "valid_children (gene_valid ?w) prob pool (o' # os) = valid_children (gene_valid ?w) prob pool os"
        using False by (simp add: valid_children_def)
      ultimately show ?thesis
        using Cons.IH[OF 2(2) _ Cons.prems(3), of "Suc m" vis] Cons.prems(2) os unfolding answers_def 2(3) Suc by simp
    next
      case True
      from point_answers[OF 2(2), of ?g] g(2) 2(3) obtain s3 where 3:
        "sp_knob2point ops ?g s2 = (s3, Inr ?p)" "good s3" "view s3 = ?w" by (auto simp: answers_def)
      let ?kids = "valid_children (gene_valid ?w) prob pool os"
      have kids: "valid_children (gene_valid ?w) prob pool (o' # os) = ?g # ?kids" using True by (simp add: valid_children_def)
      let ?r = "if m \<le> length ?kids then Some (take m ?kids, fold set_add (map (point_of ?w) (take m ?kids)) (set_add ?p vis)) else None"
      obtain s4 where r: "breed ops prob pool probs os m (set_add ?p vis) s3 = (s4, Inr ?r)" "good s4" "view s4 = ?w"
        using Cons.IH[OF 3(2) _ Cons.prems(3), of m "set_add ?p vis"] Cons.prems(2) os unfolding answers_def 3(3) Let_def by blast
      have "breed ops prob pool probs (o' # os) (Suc m) vis s
          = (s4, Inr (map_option (\<lambda>(gs, vis'). (?g # gs, vis')) ?r))"
        using True 1(1) 2(1) 3(1) r(1) g(1) Cons.prems(3) by (simp add: bindS_def)
      with r(2,3) show ?thesis unfolding answers_def kids Let_def Suc by simp
    qed
  qed
qed

lemma ga_init_answers:
  assumes "good s" "0 < pop" "elite \<le> pop" "0 < card (valid_set (view s))"
    and "\<forall>d \<in> set draws. 0 \<le> d \<and> d < npts (view s)"
  shows "\<exists>r. answers good view s (ga_init ops pop elite prob draws) r \<and>
    (\<forall>t. r = Some t \<longrightarrow> gene_wf (view s) t \<and> ga_pop_size t = min pop (int (card (valid_set (view s)))) \<and>
       ga_genes t = map (knobs_at (view s)) (ga_visited t))"
proof -
  let ?w = "view s" and ?V = "valid_set (view s)"
  let ?pop = "min pop (int (card ?V))"
  from len_answers[OF assms(1)] obtain s1 where 1:
    "sp_len ops s = (s1, Inr (int (card ?V)))" "good s1" "view s1 = ?w" by (auto simp: answers_def)
  have pop: "0 \<le> ?pop" "0 < ?pop" "?pop \<le> int (card ?V)" using assms(2,4) by auto
  obtain r where r: "answers good view s1 (sp_sample_ints ops draws ?pop) r"
      "\<forall>xs. r = Some xs \<longrightarrow> distinct xs \<and> int (length xs) = ?pop \<and> (\<forall>x \<in> set xs. 0 \<le> x \<and> x < npts ?w \<and> ok ?w x)"
    using sample_answers[OF 1(2) pop(1), of draws] pop(3) assms(5) unfolding 1(3) by blast
  from r(1) obtain s2 where 2: "sp_sample_ints ops draws ?pop s1 = (s2, Inr r)" "good s2" "view s2 = ?w"
    using 1(3) by (auto simp: answers_def)
  show ?thesis
  proof (cases r)
    case None
    then have "ga_init ops pop elite prob draws s = (s2, Inr None)"
      using 1(1) 2(1) assms(3) by (simp add: ga_init_def Let_def)
    with 2 show ?thesis by (intro exI[of _ None]) (auto simp: answers_def)
  next
    case (Some xs)
    from all_knobs_answers[OF 2(2), of xs] 2(3) obtain s3 where 3:
      "all_knobs ops xs s2 = (s3, Inr (map (knobs_at ?w) xs))" "good s3" "view s3 = ?w" by (auto simp: answers_def)
    let ?t = "\<lparr>ga_pop_size = ?pop, ga_elite_num = min ?pop elite, ga_mutation_prob = prob, ga_visited = xs,
      ga_genes = map (knobs_at ?w) xs, ga_scores = [], ga_elites = [], ga_elite_scores = [], ga_trial_pt = 0\<rparr>"
    have "ga_init ops pop elite prob draws s = (s3, Inr (Some ?t))"
      using Some 1(1) 2(1) 3(1) assms(3) by (simp add: ga_init_def Let_def)
    moreover have "gene_wf ?w ?t"
      using r(2) Some pop(2) knobs_in_dims[OF assms(1)] point_of_knobs[OF assms(1)]
      by (auto simp: ga_wf_def)
    ultimately show ?thesis using 3(2,3) by (intro exI[of _ "Some ?t"]) (auto simp: answers_def)
  qed
qed

text \<open>The last generation: exactly the indices not visited so far.\<close>

lemma last_generation_answers:
  assumes "good s" "gene_wf (view s) t" "int (card (valid_set (view s))) - int (length (ga_visited t)) \<le> ga_pop_size t"
  defines "fresh \<equiv> filter (\<lambda>i. ok (view s) i \<and> i \<notin> set (ga_visited t)) [0..npts (view s) - 1]"
  shows "\<exists>s'. ga_generation ops argpart os (s, t) =
      ((s', t\<lparr>ga_visited := ga_visited t @ fresh, ga_genes := map (knobs_at (view s)) fresh, ga_trial_pt := 0, ga_scores := []\<rparr>),
       Inr (Some ())) \<and> good s' \<and> view s' = view s"
    and "gene_wf (view s) (t\<lparr>ga_visited := ga_visited t @ fresh, ga_genes := map (knobs_at (view s)) fresh,
           ga_trial_pt := 0, ga_scores := []\<rparr>)"
    and "set (ga_visited t @ fresh) = valid_set (view s)"
proof -
  let ?w = "view s" and ?V = "valid_set (view s)"
  from len_answers[OF assms(1)] obtain s1 where 1:
    "sp_len ops s = (s1, Inr (int (card ?V)))" "good s1" "view s1 = ?w" by (auto simp: answers_def)
  from range_answers[OF 1(2)] 1(3) obtain s2 where 2:
    "sp_range_length ops s1 = (s2, Inr (npts ?w))" "good s2" "view s2 = ?w" by (auto simp: answers_def)
  have "\<forall>i \<in> set [0..npts ?w - 1]. 0 \<le> i \<and> i < npts (view s2)" using 2(3) by auto
  from unvisited_answers[OF 2(2) this distinct_upto, of "ga_visited t"] obtain s3 where 3:
    "unvisited_genes ops (ga_visited t) [0..npts ?w - 1] s2 = (s3, Inr (map (knobs_at ?w) fresh, ga_visited t @ fresh))"
    "good s3" "view s3 = ?w" unfolding answers_def Let_def 2(3) fresh_def by blast
  show "\<exists>s'. ga_generation ops argpart os (s, t) =
      ((s', t\<lparr>ga_visited := ga_visited t @ fresh, ga_genes := map (knobs_at ?w) fresh, ga_trial_pt := 0, ga_scores := []\<rparr>),
       Inr (Some ())) \<and> good s' \<and> view s' = ?w"
    using 1(1) 2(1) 3 assms(3) by (intro exI[of _ s3]) (simp add: ga_generation_def)
  show all: "set (ga_visited t @ fresh) = ?V" using assms(2) by (auto simp: fresh_def ga_wf_def)
  have dist: "distinct (ga_visited t @ fresh)" using assms(2) by (auto simp: fresh_def ga_wf_def)
  then have len: "length (ga_visited t @ fresh) = card ?V" unfolding all[symmetric] by (rule distinct_card[symmetric])
  have "\<forall>i \<in> set fresh. point_of ?w (knobs_at ?w i) = i" using point_of_knobs[OF assms(1)] by (auto simp: fresh_def)
  moreover have "\<forall>i \<in> set fresh. 0 \<le> i \<and> i < npts ?w \<and> ok ?w i" by (auto simp: fresh_def)
  ultimately
  show "gene_wf ?w (t\<lparr>ga_visited := ga_visited t @ fresh, ga_genes := map (knobs_at ?w) fresh, ga_trial_pt := 0, ga_scores := []\<rparr>)"
    using all dist len assms(2,3) knobs_in_dims[OF assms(1)] unfolding ga_wf_def by simp
qed

text \<open>Crossover and mutation give a full population of valid children and keep the invariant.\<close>

lemma breeding_answers:
  assumes "good s" "gene_wf (view s) t" "ga_pop_size t < int (card (valid_set (view s))) - int (length (ga_visited t))"
    and "length (ga_genes t) \<le> length (ga_scores t)" "2 \<le> length (ga_genes t) + length (ga_elites t)"
    and "\<forall>o' \<in> set os. offspring_ok (dims_of (view s)) (ga_genes t @ ga_elites t) o'"
    and "\<And>xs k. set (argpart xs k) \<subseteq> {..<length xs}"
  defines "kids \<equiv> valid_children (gene_valid (view s)) (ga_mutation_prob t) (ga_genes t @ ga_elites t) os"
  shows "\<exists>s' t' r. ga_generation ops argpart os (s, t) = ((s', t'), Inr r) \<and> good s' \<and> view s' = view s \<and>
      (r = None \<longleftrightarrow> length kids < nat (ga_pop_size t)) \<and>
      (r = Some () \<longrightarrow> gene_wf (view s) t' \<and> ga_genes t' = take (nat (ga_pop_size t)) kids \<and> ga_trial_pt t' = 0 \<and>
         ga_scores t' = [] \<and> set (ga_visited t') = set (ga_visited t) \<union> point_of (view s) ` set (ga_genes t'))"
proof -
  let ?w = "view s" and ?V = "valid_set (view s)" and ?n = "nat (ga_pop_size t)"
  let ?pool = "ga_genes t @ ga_elites t" and ?sc = "take (length (ga_genes t)) (ga_scores t) @ ga_elite_scores t"
  from len_answers[OF assms(1)] obtain s1 where 1:
    "sp_len ops s = (s1, Inr (int (card ?V)))" "good s1" "view s1 = ?w" by (auto simp: answers_def)
  have len: "length ?sc = length ?pool" using assms(2,4) by (simp add: ga_wf_def)
  have nonneg: "\<forall>x \<in> set ?sc. 0 \<le> x" using assms(2) by (auto simp: ga_wf_def dest: in_set_takeD)
  obtain es ess where es: "reserve_elites argpart ?pool ?sc (ga_elite_num t) = Inr (es, ess)"
      "set es \<subseteq> set ?pool" "set ess \<subseteq> set ?sc" "length es = length ess"
    using reserve_elites_ok[of argpart ?sc "ga_elite_num t" ?pool] assms(7) len by blast
  have pool: "\<forall>g \<in> set ?pool. in_dims (dims_of ?w) g" using assms(2) by (auto simp: ga_wf_def)
  have choose: "choose_parents (parent_probs ?sc) ps = Inr ps" for ps
    using choose_parents_ok[OF nonneg] len assms(5) by simp
  let ?gs = "take ?n kids" and ?vis = "fold set_add (map (point_of ?w) (take ?n kids)) (ga_visited t)"
  obtain s2 where r: "breed ops (ga_mutation_prob t) ?pool (parent_probs ?sc) os ?n (ga_visited t) s1
      = (s2, Inr (if ?n \<le> length kids then Some (?gs, ?vis) else None))" "good s2" "view s2 = ?w"
    using breed_answers[OF 1(2) _ choose, of ?pool os "ga_mutation_prob t" ?n "ga_visited t"] pool assms(6) 1(3)
    by (auto simp: answers_def Let_def kids_def)
  let ?t1 = "t\<lparr>ga_elites := es, ga_elite_scores := ess\<rparr>"
  let ?t2 = "?t1\<lparr>ga_visited := ?vis, ga_genes := ?gs, ga_trial_pt := 0, ga_scores := []\<rparr>"
  show ?thesis
  proof (cases "?n \<le> length kids")
    case False
    then have "ga_generation ops argpart os (s, t) = ((s2, ?t1), Inr None)"
      using 1(1) es(1) r(1) assms(3) by (simp add: ga_generation_def Let_def)
    with False r(2,3) show ?thesis by (intro exI[of _ s2] exI[of _ ?t1] exI[of _ None]) simp
  next
    case True
    then have gen: "ga_generation ops argpart os (s, t) = ((s2, ?t2), Inr (Some ()))"
      using 1(1) es(1) r(1) assms(3) by (simp add: ga_generation_def Let_def)
    have kid: "in_dims (dims_of ?w) g \<and> ok ?w (point_of ?w g)" if "g \<in> set ?gs" for g
      using valid_children_in_dims[OF assms(6) pool] that unfolding kids_def by blast
    then have new: "point_of ?w g \<in> ?V" if "g \<in> set ?gs" for g using point_range[OF assms(1)] that by blast
    have old: "0 < ga_pop_size t" "distinct (ga_visited t)" "set (ga_visited t) \<subseteq> ?V" using assms(2) by (auto simp: ga_wf_def)
    have vis: "set ?vis = set (ga_visited t) \<union> point_of ?w ` set ?gs" "distinct ?vis"
      using old(2) by (simp_all add: fold_set_add)
    have "\<forall>g \<in> set es. in_dims (dims_of ?w) g" "\<forall>x \<in> set ess. 0 \<le> x" using es(2,3) pool nonneg by blast+
    moreover have "\<forall>g \<in> set ?gs. in_dims (dims_of ?w) g \<and> point_of ?w g \<in> set ?vis" using kid vis(1) by blast
    moreover have "set ?vis \<subseteq> ?V" using vis(1) new old(3) by blast
    ultimately have "gene_wf ?w ?t2" unfolding ga_wf_def using vis(2) es(4) old(1) True by simp
    with gen True r(2,3) vis(1) show ?thesis by (intro exI[of _ s2] exI[of _ ?t2] exI[of _ "Some ()"]) simp
  qed
qed

text \<open>When \<^verbatim>\<open>update\<close> makes a new generation, and which genes it has.\<close>

lemma ga_update_answers:
  assumes "good s" "gene_wf (view s) t" "\<forall>m \<in> set ms. 0 \<le> measured_flops m"
    and "2 \<le> length (ga_genes t) + length (ga_elites t)"
    and "\<forall>o' \<in> set os. offspring_ok (dims_of (view s)) (ga_genes t @ ga_elites t) o'"
    and "\<And>xs k. set (argpart xs k) \<subseteq> {..<length xs}"
  defines "kids \<equiv> valid_children (gene_valid (view s)) (ga_mutation_prob t) (ga_genes t @ ga_elites t) os"
    and "due \<equiv> length (ga_genes t) \<le> length (ga_scores t) + length ms \<and> length (ga_visited t) < card (valid_set (view s))"
    and "few \<equiv> int (card (valid_set (view s))) - int (length (ga_visited t)) \<le> ga_pop_size t"
  shows "\<exists>s' t' r. ga_update ops argpart os ms (s, t) = ((s', t'), Inr r) \<and> good s' \<and> view s' = view s \<and>
      (r = None \<longleftrightarrow> due \<and> \<not> few \<and> length kids < nat (ga_pop_size t)) \<and>
      (r = Some () \<longrightarrow> gene_wf (view s) t' \<and>
         ga_genes t' = (if \<not> due then ga_genes t
           else if few then map (knobs_at (view s)) (filter (\<lambda>i. ok (view s) i \<and> i \<notin> set (ga_visited t)) [0..npts (view s) - 1])
           else take (nat (ga_pop_size t)) kids) \<and>
         ga_trial_pt t' = (if due then 0 else ga_trial_pt t) \<and>
         ga_scores t' = (if due then [] else ga_scores t @ map measured_flops ms) \<and>
         set (ga_visited t') = set (ga_visited t) \<union> point_of (view s) ` set (ga_genes t'))"
proof -
  let ?w = "view s" and ?V = "valid_set (view s)"
  let ?t = "t\<lparr>ga_scores := ga_scores t @ map measured_flops ms\<rparr>"
  have wf: "gene_wf ?w ?t" using assms(2,3) unfolding ga_wf_def by auto
  have known: "set (ga_visited t) = set (ga_visited t) \<union> point_of ?w ` set (ga_genes t)" using assms(2) by (auto simp: ga_wf_def)
  from len_answers[OF assms(1)] obtain s1 where 1:
    "sp_len ops s = (s1, Inr (int (card ?V)))" "good s1" "view s1 = ?w" by (auto simp: answers_def)
  show ?thesis
  proof (cases due)
    case False
    then obtain s' where "ga_update ops argpart os ms (s, t) = ((s', ?t), Inr (Some ()))" "good s'" "view s' = ?w"
      using 1 assms(1) by (cases "length (ga_genes t) \<le> length (ga_scores t) + length ms") (auto simp: ga_update_def due_def)
    with wf known False show ?thesis by (intro exI[of _ s'] exI[of _ ?t] exI[of _ "Some ()"]) simp
  next
    case due: True
    then have gen: "ga_update ops argpart os ms (s, t) = ga_generation ops argpart os (s1, ?t)"
      using 1(1) by (simp add: ga_update_def due_def)
    have wf1: "gene_wf (view s1) ?t" using wf 1(3) by simp
    show ?thesis
    proof (cases few)
      case True
      then have rest: "int (card (valid_set (view s1))) - int (length (ga_visited ?t)) \<le> ga_pop_size ?t" by (simp add: 1(3) few_def)
      let ?f = "filter (\<lambda>i. ok ?w i \<and> i \<notin> set (ga_visited t)) [0..npts ?w - 1]"
      let ?t' = "?t\<lparr>ga_visited := ga_visited t @ ?f, ga_genes := map (knobs_at ?w) ?f, ga_trial_pt := 0, ga_scores := []\<rparr>"
      obtain s' where "ga_generation ops argpart os (s1, ?t) = ((s', ?t'), Inr (Some ()))" "good s'" "view s' = ?w"
        using last_generation_answers(1)[OF 1(2) wf1 rest, of argpart os] unfolding 1(3) by auto
      moreover have "gene_wf ?w ?t'" using last_generation_answers(2)[OF 1(2) wf1 rest] unfolding 1(3) by simp
      moreover have "point_of ?w ` set (map (knobs_at ?w) ?f) = set ?f"
        using point_of_knobs[OF assms(1)] by (force simp: image_image)
      ultimately show ?thesis unfolding gen using due True by (intro exI[of _ s'] exI[of _ ?t'] exI[of _ "Some ()"]) simp
    next
      case False
      then have "ga_pop_size ?t < int (card (valid_set (view s1))) - int (length (ga_visited ?t))" by (simp add: 1(3) few_def)
      moreover have "length (ga_genes ?t) \<le> length (ga_scores ?t)" using due by (simp add: due_def)
      moreover have "2 \<le> length (ga_genes ?t) + length (ga_elites ?t)" using assms(4) by simp
      moreover have "\<forall>o' \<in> set os. offspring_ok (dims_of (view s1)) (ga_genes ?t @ ga_elites ?t) o'" using assms(5) 1(3) by simp
      ultimately obtain s' t' r where "ga_generation ops argpart os (s1, ?t) = ((s', t'), Inr r)" "good s'" "view s' = ?w"
        "r = None \<longleftrightarrow> length kids < nat (ga_pop_size t)"
        "r = Some () \<longrightarrow> gene_wf ?w t' \<and> ga_genes t' = take (nat (ga_pop_size t)) kids \<and> ga_trial_pt t' = 0 \<and>
           ga_scores t' = [] \<and> set (ga_visited t') = set (ga_visited t) \<union> point_of ?w ` set (ga_genes t')"
        using breeding_answers[where argpart = argpart, OF 1(2) wf1 _ _ _ _ assms(6), of os] unfolding 1(3) kids_def by auto
      with due False show ?thesis unfolding gen by (intro exI[of _ s'] exI[of _ t'] exI[of _ r]) simp
    qed
  qed
qed

lemma exhausts_answers:
  assumes "good s" "gene_wf (view s) t" "\<forall>m \<in> set ms. 0 \<le> measured_flops m"
    and "length (ga_genes t) \<le> length (ga_scores t) + length ms" "length (ga_visited t) < card (valid_set (view s))"
    and "int (card (valid_set (view s))) - int (length (ga_visited t)) \<le> ga_pop_size t" "card (valid_set (view s)) \<le> n"
  shows "\<exists>s1 t1 s2 t2 s3 us. ga_update ops argpart os ms (s, t) = ((s1, t1), Inr (Some ())) \<and>
     ga_next_batch ops n (s1, t1) = ((s2, t2), Inr (map (conf (view s)) us)) \<and>
     us = filter (\<lambda>i. ok (view s) i \<and> i \<notin> set (ga_visited t)) [0..npts (view s) - 1] \<and>
     set (ga_visited t2) = valid_set (view s) \<and> ga_has_next ops t2 s2 = (s3, Inr False)"
proof -
  let ?w = "view s" and ?V = "valid_set (view s)"
  define t0 where "t0 = t\<lparr>ga_scores := ga_scores t @ map measured_flops ms\<rparr>"
  define f where "f = filter (\<lambda>i. ok ?w i \<and> i \<notin> set (ga_visited t0)) [0..npts ?w - 1]"
  define t1 where "t1 = t0\<lparr>ga_visited := ga_visited t0 @ f, ga_genes := map (knobs_at ?w) f, ga_trial_pt := 0, ga_scores := []\<rparr>"
  have f1 [simp]: "ga_genes t1 = map (knobs_at ?w) f" "ga_trial_pt t1 = 0" "ga_visited t1 = ga_visited t0 @ f" by (simp_all add: t1_def)
  from len_answers[OF assms(1)] obtain s0 where 0:
    "sp_len ops s = (s0, Inr (int (card ?V)))" "good s0" "view s0 = ?w" by (auto simp: answers_def)
  have wf: "gene_wf (view s0) t0" using assms(2,3) 0(3) unfolding ga_wf_def t0_def by auto
  have upd: "ga_update ops argpart os ms (s, t) = ga_generation ops argpart os (s0, t0)"
    using assms(4,5) 0(1) by (simp add: ga_update_def t0_def)
  have rest: "int (card (valid_set (view s0))) - int (length (ga_visited t0)) \<le> ga_pop_size t0"
    using assms(6) 0(3) by (simp add: t0_def)
  note last = last_generation_answers[OF 0(2) wf rest, unfolded 0(3), folded f_def, folded t1_def]
  obtain s1 where 1: "ga_generation ops argpart os (s0, t0) = ((s1, t1), Inr (Some ()))" "good s1" "view s1 = ?w"
    using last(1)[of argpart os] by blast
  have "distinct (ga_visited t1)" "int (length f) \<le> ga_pop_size t1" using last(2) by (auto simp: ga_wf_def)
  then have len: "length (ga_visited t1) = card ?V" and pop: "length f \<le> nat (ga_pop_size t1)"
    using last(3) distinct_card[of "ga_visited t1"] by simp_all
  have left: "ga_left ?V t1 = length f" unfolding ga_left_def len by simp
  have "length f \<le> n" using len assms(7) by simp
  then have m: "min n (ga_left ?V t1) = length f" using left by simp
  have enc: "point_of ?w (knobs_at ?w i) = i" if "i \<in> set f" for i
    using point_of_knobs[OF assms(1), of i] that by (auto simp: f_def)
  have us: "map (\<lambda>k. conf ?w (point_of ?w (ga_genes t1 ! ((ga_trial_pt t1 + k) mod nat (ga_pop_size t1))))) [0..<length f]
      = map (conf ?w) f"
    using pop enc by (intro nth_equalityI) auto
  define t2 where "t2 = t1\<lparr>ga_trial_pt := ga_trial_pt t1 + length f\<rparr>"
  have "gene_wf (view s1) t1" using last(2) 1(3) by simp
  from ga_batch[OF 1(2) this, of n, unfolded 1(3) m us, folded t2_def] obtain s2 where 2:
    "ga_next_batch ops n (s1, t1) = ((s2, t2), Inr (map (conf ?w) f))" "good s2" "view s2 = ?w" by blast
  have "ga_left ?V t2 = 0" using left by (simp add: ga_left_def t2_def)
  with ga_has_next_answers[OF 2(2), of t2] 2(3) obtain s3 where 3: "ga_has_next ops t2 s2 = (s3, Inr False)"
    by (auto simp: answers_def)
  have "set (ga_visited t2) = ?V" using last(3) by (simp add: t2_def)
  moreover have "f = filter (\<lambda>i. ok ?w i \<and> i \<notin> set (ga_visited t)) [0..npts ?w - 1]" by (simp add: f_def t0_def)
  ultimately show ?thesis using 1(1) 2(1) 3 unfolding upd by blast
qed

end

text \<open>\<^verbatim>\<open>GATuner.next_batch\<close> on a configuration space, from a tuner in a well-formed state (as the
  constructor and \<^verbatim>\<open>update\<close> leave it): it does not raise and hands out the valid configurations of
  the current genes, in order and cyclically, and as many as asked for unless \<^verbatim>\<open>has_next\<close> fails.\<close>

theorem ga_batch_valid:
  assumes "proper cs" "coherent cs"
    and "ga_wf {i. 0 \<le> i \<and> i < num_points cs \<and> valid_at cs i} (space_lens cs) (encode (space_lens cs)) t"
  shows "\<exists>cs' t' us. ga_next_batch config_ops n (cs, t) = ((cs', t'), Inr (map (config_at cs) us)) \<and>
     length us = min n (ga_left {i. 0 \<le> i \<and> i < num_points cs \<and> valid_at cs i} t) \<and>
     t' = t\<lparr>ga_trial_pt := ga_trial_pt t + length us\<rparr> \<and>
     (\<forall>k < length us. 0 \<le> us ! k \<and> us ! k < num_points cs \<and> valid_at cs (us ! k) \<and>
        us ! k = encode (space_lens cs) (ga_genes t ! ((ga_trial_pt t + k) mod nat (ga_pop_size t))))"
proof -
  let ?V = "{i. 0 \<le> i \<and> i < num_points cs \<and> valid_at cs i}" and ?enc = "encode (space_lens cs)"
  let ?g = "\<lambda>k. ga_genes t ! ((ga_trial_pt t + k) mod nat (ga_pop_size t))" and ?m = "min n (ga_left ?V t)"
  have good: "space_good cs" using assms by (simp add: space_good_def)
  let ?us = "map (\<lambda>k. ?enc (?g k)) [0..<?m]"
  obtain cs' where batch: "ga_next_batch config_ops n (cs, t) =
      ((cs', t\<lparr>ga_trial_pt := ga_trial_pt t + ?m\<rparr>), Inr (map (config_at cs) ?us))"
    using cfgg.ga_batch[OF good, of t n] assms(3) by (auto simp: comp_def)
  have "?enc (?g k) \<in> ?V" if "k < ?m" for k
  proof -
    let ?t = "t\<lparr>ga_trial_pt := ga_trial_pt t + k\<rparr>"
    have "0 < ga_left ?V ?t" using that by (simp add: ga_left_def) linarith
    with ga_gene_next(2)[of ?V "space_lens cs" ?enc ?t] assms(3) have "?g k \<in> set (ga_genes t)" by simp
    with assms(3) show ?thesis unfolding ga_wf_def by blast
  qed
  with batch show ?thesis by (intro exI[of _ cs'] exI exI[of _ ?us]) auto
qed

text \<open>C17: \<^verbatim>\<open>GATuner.update\<close> with at least two possible parents, random numbers in their ranges and an
  \<^verbatim>\<open>argpartition\<close> that returns positions: it does not raise. It goes on drawing (\<open>None\<close>) exactly when a
  generation is due, more than a population of valid indices is left and fewer than \<^verbatim>\<open>pop_size\<close> of
  the children drawn are valid. Otherwise it returns in a well-formed state: the genes are the old ones
  while the generation is not complete or everything is visited, the unvisited valid indices when
  they are no more than a population, and else the first \<^verbatim>\<open>pop_size\<close> valid children; exactly their
  indices become visited.\<close>

theorem ga_update_keeps_valid:
  assumes "proper cs" "coherent cs"
    and "ga_wf {i. 0 \<le> i \<and> i < num_points cs \<and> valid_at cs i} (space_lens cs) (encode (space_lens cs)) t"
    and "\<forall>m \<in> set ms. 0 \<le> measured_flops m" "2 \<le> length (ga_genes t) + length (ga_elites t)"
    and "\<forall>o' \<in> set os. offspring_ok (space_lens cs) (ga_genes t @ ga_elites t) o'"
    and "\<And>xs k. set (argpart xs k) \<subseteq> {..<length xs}"
  defines "V \<equiv> {i. 0 \<le> i \<and> i < num_points cs \<and> valid_at cs i}"
    and "kids \<equiv> valid_children (\<lambda>g. valid_at cs (encode (space_lens cs) g)) (ga_mutation_prob t) (ga_genes t @ ga_elites t) os"
  defines "due \<equiv> length (ga_genes t) \<le> length (ga_scores t) + length ms \<and> length (ga_visited t) < card V"
    and "few \<equiv> int (card V) - int (length (ga_visited t)) \<le> ga_pop_size t"
  shows "\<exists>cs' t' r. ga_update config_ops argpart os ms (cs, t) = ((cs', t'), Inr r) \<and>
     (r = None \<longleftrightarrow> due \<and> \<not> few \<and> length kids < nat (ga_pop_size t)) \<and>
     (r = Some () \<longrightarrow> ga_wf V (space_lens cs) (encode (space_lens cs)) t' \<and>
        ga_genes t' = (if \<not> due then ga_genes t
          else if few then map (digits_of (space_lens cs)) (filter (\<lambda>i. valid_at cs i \<and> i \<notin> set (ga_visited t)) [0..num_points cs - 1])
          else take (nat (ga_pop_size t)) kids) \<and>
        ga_trial_pt t' = (if due then 0 else ga_trial_pt t) \<and>
        ga_scores t' = (if due then [] else ga_scores t @ map measured_flops ms) \<and>
        set (ga_visited t') = set (ga_visited t) \<union> encode (space_lens cs) ` set (ga_genes t'))"
proof -
  have "space_good cs" using assms by (simp add: space_good_def)
  from cfgg.ga_update_answers[OF this, of t ms os argpart] assms(3-7) show ?thesis
    unfolding view_determines V_def kids_def due_def few_def by blast
qed

definition demo_ga :: gtuner where
  "demo_ga = \<lparr>ga_pop_size = 1, ga_elite_num = 1, ga_mutation_prob = 1 / 10, ga_visited = [4], ga_genes = [[0, 2]],
     ga_scores = [], ga_elites = [[0, 1]], ga_elite_scores = [3], ga_trial_pt = 0\<rparr>"

lemma demo_valids: "{i. 0 \<le> i \<and> i < num_points demo_space \<and> valid_at demo_space i} = {0, 2, 4}"
  unfolding demo_fields demo_valid by (auto; presburger)

lemma demo_ga_wf:
  "ga_wf {i. 0 \<le> i \<and> i < num_points demo_space \<and> valid_at demo_space i} (space_lens demo_space)
     (encode (space_lens demo_space)) demo_ga"
  unfolding demo_valids by (simp add: ga_wf_def demo_fields demo_ga_def in_dims_def)

theorem ga_batch_valid_witness:
  "\<exists>cs' t' us. ga_next_batch config_ops 2 (demo_space, demo_ga) = ((cs', t'), Inr (map (config_at demo_space) us)) \<and>
     length us = 2 \<and> us ! 0 = 4"
proof -
  obtain cs' t' us where *: "ga_next_batch config_ops 2 (demo_space, demo_ga) = ((cs', t'), Inr (map (config_at demo_space) us))"
    "length us = min 2 (ga_left {0, 2, 4} demo_ga)"
    "\<forall>k < length us. us ! k = encode [2, 3] (ga_genes demo_ga ! ((ga_trial_pt demo_ga + k) mod nat (ga_pop_size demo_ga)))"
    using ga_batch_valid[OF demo_proper demo_coherent demo_ga_wf, of 2] unfolding demo_fields demo_valids[unfolded demo_fields] by blast
  from *(2) have "length us = 2" by (simp add: ga_left_def demo_ga_def)
  with * show ?thesis by (intro exI[of _ cs'] exI[of _ t'] exI[of _ us]) (simp add: demo_ga_def)
qed

theorem ga_update_keeps_valid_witness:
  "\<exists>cs' t'. ga_update config_ops (\<lambda>xs k. [0..<length xs])
       [\<lparr>of_parents = (1, 0), of_point = 0, of_mutations = [(0, 1), (1, 2)]\<rparr>,
        \<lparr>of_parents = (0, 1), of_point = 1, of_mutations = [(0, 0), (1, 2)]\<rparr>]
       [Measured 4 8 [2]] (demo_space, demo_ga) = ((cs', t'), Inr (Some ())) \<and>
     ga_genes t' = [[0, 1]] \<and> set (ga_visited t') = {2, 4}"
proof -
  let ?ms = "[Measured 4 8 [2]]" and ?os = "[\<lparr>of_parents = (1, 0), of_point = 0, of_mutations = [(0, 1), (1, 2)]\<rparr>,
    \<lparr>of_parents = (0, 1), of_point = 1, of_mutations = [(0 :: rat, 0 :: int), (1, 2)]\<rparr>]"
  have ms: "\<forall>m \<in> set ?ms. 0 \<le> measured_flops m" by (simp add: np_mean_def)
  have two: "2 \<le> length (ga_genes demo_ga) + length (ga_elites demo_ga)" by (simp add: demo_ga_def)
  have os: "\<forall>o' \<in> set ?os. offspring_ok (space_lens demo_space) (ga_genes demo_ga @ ga_elites demo_ga) o'"
    by (simp add: demo_ga_def offspring_ok_def demo_fields)
  have argpart: "set [0..<length xs] \<subseteq> {..<length xs}" for xs :: "rat list" by auto
  have kids: "valid_children (\<lambda>g. valid_at demo_space (encode (space_lens demo_space) g)) (ga_mutation_prob demo_ga)
      (ga_genes demo_ga @ ga_elites demo_ga) ?os = [[0, 1]]"
    by (simp add: valid_children_def child_def demo_ga_def demo_fields demo_valid)
  have due: "length (ga_genes demo_ga) \<le> length (ga_scores demo_ga) + length ?ms \<and> length (ga_visited demo_ga) < card {0, 2, 4 :: int}"
    "\<not> int (card {0, 2, 4 :: int}) - int (length (ga_visited demo_ga)) \<le> ga_pop_size demo_ga"
    by (simp_all add: demo_ga_def)
  obtain cs' t' r where upd: "ga_update config_ops (\<lambda>xs k. [0..<length xs]) ?os ?ms (demo_space, demo_ga) = ((cs', t'), Inr r)"
    and none: "r = None \<longleftrightarrow> length [[0, 1 :: int]] < nat (ga_pop_size demo_ga)"
    and some: "r = Some () \<longrightarrow> ga_genes t' = take (nat (ga_pop_size demo_ga)) [[0, 1]] \<and>
      set (ga_visited t') = set (ga_visited demo_ga) \<union> encode (space_lens demo_space) ` set (ga_genes t')"
    using ga_update_keeps_valid[OF demo_proper demo_coherent demo_ga_wf ms two os, of "\<lambda>xs k. [0..<length xs]", OF argpart]
    unfolding kids demo_valids using due by auto
  from none have "r = Some ()" by (cases r) (simp_all add: demo_ga_def)
  with upd some show ?thesis by (intro exI[of _ cs'] exI[of _ t']) (auto simp: demo_ga_def demo_fields)
qed

text \<open>C18: the last generation. When no more than a population of valid indices is left, \<^verbatim>\<open>update\<close> after a
  complete generation makes exactly those the next genes; the following \<^verbatim>\<open>next_batch\<close> hands out all
  of them in increasing order, and then \<^verbatim>\<open>has_next\<close> is false: every valid configuration was tried.\<close>

theorem ga_last_generation_exhausts:
  assumes "proper cs" "coherent cs"
    and "ga_wf {i. 0 \<le> i \<and> i < num_points cs \<and> valid_at cs i} (space_lens cs) (encode (space_lens cs)) t"
    and "\<forall>m \<in> set ms. 0 \<le> measured_flops m" "length (ga_genes t) \<le> length (ga_scores t) + length ms"
    and "length (ga_visited t) < card {i. 0 \<le> i \<and> i < num_points cs \<and> valid_at cs i}"
    and "int (card {i. 0 \<le> i \<and> i < num_points cs \<and> valid_at cs i}) - int (length (ga_visited t)) \<le> ga_pop_size t"
    and "card {i. 0 \<le> i \<and> i < num_points cs \<and> valid_at cs i} \<le> n"
  shows "\<exists>cs1 t1 cs2 t2 cs3 us. ga_update config_ops argpart os ms (cs, t) = ((cs1, t1), Inr (Some ())) \<and>
     ga_next_batch config_ops n (cs1, t1) = ((cs2, t2), Inr (map (config_at cs) us)) \<and>
     us = filter (\<lambda>i. valid_at cs i \<and> i \<notin> set (ga_visited t)) [0..num_points cs - 1] \<and>
     set (ga_visited t2) = {i. 0 \<le> i \<and> i < num_points cs \<and> valid_at cs i} \<and>
     ga_has_next config_ops t2 cs2 = (cs3, Inr False)"
proof -
  have "space_good cs" using assms by (simp add: space_good_def)
  from cfgg.exhausts_answers[OF this, of t ms n argpart os] assms(3-8) show ?thesis
    unfolding view_determines by blast
qed

theorem ga_last_generation_exhausts_witness:
  "\<exists>cs1 t1 cs2 t2 cs3. ga_update config_ops (\<lambda>xs k. []) [] [Measured 4 8 [2]]
       (demo_space, demo_ga\<lparr>ga_pop_size := 2, ga_genes := [[0, 2], [0, 1]], ga_visited := [4, 2], ga_scores := [1]\<rparr>)
         = ((cs1, t1), Inr (Some ())) \<and>
     ga_next_batch config_ops 3 (cs1, t1) = ((cs2, t2), Inr (map (config_at demo_space) [0])) \<and>
     ga_has_next config_ops t2 cs2 = (cs3, Inr False)"
proof -
  let ?t = "demo_ga\<lparr>ga_pop_size := 2, ga_genes := [[0, 2], [0, 1]], ga_visited := [4, 2], ga_scores := [1]\<rparr>"
  have wf: "ga_wf {i. 0 \<le> i \<and> i < num_points demo_space \<and> valid_at demo_space i} (space_lens demo_space)
     (encode (space_lens demo_space)) ?t"
    unfolding demo_valids by (simp add: ga_wf_def demo_fields demo_ga_def in_dims_def)
  have flops: "\<forall>m \<in> set [Measured 4 8 [2]]. 0 \<le> measured_flops m" by (simp add: np_mean_def)
  have hyps: "length (ga_genes ?t) \<le> length (ga_scores ?t) + length [Measured 4 8 [2]]"
    "length (ga_visited ?t) < card {0, 2, 4 :: int}"
    "int (card {0, 2, 4 :: int}) - int (length (ga_visited ?t)) \<le> ga_pop_size ?t" "card {0, 2, 4 :: int} \<le> 3"
    by simp_all
  have us: "filter (\<lambda>i. valid_at demo_space i \<and> i \<notin> set (ga_visited ?t)) [0..num_points demo_space - 1] = [0]"
    by (simp add: demo_fields demo_valid upto_rec1)
  show ?thesis
    using ga_last_generation_exhausts[OF demo_proper demo_coherent wf flops hyps(1),
        unfolded demo_valids, OF hyps(2-4), of "\<lambda>xs k. []" "[]", unfolded us] by blast
qed

text \<open>The elites. With an \<^verbatim>\<open>argpartition\<close> that returns a permutation with the largest elements at the
  end, a positive \<^verbatim>\<open>elite_num\<close> reserves that many genes, none with a lower score than a gene left
  out. With \<^verbatim>\<open>elite_num = 0\<close> the slice \<^verbatim>\<open>[-0:]\<close> is the whole list: all genes become elites.\<close>

theorem ga_elites_are_best:
  assumes "length scores = length genes" "0 \<le> n" "nat n \<le> length genes"
    and "mset (argpart scores (- n)) = mset [0..<length scores]"
    and "\<forall>i \<in> set (take (length genes - nat n) (argpart scores (- n))).
           \<forall>j \<in> set (drop (length genes - nat n) (argpart scores (- n))). scores ! i \<le> scores ! j"
  shows "\<exists>I. distinct I \<and> set I \<subseteq> {..<length genes} \<and>
     reserve_elites argpart genes scores n = Inr (map ((!) genes) I, map ((!) scores) I) \<and>
     (if n = 0 then length I = length genes
      else int (length I) = n \<and> (\<forall>i < length genes. i \<notin> set I \<longrightarrow> (\<forall>j \<in> set I. scores ! i \<le> scores ! j)))"
proof -
  let ?a = "argpart scores (- n)" and ?k = "length genes - nat n"
  have a: "set ?a = {..<length genes}" "distinct ?a" "length ?a = length genes"
    unfolding mset_eq_setD[OF assms(4)] mset_eq_imp_distinct_iff[OF assms(4)] mset_eq_length[OF assms(4)] assms(1)
    by (simp_all add: atLeast0LessThan)
  let ?I = "tail_slice n ?a"
  have I: "?I = (if n = 0 then ?a else drop ?k ?a)" using assms(2) a(3) by (simp add: tail_slice_def)
  have sub: "set ?I \<subseteq> {..<length genes}" unfolding I using set_drop_subset[of ?k ?a] a(1) by (cases "n = 0") simp_all
  have dist: "distinct ?I" unfolding I using a(2) by (cases "n = 0") simp_all
  let ?f = "\<lambda>i. bindE (py_nth genes (int i)) (\<lambda>g. bindE (py_nth scores (int i)) (\<lambda>s. Inr (g, s)))"
  have "mapE ?f js = Inr (map (\<lambda>i. (genes ! i, scores ! i)) js)" if "set js \<subseteq> {..<length genes}" for js
    using that assms(1) by (induction js) (auto simp: py_nth_def)
  from this[OF sub] have run: "reserve_elites argpart genes scores n = Inr (map ((!) genes) ?I, map ((!) scores) ?I)"
    by (simp add: reserve_elites_def comp_def)
  have "i \<in> set (take ?k ?a)" if "i < length genes" "i \<notin> set (drop ?k ?a)" for i
    using that a(1) by (metis Un_iff append_take_drop_id lessThan_iff set_append)
  with assms(5) have "\<forall>i < length genes. i \<notin> set (drop ?k ?a) \<longrightarrow> (\<forall>j \<in> set (drop ?k ?a). scores ! i \<le> scores ! j)"
    by blast
  moreover have "length ?I = (if n = 0 then length genes else nat n)" using assms(3) a(3) unfolding I by (cases "n = 0") simp_all
  ultimately have "if n = 0 then length ?I = length genes
      else int (length ?I) = n \<and> (\<forall>i < length genes. i \<notin> set ?I \<longrightarrow> (\<forall>j \<in> set ?I. scores ! i \<le> scores ! j))"
    using assms(2) unfolding I by (cases "n = 0") simp_all
  with sub dist run show ?thesis by blast
qed

theorem ga_elites_are_best_witness:
  "\<exists>I. distinct I \<and> reserve_elites (\<lambda>xs k. [1, 0, 2]) [[0], [1], [2]] [5, 3, 5] 0
     = Inr (map ((!) [[0], [1], [2]]) I, map ((!) [5, 3, 5]) I) \<and> length I = 3"
  using ga_elites_are_best[of "[5, 3, 5]" "[[0], [1], [2]]" 0 "\<lambda>xs k. [1, 0, 2]"] by (auto simp: upt_rec)

end
