(* ===== verification/Tune_Loop.thy ===== *)
theory Tune_Loop
  imports Index_Tuner
begin

text \<open>
  The tuning loop of \<^verbatim>\<open>python/tvm/autotvm/tuner/tuner.py\<close> over any tuner, with the callbacks of
  \<^verbatim>\<open>callback.py\<close>. The methods a subclass provides are the fields of \<open>tuner_ops\<close>; the measurement
  (\<^verbatim>\<open>measure_batch\<close>) is an argument that may depend on the number of trials before it. The loop need
  not end for every tuner, so it runs on fuel; \<open>None\<close> says that the fuel was used up.
\<close>

section \<open>The loop\<close>

datatype mres = MOk "rat list" | MErr string string

record ('t, 'c) tuner_ops =
  tu_has_next :: "('t, bool) st"
  tu_next_batch :: "nat \<Rightarrow> ('t, 'c list) st"
  tu_update :: "('c \<times> mres) list \<Rightarrow> ('t, unit) st"

record 'c tuner_base =
  tb_best_config :: "'c option"
  tb_best_flops :: rat
  tb_best_measure_pair :: "('c \<times> mres) option"
  tb_best_iter :: nat
  tb_error_ct_threshold :: nat
  tb_ttl :: "int option"
  tb_n_trial :: "nat option"
  tb_early_stopping :: "nat option"

definition tuner_base_init :: "'c tuner_base" where
  "tuner_base_init = \<lparr>tb_best_config = None, tb_best_flops = 0, tb_best_measure_pair = None, tb_best_iter = 0,
     tb_error_ct_threshold = 150, tb_ttl = None, tb_n_trial = None, tb_early_stopping = None\<rparr>"

definition tuner_reset :: "'c tuner_base \<Rightarrow> 'c tuner_base" where
  "tuner_reset b = b\<lparr>tb_best_config := None, tb_best_flops := 0, tb_best_measure_pair := None\<rparr>"

definition set_error_threshold :: "nat \<Rightarrow> 'c tuner_base \<Rightarrow> 'c tuner_base" where
  "set_error_threshold threshold b = b\<lparr>tb_error_ct_threshold := threshold\<rparr>"

text \<open>The state while \<^verbatim>\<open>tune\<close> runs: the tuner, what the callbacks keep, and the local variables.\<close>

record ('t, 'c, 'k) tuning =
  tg_tuner :: 't
  tg_base :: "'c tuner_base"
  tg_obs :: 'k
  tg_in_tuning :: bool
  tg_debug :: bool
  tg_i :: nat
  tg_error_ct :: nat
  tg_errors :: "string list"

definition on_tg :: "('t, 'a) st \<Rightarrow> (('t, 'c, 'k) tuning, 'a) st" where
  "on_tg m g = (let (t, r) = m (tg_tuner g) in (g\<lparr>tg_tuner := t\<rparr>, r))"

definition res_flops :: "rat \<Rightarrow> mres \<Rightarrow> rat" where
  "res_flops fl r = (case r of MOk costs \<Rightarrow> fl / (sum_list costs / of_nat (length costs)) | MErr tb e \<Rightarrow> 0)"

text \<open>The body of the loop that keeps the best; \<open>n\<close> is \<^verbatim>\<open>i + k\<close>.\<close>

definition keep_best :: "rat \<Rightarrow> nat \<Rightarrow> 'c \<times> mres \<Rightarrow> 'c tuner_base \<Rightarrow> 'c tuner_base" where
  "keep_best fl n p b =
     (if res_flops fl (snd p) > tb_best_flops b
      then b\<lparr>tb_best_flops := res_flops fl (snd p), tb_best_config := Some (fst p),
             tb_best_measure_pair := Some p, tb_best_iter := n\<rparr>
      else b)"

fun keep_best_all :: "rat \<Rightarrow> nat \<Rightarrow> ('c \<times> mres) list \<Rightarrow> 'c tuner_base \<Rightarrow> 'c tuner_base" where
  "keep_best_all fl n [] b = b"
| "keep_best_all fl n (p # ps) b = keep_best_all fl (Suc n) ps (keep_best fl n p b)"

fun count_errors :: "('c \<times> mres) list \<Rightarrow> nat \<times> string list \<Rightarrow> nat \<times> string list" where
  "count_errors [] e = e"
| "count_errors ((c, MOk costs) # ps) (n, es) = count_errors ps (0, es)"
| "count_errors ((c, MErr tb err) # ps) (n, es) = count_errors ps (n + 1, es @ [tb @ CHR 0x0A # err])"

text \<open>One round after the batch is measured, up to \<^verbatim>\<open>self.ttl\<close>.\<close>

definition after_measure ::
    "rat \<Rightarrow> nat \<Rightarrow> nat \<Rightarrow> 'c list \<Rightarrow> mres list \<Rightarrow> ('t, 'c, 'k) tuning \<Rightarrow> ('t, 'c, 'k) tuning" where
  "after_measure fl n_trial early inputs results g =
     (let ps = zip inputs results;
          b = keep_best_all fl (tg_i g) ps (tg_base g);
          (ct, es) = count_errors ps (tg_error_ct g, tg_errors g);
          i = tg_i g + length results in
      g\<lparr>tg_base := b\<lparr>tb_ttl := Some (min (int early + int (tb_best_iter b)) (int n_trial) - int i)\<rparr>,
        tg_i := i, tg_error_ct := ct, tg_errors := es\<rparr>)"

fun tune_loop ::
    "('t, 'c) tuner_ops \<Rightarrow> (nat \<Rightarrow> 'c list \<Rightarrow> mres list) \<Rightarrow> rat \<Rightarrow> nat \<Rightarrow> nat \<Rightarrow> nat \<Rightarrow>
     ('c tuner_base \<Rightarrow> 'c list \<Rightarrow> mres list \<Rightarrow> 'k \<Rightarrow> 'k) list \<Rightarrow> nat \<Rightarrow> (('t, 'c, 'k) tuning, unit option) st" where
  "tune_loop ops meas fl n_parallel n_trial early callbacks 0 = returnS None"
| "tune_loop ops meas fl n_parallel n_trial early callbacks (Suc fuel) =
     bindS (getS tg_i) (\<lambda>i.
       if \<not> i < n_trial then returnS (Some ())
       else
         bindS (on_tg (tu_has_next ops)) (\<lambda>more.
           if \<not> more then returnS (Some ())
           else
             bindS (on_tg (tu_next_batch ops (min n_parallel (n_trial - i)))) (\<lambda>configs.
             let results = meas i configs in
             bindS (modifyS (after_measure fl n_trial early configs results)) (\<lambda>_.
             bindS (on_tg (tu_update ops (zip configs results))) (\<lambda>_.
             bindS (modifyS (\<lambda>g. g\<lparr>tg_obs := fold (\<lambda>cb. cb (tg_base g) configs results) callbacks (tg_obs g)\<rparr>)) (\<lambda>_.
             bindS (getS id) (\<lambda>g.
               if tg_i g \<ge> tb_best_iter (tg_base g) + early then returnS (Some ())
               else
                 bindS (modifyS (\<lambda>g. g\<lparr>tg_debug := (tg_error_ct g > tb_error_ct_threshold (tg_base g))\<rparr>)) (\<lambda>_.
                   tune_loop ops meas fl n_parallel n_trial early callbacks fuel))))))))"

text \<open>\<^verbatim>\<open>format_si_prefix\<close> of \<^verbatim>\<open>utils.py\<close>; \<^verbatim>\<open>str.index\<close> searches a substring.\<close>

definition si_prefixes :: string where
  "si_prefixes = ''yzafpn'' @ [CHR 0xB5] @ ''m kMGTPEZY''"

fun str_index :: "string \<Rightarrow> string \<Rightarrow> nat py" where
  "str_index [] p = (if p = [] then Inr 0 else Inl ValueError)"
| "str_index (c # s) p = (if take (length p) (c # s) = p then Inr 0 else bindE (str_index s p) (\<lambda>n. Inr (Suc n)))"

definition format_si_prefix :: "rat \<Rightarrow> string \<Rightarrow> rat py" where
  "format_si_prefix x si_prefix =
     bindE (str_index si_prefixes si_prefix) (\<lambda>k. Inr (x / (10 powi (int k * 3 - 24))))"

text \<open>\<^verbatim>\<open>early_stopping or 1e9\<close>.\<close>

definition early_or_default :: "nat option \<Rightarrow> nat" where
  "early_or_default early = (case early of None \<Rightarrow> 10 ^ 9 | Some e \<Rightarrow> if e = 0 then 10 ^ 9 else e)"

text \<open>
  \<^verbatim>\<open>tune\<close>; the result says whether the file with the errors is written, and with which lines.
\<close>

definition tune ::
    "('t, 'c) tuner_ops \<Rightarrow> (nat \<Rightarrow> 'c list \<Rightarrow> mres list) \<Rightarrow> rat \<Rightarrow> nat \<Rightarrow> nat \<Rightarrow> nat option \<Rightarrow>
     ('c tuner_base \<Rightarrow> 'c list \<Rightarrow> mres list \<Rightarrow> 'k \<Rightarrow> 'k) list \<Rightarrow> string \<Rightarrow> nat \<Rightarrow>
     (('t, 'c, 'k) tuning, string list option option) st" where
  "tune ops meas fl n_parallel n_trial early_stopping callbacks si_prefix fuel =
     (let early = early_or_default early_stopping in
     bindS (modifyS (\<lambda>g. g\<lparr>tg_base := (tg_base g)\<lparr>tb_n_trial := Some n_trial, tb_early_stopping := Some early\<rparr>\<rparr>)) (\<lambda>_.
     bindS (liftS (format_si_prefix 0 si_prefix)) (\<lambda>_.
     bindS (modifyS (\<lambda>g. g\<lparr>tg_in_tuning := True, tg_i := 0, tg_error_ct := 0, tg_errors := []\<rparr>)) (\<lambda>_.
     bindS (tune_loop ops meas fl n_parallel n_trial early callbacks fuel) (\<lambda>r.
       case r of
         None \<Rightarrow> returnS None
       | Some u \<Rightarrow>
           bindS (getS id) (\<lambda>g.
           bindS (modifyS (\<lambda>g. g\<lparr>tg_in_tuning := False\<rparr>)) (\<lambda>_.
             returnS (Some (if tg_error_ct g = tg_i g then Some (tg_errors g) else None)))))))))"

section \<open>Callbacks\<close>

text \<open>\<^verbatim>\<open>Monitor.__call__\<close>, with the time stamps left out, and the state of \<^verbatim>\<open>progress_bar\<close>.\<close>

record monitor =
  mon_scores :: "rat list"

definition monitor_call :: "rat \<Rightarrow> 'c tuner_base \<Rightarrow> 'c list \<Rightarrow> mres list \<Rightarrow> monitor \<Rightarrow> monitor" where
  "monitor_call fl b inputs results m =
     m\<lparr>mon_scores := mon_scores m @ map (\<lambda>(c, r). res_flops fl r) (zip inputs results)\<rparr>"

definition monitor_reset :: "monitor \<Rightarrow> monitor" where
  "monitor_reset m = m\<lparr>mon_scores := []\<rparr>"

text \<open>
  \<^verbatim>\<open>log_to_file\<close>: the text of the file, to which one line per input and result is appended; \<open>enc_row\<close>
  is \<^verbatim>\<open>record.encode\<close> with the protocol.
\<close>

definition log_to_file :: "('c \<Rightarrow> mres \<Rightarrow> string) \<Rightarrow> 'c tuner_base \<Rightarrow> 'c list \<Rightarrow> mres list \<Rightarrow> string \<Rightarrow> string" where
  "log_to_file enc_row b inputs results file =
     file @ concat (map (\<lambda>(inp, result). enc_row inp result @ [CHR 0x0A]) (zip inputs results))"

record progress =
  pb_best_flops :: rat
  pb_cur_flops :: rat
  pb_ct :: nat
  pb_total :: nat

fun last_flops :: "rat \<Rightarrow> ('c \<times> mres) list \<Rightarrow> rat \<Rightarrow> rat" where
  "last_flops fl [] x = x"
| "last_flops fl ((c, MOk costs) # ps) x = last_flops fl ps (res_flops fl (MOk costs))"
| "last_flops fl ((c, MErr tb e) # ps) x = last_flops fl ps x"

definition progress_call :: "rat \<Rightarrow> bool \<Rightarrow> 'c tuner_base \<Rightarrow> 'c list \<Rightarrow> mres list \<Rightarrow> progress \<Rightarrow> progress" where
  "progress_call fl debug b inputs results ctx =
     (let ctx = ctx\<lparr>pb_ct := pb_ct ctx + length inputs\<rparr> in
      if debug then ctx
      else ctx\<lparr>pb_cur_flops := last_flops fl (zip inputs results) 0, pb_best_flops := tb_best_flops b\<rparr>)"

section \<open>The best of a log\<close>

lemma keep_best_ttl:
  "keep_best_all fl n ps (b\<lparr>tb_ttl := x\<rparr>) = (keep_best_all fl n ps b)\<lparr>tb_ttl := x\<rparr>"
proof (induction ps arbitrary: n b)
  case (Cons p ps)
  have "keep_best fl n p (b\<lparr>tb_ttl := x\<rparr>) = (keep_best fl n p b)\<lparr>tb_ttl := x\<rparr>" by (simp add: keep_best_def)
  with Cons show ?case by simp
qed simp

lemma keep_best_append:
  "keep_best_all fl n (ps @ qs) b = keep_best_all fl (n + length ps) qs (keep_best_all fl n ps b)"
  by (induction ps arbitrary: n b) simp_all

lemma count_errors_append: "count_errors (ps @ qs) e = count_errors qs (count_errors ps e)"
  by (induction ps e rule: count_errors.induct) simp_all

text \<open>
  The result of the scan: the flops never fall, and either nothing was better than at the start, or
  the best entry is the first one with the largest flops.
\<close>

definition best_of_log :: "rat \<Rightarrow> ('c \<times> mres) list \<Rightarrow> 'c tuner_base \<Rightarrow> bool" where
  "best_of_log fl ps b \<longleftrightarrow>
     (\<forall>p \<in> set ps. res_flops fl (snd p) \<le> tb_best_flops b) \<and>
     (if \<forall>p \<in> set ps. res_flops fl (snd p) \<le> 0
      then tb_best_flops b = 0 \<and> tb_best_config b = None \<and> tb_best_iter b = 0
      else \<exists>k < length ps. tb_best_iter b = k \<and> tb_best_config b = Some (fst (ps ! k)) \<and>
             tb_best_measure_pair b = Some (ps ! k) \<and> tb_best_flops b = res_flops fl (snd (ps ! k)) \<and>
             (\<forall>j < k. res_flops fl (snd (ps ! j)) < tb_best_flops b))"

lemma keep_best_scan:
  assumes "tb_best_flops b0 = 0" "tb_best_config b0 = None" "tb_best_iter b0 = 0"
  shows "best_of_log fl ps (keep_best_all fl 0 ps b0) \<and> 0 \<le> tb_best_flops (keep_best_all fl 0 ps b0)"
proof (induction ps rule: rev_induct)
  case Nil
  then show ?case using assms by (simp add: best_of_log_def)
next
  case (snoc p ps)
  let ?b = "keep_best_all fl 0 ps b0"
  have step: "keep_best_all fl 0 (ps @ [p]) b0 = keep_best fl (length ps) p ?b" by (simp add: keep_best_append)
  show ?case
  proof (cases "res_flops fl (snd p) > tb_best_flops ?b")
    case True
    have "\<forall>q \<in> set ps. res_flops fl (snd q) < res_flops fl (snd p)"
      using snoc True unfolding best_of_log_def by fastforce
    then have "\<forall>j < length ps. res_flops fl (snd ((ps @ [p]) ! j)) < res_flops fl (snd p)" by (simp add: nth_append)
    with True snoc \<open>\<forall>q \<in> set ps. _ q\<close> show ?thesis unfolding step
      by (auto simp: best_of_log_def keep_best_def intro!: exI[of _ "length ps"])
  next
    case False
    then have same: "keep_best_all fl 0 (ps @ [p]) b0 = ?b" using step by (simp add: keep_best_def)
    show ?thesis
    proof (cases "\<forall>q \<in> set ps. res_flops fl (snd q) \<le> 0")
      case True
      with snoc False show ?thesis unfolding same by (auto simp: best_of_log_def)
    next
      case pos: False
      with snoc obtain k where k: "k < length ps" "tb_best_iter ?b = k" "tb_best_config ?b = Some (fst (ps ! k))"
        "tb_best_measure_pair ?b = Some (ps ! k)" "tb_best_flops ?b = res_flops fl (snd (ps ! k))"
        "\<forall>j < k. res_flops fl (snd (ps ! j)) < tb_best_flops ?b"
        unfolding best_of_log_def by (auto split: if_splits)
      have "\<exists>k < length (ps @ [p]). tb_best_iter ?b = k \<and> tb_best_config ?b = Some (fst ((ps @ [p]) ! k)) \<and>
          tb_best_measure_pair ?b = Some ((ps @ [p]) ! k) \<and> tb_best_flops ?b = res_flops fl (snd ((ps @ [p]) ! k)) \<and>
          (\<forall>j < k. res_flops fl (snd ((ps @ [p]) ! j)) < tb_best_flops ?b)"
        using k by (intro exI[of _ k]) (auto simp: nth_append)
      with snoc pos False show ?thesis unfolding same by (auto simp: best_of_log_def)
    qed
  qed
qed

section \<open>Tuners that keep the loop going\<close>

text \<open>
  What the loop needs of a tuner: the methods do not raise, and while \<^verbatim>\<open>has_next\<close> is true a batch is
  neither empty nor too long. \<open>next_to\<close> and \<open>upd_to\<close> say how the methods move the abstract state.
\<close>

locale batch_tuner =
  fixes ops :: "('t, 'c) tuner_ops" and good_t :: "'t \<Rightarrow> bool" and view_t :: "'t \<Rightarrow> 'w"
    and has_more :: "'w \<Rightarrow> bool" and next_to :: "'w \<Rightarrow> nat \<Rightarrow> 'c list \<Rightarrow> 'w \<Rightarrow> bool" and upd_to :: "'w \<Rightarrow> 'w \<Rightarrow> bool"
  assumes has_next_answers: "good_t t \<Longrightarrow> answers good_t view_t t (tu_has_next ops) (has_more (view_t t))"
    and next_answers: "good_t t \<Longrightarrow> has_more (view_t t) \<Longrightarrow> 0 < n \<Longrightarrow>
      \<exists>t' cs. tu_next_batch ops n t = (t', Inr cs) \<and> good_t t' \<and> next_to (view_t t) n cs (view_t t')"
    and batch_bounds: "next_to w n cs w' \<Longrightarrow> has_more w \<Longrightarrow> 0 < n \<Longrightarrow> cs \<noteq> [] \<and> length cs \<le> n"
    and update_answers: "good_t t \<Longrightarrow> \<exists>t'. tu_update ops ps t = (t', Inr ()) \<and> good_t t' \<and> upd_to (view_t t) (view_t t')"
begin

text \<open>The state after the measurements \<open>lg\<close>.\<close>

definition tuned :: "rat \<Rightarrow> 'c tuner_base \<Rightarrow> ('c \<times> mres) list \<Rightarrow> ('t, 'c, 'k) tuning \<Rightarrow> bool" where
  "tuned fl b0 lg g \<longleftrightarrow> good_t (tg_tuner g) \<and> tg_i g = length lg \<and>
     (\<exists>x. tg_base g = (keep_best_all fl 0 lg b0)\<lparr>tb_ttl := x\<rparr>) \<and>
     (tg_error_ct g, tg_errors g) = count_errors lg (0, [])"

lemma after_measure_tuned:
  assumes "tuned fl b0 lg g" "length (meas (tg_i g) cs) = length cs" "good_t t"
  shows "tuned fl b0 (lg @ zip cs (meas (tg_i g) cs))
           (after_measure fl n early cs (meas (tg_i g) cs) (g\<lparr>tg_tuner := t\<rparr>))"
proof -
  obtain x where x: "tg_base g = (keep_best_all fl 0 lg b0)\<lparr>tb_ttl := x\<rparr>" using assms(1) by (auto simp: tuned_def)
  have "keep_best_all fl (tg_i g) (zip cs (meas (tg_i g) cs)) (tg_base g)
      = (keep_best_all fl 0 (lg @ zip cs (meas (tg_i g) cs)) b0)\<lparr>tb_ttl := x\<rparr>"
    using assms(1) unfolding x keep_best_ttl by (simp add: keep_best_append tuned_def)
  with assms show ?thesis
    by (auto simp: tuned_def after_measure_def Let_def count_errors_append split: prod.splits)
qed

lemma tuned_cong:
  "tuned fl b0 lg g \<Longrightarrow> good_t t \<Longrightarrow> tuned fl b0 lg (g\<lparr>tg_tuner := t\<rparr>)"
  "tuned fl b0 lg (g\<lparr>tg_obs := k\<rparr>) = tuned fl b0 lg g"
  "tuned fl b0 lg (g\<lparr>tg_debug := d\<rparr>) = tuned fl b0 lg g"
  by (simp_all add: tuned_def)

lemma on_tg_apply [simp]: "m (tg_tuner g) = (t', r) \<Longrightarrow> on_tg m g = (g\<lparr>tg_tuner := t'\<rparr>, r)"
  by (simp add: on_tg_def)

text \<open>
  One round: the batch is measured, the tuner updated, the callbacks called. \<open>J\<close> is any invariant of
  the log and the abstract state, \<open>P\<close> one of the log and what the callbacks keep.
\<close>

lemma loop_round:
  assumes "tuned fl b0 lg g" "has_more (view_t (tg_tuner g))" "tg_i g < n_trial" "0 < n_parallel"
    and "\<And>i cs. length (meas i cs) = length cs"
  shows "\<exists>cs w g'. tune_loop ops meas fl n_parallel n_trial early cbs (Suc fuel) g =
       (if tg_i g' \<ge> tb_best_iter (tg_base g') + early then (g', Inr (Some ()))
        else tune_loop ops meas fl n_parallel n_trial early cbs fuel
               (g'\<lparr>tg_debug := (tg_error_ct g' > tb_error_ct_threshold (tg_base g'))\<rparr>)) \<and>
     tuned fl b0 (lg @ zip cs (meas (length lg) cs)) g' \<and> cs \<noteq> [] \<and>
     length cs \<le> min n_parallel (n_trial - length lg) \<and>
     next_to (view_t (tg_tuner g)) (min n_parallel (n_trial - length lg)) cs w \<and> upd_to w (view_t (tg_tuner g')) \<and>
     tg_obs g' = fold (\<lambda>cb. cb (tg_base g') cs (meas (length lg) cs)) cbs (tg_obs g) \<and> tg_in_tuning g' = tg_in_tuning g"
proof -
  let ?n = "min n_parallel (n_trial - tg_i g)" and ?w = "view_t (tg_tuner g)"
  have i: "tg_i g = length lg" and good: "good_t (tg_tuner g)" using assms(1) by (simp_all add: tuned_def)
  have n: "0 < ?n" using assms(3,4) by simp
  from has_next_answers[OF good] assms(2) obtain t0 where 0:
    "tu_has_next ops (tg_tuner g) = (t0, Inr True)" "good_t t0" "view_t t0 = ?w" by (auto simp: answers_def)
  from next_answers[OF 0(2) _ n] assms(2) 0(3) obtain t1 cs where 1:
    "tu_next_batch ops ?n t0 = (t1, Inr cs)" "good_t t1" "next_to ?w ?n cs (view_t t1)" by auto
  let ?rs = "meas (tg_i g) cs"
  from update_answers[OF 1(2)] obtain t2 where 2:
    "tu_update ops (zip cs ?rs) t1 = (t2, Inr ())" "good_t t2" "upd_to (view_t t1) (view_t t2)" by blast
  define g1 where "g1 = after_measure fl n_trial early cs ?rs (g\<lparr>tg_tuner := t1\<rparr>)"
  define g' where "g' = g1\<lparr>tg_tuner := t2, tg_obs := fold (\<lambda>cb. cb (tg_base g1) cs ?rs) cbs (tg_obs g1)\<rparr>"
  have g1: "tg_tuner g1 = t1" "tg_obs g1 = tg_obs g" "tg_in_tuning g1 = tg_in_tuning g"
    by (simp_all add: g1_def after_measure_def Let_def split: prod.splits)
  have "tuned fl b0 (lg @ zip cs ?rs) g1" unfolding g1_def by (rule after_measure_tuned[OF assms(1,5) 1(2)])
  then have tuned: "tuned fl b0 (lg @ zip cs ?rs) g'" using 2(2) by (simp add: g'_def tuned_cong tuned_def)
  have "tune_loop ops meas fl n_parallel n_trial early cbs (Suc fuel) g =
       (if tg_i g' \<ge> tb_best_iter (tg_base g') + early then (g', Inr (Some ()))
        else tune_loop ops meas fl n_parallel n_trial early cbs fuel
               (g'\<lparr>tg_debug := (tg_error_ct g' > tb_error_ct_threshold (tg_base g'))\<rparr>))"
    using assms(3) 0(1) 1(1) 2(1) g1(1)
    by (simp add: g'_def g1_def[symmetric] Let_def bindS_Inr[of "on_tg (tu_has_next ops)" _ _ True])
  moreover have "tg_obs g' = fold (\<lambda>cb. cb (tg_base g') cs ?rs) cbs (tg_obs g)" "tg_in_tuning g' = tg_in_tuning g"
      "tg_tuner g' = t2" using g1 by (simp_all add: g'_def)
  ultimately show ?thesis using tuned batch_bounds[OF 1(3) _ n] assms(2) 1(3) 2(3) i
    by (intro exI[of _ cs] exI[of _ "view_t t1"] exI[of _ g']) auto
qed

lemma loop_runs:
  assumes "tuned fl b0 lg g" "J lg (view_t (tg_tuner g))" "P lg (tg_obs g)" "length lg \<le> n_trial" "0 < n_parallel"
    and meas: "\<And>i cs. length (meas i cs) = length cs"
    and J: "\<And>lg w n cs w' w''. J lg w \<Longrightarrow> has_more w \<Longrightarrow> n = min n_parallel (n_trial - length lg) \<Longrightarrow> 0 < n \<Longrightarrow>
      next_to w n cs w' \<Longrightarrow> upd_to w' w'' \<Longrightarrow>
      J (lg @ zip cs (meas (length lg) cs)) w''"
    and P: "\<And>lg k b cs rs. P lg k \<Longrightarrow> length rs = length cs \<Longrightarrow> P (lg @ zip cs rs) (fold (\<lambda>cb. cb b cs rs) cbs k)"
    and "n_trial - length lg < fuel"
  shows "\<exists>g' lg'. tune_loop ops meas fl n_parallel n_trial early cbs fuel g = (g', Inr (Some ())) \<and>
     tuned fl b0 lg' g' \<and> J lg' (view_t (tg_tuner g')) \<and> P lg' (tg_obs g') \<and> length lg' \<le> n_trial \<and>
     tg_in_tuning g' = tg_in_tuning g \<and>
     (length lg' = n_trial \<or> \<not> has_more (view_t (tg_tuner g')) \<or>
        length lg' \<ge> tb_best_iter (keep_best_all fl 0 lg' b0) + early)"
  using assms(1-4,9)
proof (induction fuel arbitrary: g lg)
  case (Suc fuel)
  have i: "tg_i g = length lg" and good: "good_t (tg_tuner g)" using Suc.prems(1) by (simp_all add: tuned_def)
  show ?case
  proof (cases "tg_i g < n_trial")
    case False
    with i Suc.prems show ?thesis by (intro exI[of _ g] exI[of _ lg]) simp
  next
    case True
    show ?thesis
    proof (cases "has_more (view_t (tg_tuner g))")
      case False
      from has_next_answers[OF good] False obtain t where t: "tu_has_next ops (tg_tuner g) = (t, Inr False)"
        "good_t t" "view_t t = view_t (tg_tuner g)" by (auto simp: answers_def)
      then have "tune_loop ops meas fl n_parallel n_trial early cbs (Suc fuel) g = (g\<lparr>tg_tuner := t\<rparr>, Inr (Some ()))"
        using True by (simp add: bindS_Inr[of "on_tg (tu_has_next ops)" _ _ False])
      with t False Suc.prems(1-4) show ?thesis by (intro exI[of _ "g\<lparr>tg_tuner := t\<rparr>"] exI[of _ lg]) (simp add: tuned_cong)
    next
      case more: True
      let ?n = "min n_parallel (n_trial - length lg)"
      obtain cs w g' where *: "tune_loop ops meas fl n_parallel n_trial early cbs (Suc fuel) g =
          (if tg_i g' \<ge> tb_best_iter (tg_base g') + early then (g', Inr (Some ()))
           else tune_loop ops meas fl n_parallel n_trial early cbs fuel
                 (g'\<lparr>tg_debug := (tg_error_ct g' > tb_error_ct_threshold (tg_base g'))\<rparr>))"
        "tuned fl b0 (lg @ zip cs (meas (length lg) cs)) g'" "cs \<noteq> []" "length cs \<le> ?n"
        "next_to (view_t (tg_tuner g)) ?n cs w" "upd_to w (view_t (tg_tuner g'))"
        "tg_obs g' = fold (\<lambda>cb. cb (tg_base g') cs (meas (length lg) cs)) cbs (tg_obs g)" "tg_in_tuning g' = tg_in_tuning g"
        using loop_round[OF Suc.prems(1) more True assms(5), of meas early cbs fuel, OF meas]
        by (elim exE conjE) (rule that)
      define lg' where "lg' = lg @ zip cs (meas (length lg) cs)"
      have tuned: "tuned fl b0 lg' g'" using *(2) by (simp add: lg'_def)
      have "0 < ?n" using True i assms(5) by simp
      from J[OF Suc.prems(2) more refl this *(5,6)] have J': "J lg' (view_t (tg_tuner g'))" by (simp add: lg'_def)
      have P': "P lg' (tg_obs g')" using P[OF Suc.prems(3) meas] by (simp add: lg'_def *(7))
      have len: "length lg' = length lg + length cs" by (simp add: lg'_def meas)
      have "0 < length cs" "length cs \<le> n_trial - length lg" using *(3,4) by simp_all
      with len Suc.prems(4,5) have le: "length lg' \<le> n_trial" "n_trial - length lg' < fuel" by linarith+
      obtain x where base: "tg_base g' = (keep_best_all fl 0 lg' b0)\<lparr>tb_ttl := x\<rparr>" and i': "tg_i g' = length lg'"
        using tuned by (auto simp: tuned_def)
      show ?thesis
      proof (cases "tg_i g' \<ge> tb_best_iter (tg_base g') + early")
        case True
        with *(1) have "tune_loop ops meas fl n_parallel n_trial early cbs (Suc fuel) g = (g', Inr (Some ()))" by simp
        moreover have "length lg' \<ge> tb_best_iter (keep_best_all fl 0 lg' b0) + early" using True base i' by simp
        ultimately show ?thesis using tuned J' P' le(1) *(8) by (intro exI[of _ g'] exI[of _ lg']) simp
      next
        case False
        let ?g = "g'\<lparr>tg_debug := (tg_error_ct g' > tb_error_ct_threshold (tg_base g'))\<rparr>"
        have "tuned fl b0 lg' ?g" "J lg' (view_t (tg_tuner ?g))" "P lg' (tg_obs ?g)" using tuned J' P' by (simp_all add: tuned_cong)
        from Suc.IH[OF this le] False *(1,8) show ?thesis by simp
      qed
    qed
  qed
qed simp

text \<open>\<^verbatim>\<open>tune\<close> from a tuner that has not measured yet.\<close>

lemma tune_runs:
  fixes early :: "nat option"
  assumes "good_t (tg_tuner g)" "J [] (view_t (tg_tuner g))" "P [] (tg_obs g)" "0 < n_parallel" "n_trial < fuel"
    and "\<And>i cs. length (meas i cs) = length cs"
    and "\<And>lg w n cs w' w''. J lg w \<Longrightarrow> has_more w \<Longrightarrow> n = min n_parallel (n_trial - length lg) \<Longrightarrow> 0 < n \<Longrightarrow>
      next_to w n cs w' \<Longrightarrow> upd_to w' w'' \<Longrightarrow>
      J (lg @ zip cs (meas (length lg) cs)) w''"
    and "\<And>lg k b cs rs. P lg k \<Longrightarrow> length rs = length cs \<Longrightarrow> P (lg @ zip cs rs) (fold (\<lambda>cb. cb b cs rs) cbs k)"
    and "format_si_prefix 0 si = Inr y"
  defines "b0 \<equiv> (tg_base g)\<lparr>tb_n_trial := Some n_trial, tb_early_stopping := Some (early_or_default early)\<rparr>"
  shows "\<exists>g' lg x. tune ops meas fl n_parallel n_trial early cbs si fuel g = (g', Inr (Some
       (if fst (count_errors lg (0, [])) = length lg then Some (snd (count_errors lg (0, []))) else None))) \<and>
     \<not> tg_in_tuning g' \<and> tg_i g' = length lg \<and> tg_base g' = (keep_best_all fl 0 lg b0)\<lparr>tb_ttl := x\<rparr> \<and>
     J lg (view_t (tg_tuner g')) \<and> P lg (tg_obs g') \<and> length lg \<le> n_trial \<and>
     (length lg = n_trial \<or> \<not> has_more (view_t (tg_tuner g')) \<or>
        length lg \<ge> tb_best_iter (keep_best_all fl 0 lg b0) + early_or_default early)"
proof -
  define g0 where "g0 = g\<lparr>tg_base := b0, tg_in_tuning := True, tg_i := 0, tg_error_ct := 0, tg_errors := []\<rparr>"
  have init: "tuned fl b0 [] g0" "J [] (view_t (tg_tuner g0))" "P [] (tg_obs g0)"
    using assms(1-3) by (auto simp: tuned_def g0_def intro: exI[of _ "tb_ttl b0"])
  have "\<exists>g1 lg. tune_loop ops meas fl n_parallel n_trial (early_or_default early) cbs fuel g0 = (g1, Inr (Some ())) \<and>
     tuned fl b0 lg g1 \<and> J lg (view_t (tg_tuner g1)) \<and> P lg (tg_obs g1) \<and> length lg \<le> n_trial \<and>
     tg_in_tuning g1 = tg_in_tuning g0 \<and> (length lg = n_trial \<or> \<not> has_more (view_t (tg_tuner g1)) \<or>
        length lg \<ge> tb_best_iter (keep_best_all fl 0 lg b0) + early_or_default early)"
  proof (rule loop_runs[where J = J and P = P and lg = "[]" and ?b0.0 = b0])
    show "J (lg @ zip cs (meas (length lg) cs)) w''"
      if "J lg w" "has_more w" "n = min n_parallel (n_trial - length lg)" "0 < n" "next_to w n cs w'" "upd_to w' w''"
      for lg w n cs w' w'' by (rule assms(7)[OF that])
    show "P (lg @ zip cs rs) (fold (\<lambda>cb. cb b cs rs) cbs k)" if "P lg k" "length rs = length cs" for lg k b cs rs
      by (rule assms(8)[OF that])
  qed (use init assms(4-6) in simp_all)
  then obtain g1 lg where run: "tune_loop ops meas fl n_parallel n_trial (early_or_default early) cbs fuel g0 = (g1, Inr (Some ()))"
     "tuned fl b0 lg g1" "J lg (view_t (tg_tuner g1))" "P lg (tg_obs g1)" "length lg \<le> n_trial"
     "length lg = n_trial \<or> \<not> has_more (view_t (tg_tuner g1)) \<or>
        length lg \<ge> tb_best_iter (keep_best_all fl 0 lg b0) + early_or_default early"
    by blast
  obtain x where x: "tg_base g1 = (keep_best_all fl 0 lg b0)\<lparr>tb_ttl := x\<rparr>" using run(2) by (auto simp: tuned_def)
  have err: "tg_error_ct g1 = fst (count_errors lg (0, []))" "tg_errors g1 = snd (count_errors lg (0, []))"
    "tg_i g1 = length lg" using run(2) unfolding tuned_def by (metis fst_conv, metis snd_conv, metis)
  have "tune ops meas fl n_parallel n_trial early cbs si fuel g = (g1\<lparr>tg_in_tuning := False\<rparr>, Inr (Some
       (if fst (count_errors lg (0, [])) = length lg then Some (snd (count_errors lg (0, []))) else None)))"
    using run(1) assms(9) by (simp add: tune_def b0_def g0_def Let_def err)
  with run(3-6) x err(3) show ?thesis by (intro exI[of _ "g1\<lparr>tg_in_tuning := False\<rparr>"] exI[of _ lg] exI[of _ x]) simp
qed

end

fun failed :: "mres \<Rightarrow> bool" where
  "failed (MOk costs) = False"
| "failed (MErr tb e) = True"

fun error_text :: "mres \<Rightarrow> string" where
  "error_text (MOk costs) = []"
| "error_text (MErr tb e) = tb @ CHR 0x0A # e"

lemma count_errors_bound: "fst (count_errors lg (n, es)) \<le> n + length lg"
proof (induction lg arbitrary: n es)
  case (Cons p lg)
  show ?case using Cons[of 0 es] Cons[of "n + 1"] by (cases p; cases "snd p") (auto intro: le_trans)
qed simp

lemma count_errors_failed:
  "fst (count_errors lg (n, es)) = n + length lg \<longleftrightarrow> (\<forall>p \<in> set lg. failed (snd p))"
proof (induction lg arbitrary: n es)
  case (Cons p lg)
  obtain c r where p: "p = (c, r)" by (cases p)
  show ?case
  proof (cases r)
    case (MOk costs)
    with count_errors_bound[of lg 0 es] p show ?thesis by simp
  next
    case (MErr tb e)
    with Cons[of "n + 1" "es @ [tb @ CHR 0x0A # e]"] p show ?thesis by simp
  qed
qed simp

lemma count_errors_texts:
  "snd (count_errors lg (n, es)) = es @ map (error_text \<circ> snd) (filter (failed \<circ> snd) lg)"
proof (induction lg arbitrary: n es)
  case (Cons p lg)
  obtain c r where "p = (c, r)" by (cases p)
  with Cons show ?case by (cases r) simp_all
qed simp

lemma best_of_log_ttl [simp]: "best_of_log fl lg (b\<lparr>tb_ttl := x\<rparr>) = best_of_log fl lg b"
  by (simp add: best_of_log_def)

text \<open>
  The specification of a run: \<open>offered\<close> are the batches a tuner hands out when each is asked for
  with the trials that are left and followed by an update; \<open>measured_log\<close> are the pairs of
  configuration and result when these batches are measured one after the other.
\<close>

inductive offered ::
    "('w \<Rightarrow> bool) \<Rightarrow> ('w \<Rightarrow> nat \<Rightarrow> 'c list \<Rightarrow> 'w \<Rightarrow> bool) \<Rightarrow> ('w \<Rightarrow> 'w \<Rightarrow> bool) \<Rightarrow> nat \<Rightarrow> nat \<Rightarrow> 'w \<Rightarrow> 'c list list \<Rightarrow> 'w \<Rightarrow> bool"
  for has_more next_to upd_to n_parallel n_trial w0 where
  offered_none: "offered has_more next_to upd_to n_parallel n_trial w0 [] w0"
| offered_batch: "offered has_more next_to upd_to n_parallel n_trial w0 css w \<Longrightarrow> has_more w \<Longrightarrow>
    length (concat css) < n_trial \<Longrightarrow> next_to w (min n_parallel (n_trial - length (concat css))) cs w' \<Longrightarrow> upd_to w' w'' \<Longrightarrow>
    offered has_more next_to upd_to n_parallel n_trial w0 (css @ [cs]) w''"

fun measured_log :: "(nat \<Rightarrow> 'c list \<Rightarrow> mres list) \<Rightarrow> ('c \<times> mres) list \<Rightarrow> 'c list list \<Rightarrow> ('c \<times> mres) list" where
  "measured_log meas lg [] = lg"
| "measured_log meas lg (cs # css) = measured_log meas (lg @ zip cs (meas (length lg) cs)) css"

lemma measured_log_snoc:
  "measured_log meas lg (css @ [cs]) = measured_log meas lg css @ zip cs (meas (length (measured_log meas lg css)) cs)"
  by (induction css arbitrary: lg) simp_all

lemma measured_log_length:
  assumes "\<And>i cs. length (meas i cs) = length cs"
  shows "length (measured_log meas lg css) = length lg + length (concat css)"
  by (induction css arbitrary: lg) (simp_all add: assms)

text \<open>C19: \<^verbatim>\<open>Tuner.tune\<close> ends for every tuner whose \<^verbatim>\<open>next_batch\<close> gives at least one and at most as many
  configurations as asked for while \<^verbatim>\<open>has_next\<close> is true, and every measurement that returns one result
  per input. The batches measured are those the tuner offers, each asked for with the trials left;
  the log file has one line for every configuration measured, in that order, with its result. At
  most \<^verbatim>\<open>n_trial\<close> configurations are measured; \<^verbatim>\<open>tune\<close> stops before only when nothing is left or
  \<^verbatim>\<open>early_stopping\<close> trials brought no better one. The kept configuration is the first of the largest
  speed in the log, and the error file is written exactly when no trial of it succeeded.\<close>

theorem tune_terminates:
  assumes "batch_tuner ops good_t view_t has_more next_to upd_to" "good_t (tg_tuner g)"
    and "\<And>i cs. length (meas i cs) = length cs" "0 < n_parallel" "format_si_prefix 0 si = Inr y"
    and "tb_best_flops (tg_base g) = 0" "tb_best_config (tg_base g) = None" "tb_best_iter (tg_base g) = 0"
    and "n_trial < fuel"
  shows "\<exists>g' css lg. lg = measured_log meas [] css \<and>
     offered has_more next_to upd_to n_parallel n_trial (view_t (tg_tuner g)) css (view_t (tg_tuner g')) \<and>
     tune ops meas fl n_parallel n_trial early [log_to_file enc_row] si fuel g = (g', Inr (Some
       (if \<forall>p \<in> set lg. failed (snd p) then Some (map (error_text \<circ> snd) lg) else None))) \<and>
     tg_obs g' = tg_obs g @ concat (map (\<lambda>(inp, result). enc_row inp result @ [CHR 0x0A]) lg) \<and>
     tg_i g' = length lg \<and> length lg \<le> n_trial \<and> best_of_log fl lg (tg_base g') \<and> \<not> tg_in_tuning g' \<and>
     (length lg = n_trial \<or> \<not> has_more (view_t (tg_tuner g')) \<or>
        length lg \<ge> tb_best_iter (tg_base g') + early_or_default early)"
proof -
  let ?b0 = "(tg_base g)\<lparr>tb_n_trial := Some n_trial, tb_early_stopping := Some (early_or_default early)\<rparr>"
  let ?rows = "\<lambda>lg. concat (map (\<lambda>(inp, result). enc_row inp result @ [CHR 0x0A]) lg)"
  let ?J = "\<lambda>lg w. \<exists>css. lg = measured_log meas [] css \<and>
    offered has_more next_to upd_to n_parallel n_trial (view_t (tg_tuner g)) css w"
  let ?P = "\<lambda>lg k. k = tg_obs g @ ?rows lg"
  have J0: "?J [] (view_t (tg_tuner g))" by (intro exI[of _ "[]"]) (simp add: offered_none)
  have J: "?J (lg @ zip cs (meas (length lg) cs)) w''"
    if "?J lg w" "has_more w" "n = min n_parallel (n_trial - length lg)" "0 < n" "next_to w n cs w'" "upd_to w' w''"
    for lg w n cs w' w''
  proof -
    from that(1) obtain css where css: "lg = measured_log meas [] css"
      "offered has_more next_to upd_to n_parallel n_trial (view_t (tg_tuner g)) css w" by blast
    have len: "length lg = length (concat css)" unfolding css(1) using measured_log_length[where meas = meas and lg = "[]" and css = css, OF assms(3)] by simp
    have "length (concat css) < n_trial" using that(3,4) len by simp
    from offered_batch[OF css(2) that(2) this that(5)[unfolded that(3) len] that(6)] css(1) show ?thesis
      by (intro exI[of _ "css @ [cs]"]) (simp add: measured_log_snoc)
  qed
  have P: "?P (lg @ zip cs rs) (fold (\<lambda>cb. cb b cs rs) [log_to_file enc_row] k)" if "?P lg k" "length rs = length cs"
    for lg k b cs rs using that(1) by (simp add: log_to_file_def)
  have P0: "?P [] (tg_obs g)" by simp
  have "\<exists>g' lg x. tune ops meas fl n_parallel n_trial early [log_to_file enc_row] si fuel g = (g', Inr (Some
       (if fst (count_errors lg (0, [])) = length lg then Some (snd (count_errors lg (0, []))) else None))) \<and>
     \<not> tg_in_tuning g' \<and> tg_i g' = length lg \<and> tg_base g' = (keep_best_all fl 0 lg ?b0)\<lparr>tb_ttl := x\<rparr> \<and>
     ?J lg (view_t (tg_tuner g')) \<and> ?P lg (tg_obs g') \<and> length lg \<le> n_trial \<and>
     (length lg = n_trial \<or> \<not> has_more (view_t (tg_tuner g')) \<or>
        length lg \<ge> tb_best_iter (keep_best_all fl 0 lg ?b0) + early_or_default early)"
    by (rule batch_tuner.tune_runs[where J = ?J and P = ?P and meas = meas, OF assms(1,2) J0 P0 assms(4,9,3) _ _ assms(5)];
      (rule J; assumption | rule P; assumption))
  then obtain g' lg x where run: "tune ops meas fl n_parallel n_trial early [log_to_file enc_row] si fuel g = (g', Inr (Some
       (if fst (count_errors lg (0, [])) = length lg then Some (snd (count_errors lg (0, []))) else None)))"
     "\<not> tg_in_tuning g'" "tg_i g' = length lg" "tg_base g' = (keep_best_all fl 0 lg ?b0)\<lparr>tb_ttl := x\<rparr>" "length lg \<le> n_trial"
     "length lg = n_trial \<or> \<not> has_more (view_t (tg_tuner g')) \<or>
        length lg \<ge> tb_best_iter (keep_best_all fl 0 lg ?b0) + early_or_default early"
     "?J lg (view_t (tg_tuner g'))" "?P lg (tg_obs g')"
    by blast
  from run(7) obtain css where css: "lg = measured_log meas [] css"
    "offered has_more next_to upd_to n_parallel n_trial (view_t (tg_tuner g)) css (view_t (tg_tuner g'))" by blast
  have err: "fst (count_errors lg (0, [])) = length lg \<longleftrightarrow> (\<forall>p \<in> set lg. failed (snd p))"
    using count_errors_failed[of lg 0 "[]"] by simp
  have "(if fst (count_errors lg (0, [])) = length lg then Some (snd (count_errors lg (0, []))) else None) =
      (if \<forall>p \<in> set lg. failed (snd p) then Some (map (error_text \<circ> snd) lg) else None)"
    unfolding err by (simp add: count_errors_texts)
  moreover have "best_of_log fl lg (tg_base g')"
    using keep_best_scan[of ?b0 fl lg] assms(6-8) by (simp add: run(4))
  ultimately show ?thesis using run(1-6,8) css by (intro exI[of _ g'] exI[of _ css] exI[of _ lg]) simp
qed

section \<open>The grid search in the loop\<close>

definition grid_tuner_ops :: "('s, 'c) space_ops \<Rightarrow> ('s \<times> idx_tuner, 'c) tuner_ops" where
  "grid_tuner_ops ops = \<lparr>tu_has_next = bindS (getS snd) (\<lambda>t. returnS (idx_has_next t)),
     tu_next_batch = grid_next_batch ops, tu_update = (\<lambda>ps. returnS ())\<rparr>"

context index_space
begin

definition grid_good :: "'s \<times> idx_tuner \<Rightarrow> bool" where
  "grid_good p \<longleftrightarrow> good (fst p) \<and> grid_at (view (fst p)) (snd p) (length (visited (snd p)))"

definition grid_rest :: "'s \<times> idx_tuner \<Rightarrow> 'c list" where
  "grid_rest p = map (conf (view (fst p)))
     (drop (length (visited (snd p))) (valids (view (fst p)) (begin_idx (snd p)) (end_idx (snd p))))"

lemma grid_at_visited: "grid_at w t k \<Longrightarrow> length (visited t) = k"
  by (auto simp: grid_at_def Let_def)

lemma grid_is_batch_tuner:
  "batch_tuner (grid_tuner_ops ops) grid_good grid_rest (\<lambda>w. w \<noteq> []) (\<lambda>w n cs w'. cs = take n w \<and> w' = drop n w) (=)"
proof (unfold_locales, goal_cases)
  case (1 t)
  then show ?case
    by (cases t) (auto simp: answers_def grid_tuner_ops_def grid_good_def grid_rest_def grid_at_has_next)
next
  case (2 p n)
  obtain s t where p: "p = (s, t)" by (cases p)
  let ?k = "length (visited t)" and ?L = "valids (view s) (begin_idx t) (end_idx t)"
  have at: "good s" "grid_at (view s) t ?k" using 2(1) p by (simp_all add: grid_good_def)
  obtain s' t' where run: "grid_next_batch ops n (s, t) = ((s', t'), Inr (map (conf (view s)) (take n (drop ?k ?L))))"
      "good s'" "view s' = view s" "grid_at (view s) t' (min (?k + n) (length ?L))"
      "begin_idx t' = begin_idx t" "end_idx t' = end_idx t"
    using grid_batch[OF at, of n] by blast
  have vis: "length (visited t') = min (?k + n) (length ?L)" by (rule grid_at_visited[OF run(4)])
  have "grid_rest (s', t') = map (conf (view s)) (drop (min (?k + n) (length ?L)) ?L)"
    by (simp only: grid_rest_def vis run(3,5,6) fst_conv snd_conv)
  also have "drop (min (?k + n) (length ?L)) ?L = drop n (drop ?k ?L)" by (simp add: min_def add.commute)
  finally have rest: "grid_rest (s', t') = drop n (grid_rest p)"
    by (simp only: grid_rest_def p fst_conv snd_conv drop_map)
  have "grid_good (s', t')" using run(2-4) vis by (simp add: grid_good_def)
  moreover have "map (conf (view s)) (take n (drop ?k ?L)) = take n (grid_rest p)"
    by (simp only: grid_rest_def p fst_conv snd_conv take_map)
  ultimately show ?case using run(1) rest p by (auto simp: grid_tuner_ops_def)
next
  case (3 w n cs w')
  then show ?case by simp
next
  case (4 t ps)
  then show ?case by (simp add: grid_tuner_ops_def)
qed

end

interpretation grid_tn: batch_tuner "grid_tuner_ops config_ops" cfg.grid_good cfg.grid_rest "\<lambda>w. w \<noteq> []"
    "\<lambda>w n cs w'. cs = take n w \<and> w' = drop n w" "(=)"
  by (rule cfg.grid_is_batch_tuner)

lemma format_G: "format_si_prefix 0 ''G'' = Inr 0"
  by (simp add: format_si_prefix_def si_prefixes_def)

definition tuning_start :: "'t \<Rightarrow> 'k \<Rightarrow> ('t, 'c, 'k) tuning" where
  "tuning_start t k = \<lparr>tg_tuner = t, tg_base = tuner_base_init, tg_obs = k, tg_in_tuning = False, tg_debug = False,
     tg_i = 0, tg_error_ct = 0, tg_errors = []\<rparr>"

text \<open>The measured configurations are those the grid search lists, in order.\<close>

definition listed :: "('c \<Rightarrow> mres) \<Rightarrow> 'c list \<Rightarrow> ('c \<times> mres) list \<Rightarrow> 'c list \<Rightarrow> bool" where
  "listed perf R lg w \<longleftrightarrow> w = drop (length lg) R \<and> lg = map (\<lambda>c. (c, perf c)) (take (length lg) R)"

lemma listed_step:
  assumes "listed perf R lg w"
  shows "listed perf R (lg @ zip (take n w) (map perf (take n w))) (drop n w)"
proof -
  let ?m = "length (take n w)"
  have z: "zip (take n w) (map perf (take n w)) = map (\<lambda>c. (c, perf c)) (take n w)"
    by (simp add: zip_map2 zip_same_conv_map)
  have w: "w = drop (length lg) R" and lg: "lg = map (\<lambda>c. (c, perf c)) (take (length lg) R)"
    using assms by (simp_all add: listed_def)
  have "take (length lg + ?m) R = take (length lg) R @ take n w" unfolding w
    by (cases "n \<le> length R - length lg") (simp_all add: take_add min_def)
  moreover have "drop (length lg + ?m) R = drop n w" unfolding w by (simp add: min_def add.commute)
  ultimately show ?thesis unfolding listed_def z using lg by simp
qed

lemma grid_start:
  assumes "proper cs" "coherent cs"
  shows "\<exists>cs1 t. grid_init config_ops None cs = (cs1, Inr t) \<and> cfg.grid_good (cs1, t) \<and>
    cfg.grid_rest (cs1, t) = map (config_at cs) (filter (valid_at cs) [0..num_points cs - 1])"
proof -
  have good: "space_good cs" using assms by (simp add: space_good_def)
  obtain t where t: "answers space_good clear_cache cs (grid_init config_ops None) t" "cfg.grid_at cs t 0"
      "begin_idx t = 0" "end_idx t = num_points cs"
    using cfg.grid_init_answers[OF good, of None 0 "num_points cs - 1"] num_points_pos[OF assms(1)]
    by (auto simp: cfg.grid_at_def)
  then obtain cs1 where cs1: "grid_init config_ops None cs = (cs1, Inr t)" "space_good cs1" "clear_cache cs1 = clear_cache cs"
    by (auto simp: answers_def)
  have at: "cfg.grid_at (clear_cache cs1) t 0" using t(2) cs1(3) by (simp add: cfg.grid_at_def)
  have "length (visited t) = 0" by (rule cfg.grid_at_visited[OF at])
  then have "cfg.grid_good (cs1, t)" "cfg.grid_rest (cs1, t) = map (config_at (clear_cache cs))
      (filter (valid_at (clear_cache cs)) [0..num_points cs - 1])"
    using at t(3,4) cs1(2) by (simp_all only: cfg.grid_good_def cfg.grid_rest_def fst_conv snd_conv drop0 cs1(3) list.size(3) simp_thms)
  then show ?thesis using cs1(1) by simp
qed

text \<open>C20: tuning with the grid search over the whole space, enough trials, no earlier stop and a
  measurement that depends on the configuration only: \<^verbatim>\<open>tune\<close> ends, the monitor has the speeds of
  all valid configurations in order, and the kept configuration is a fastest valid one.\<close>

theorem grid_tuning_optimal:
  assumes "proper cs" "coherent cs" "0 < n_parallel" "n_trial < fuel"
    and "length (filter (valid_at cs) [0..num_points cs - 1]) \<le> n_trial"
    and "length (filter (valid_at cs) [0..num_points cs - 1]) \<le> early_or_default early"
  shows "\<exists>cs1 t g r. grid_init config_ops None cs = (cs1, Inr t) \<and>
     tune (grid_tuner_ops config_ops) (\<lambda>i. map perf) fl n_parallel n_trial early [monitor_call fl] ''G'' fuel
       (tuning_start (cs1, t) \<lparr>mon_scores = []\<rparr>) = (g, Inr (Some r)) \<and>
     mon_scores (tg_obs g) = map (\<lambda>i. res_flops fl (perf (config_at cs i))) (filter (valid_at cs) [0..num_points cs - 1]) \<and>
     (\<forall>i. 0 \<le> i \<and> i < num_points cs \<and> valid_at cs i \<longrightarrow> res_flops fl (perf (config_at cs i)) \<le> tb_best_flops (tg_base g)) \<and>
     (0 < tb_best_flops (tg_base g) \<longrightarrow> (\<exists>i. 0 \<le> i \<and> i < num_points cs \<and> valid_at cs i \<and>
        tb_best_config (tg_base g) = Some (config_at cs i) \<and> res_flops fl (perf (config_at cs i)) = tb_best_flops (tg_base g)))"
proof -
  let ?L = "filter (valid_at cs) [0..num_points cs - 1]"
  let ?R = "map (config_at cs) ?L" and ?e = "early_or_default early"
  obtain cs1 t where cs1: "grid_init config_ops None cs = (cs1, Inr t)"
    and start: "cfg.grid_good (cs1, t)" "cfg.grid_rest (cs1, t) = ?R"
    using grid_start[OF assms(1,2)] by blast
  let ?g = "tuning_start (cs1, t) \<lparr>mon_scores = []\<rparr>"
  let ?P = "\<lambda>lg k. mon_scores k = map (res_flops fl \<circ> snd) lg"
  let ?b0 = "(tg_base ?g)\<lparr>tb_n_trial := Some n_trial, tb_early_stopping := Some ?e\<rparr>"
  have "\<exists>g lg x. tune (grid_tuner_ops config_ops) (\<lambda>i. map perf) fl n_parallel n_trial early [monitor_call fl] ''G'' fuel ?g =
      (g, Inr (Some (if fst (count_errors lg (0, [])) = length lg then Some (snd (count_errors lg (0, []))) else None))) \<and>
     \<not> tg_in_tuning g \<and> tg_i g = length lg \<and> tg_base g = (keep_best_all fl 0 lg ?b0)\<lparr>tb_ttl := x\<rparr> \<and>
     listed perf ?R lg (cfg.grid_rest (tg_tuner g)) \<and> ?P lg (tg_obs g) \<and> length lg \<le> n_trial \<and>
     (length lg = n_trial \<or> \<not> cfg.grid_rest (tg_tuner g) \<noteq> [] \<or> length lg \<ge> tb_best_iter (keep_best_all fl 0 lg ?b0) + ?e)"
  proof (rule grid_tn.tune_runs[where J = "listed perf ?R" and P = ?P])
    show "listed perf ?R (lg @ zip cs (map perf cs)) w''"
      if "listed perf ?R lg w" "w \<noteq> []" "n = min n_parallel (n_trial - length lg)" "0 < n" "cs = take n w \<and> w' = drop n w" "w' = w''"
      for lg w n cs w' w''
      using listed_step[OF that(1), of n] that(5,6) by simp
    show "?P (lg @ zip cs rs) (fold (\<lambda>cb. cb b cs rs) [monitor_call fl] k)"
      if "?P lg k" "length rs = length cs" for lg k b cs rs
      using that(1) by (simp add: monitor_call_def split_def)
  qed (use start assms(3,4) format_G in \<open>simp_all add: tuning_start_def listed_def\<close>)
  then obtain g lg x r where run: "tune (grid_tuner_ops config_ops) (\<lambda>i. map perf) fl n_parallel n_trial early [monitor_call fl] ''G'' fuel ?g =
      (g, Inr (Some r))" "tg_base g = (keep_best_all fl 0 lg ?b0)\<lparr>tb_ttl := x\<rparr>"
     "listed perf ?R lg (cfg.grid_rest (tg_tuner g))" "?P lg (tg_obs g)"
     "length lg = n_trial \<or> cfg.grid_rest (tg_tuner g) = [] \<or> length lg \<ge> tb_best_iter (keep_best_all fl 0 lg ?b0) + ?e"
    by blast
  have "length ?R \<le> length lg" using run(3,5) assms(5,6) by (auto simp: listed_def)
  then have lg: "lg = map (\<lambda>i. (config_at cs i, perf (config_at cs i))) ?L"
    using run(3) by (simp add: listed_def)
  have best: "best_of_log fl lg (tg_base g)" and nonneg: "0 \<le> tb_best_flops (tg_base g)"
    using keep_best_scan[of ?b0 fl lg] by (simp_all add: run(2) tuning_start_def tuner_base_init_def)
  have 1: "mon_scores (tg_obs g) = map (\<lambda>i. res_flops fl (perf (config_at cs i))) ?L" using run(4) unfolding lg by simp
  have mem: "(config_at cs i, perf (config_at cs i)) \<in> set lg" if "0 \<le> i" "i < num_points cs" "valid_at cs i" for i
    unfolding lg using that by auto
  have 2: "res_flops fl (perf (config_at cs i)) \<le> tb_best_flops (tg_base g)"
    if "0 \<le> i" "i < num_points cs" "valid_at cs i" for i
    using best mem[OF that] unfolding best_of_log_def by fastforce
  have 3: "\<exists>i. 0 \<le> i \<and> i < num_points cs \<and> valid_at cs i \<and> tb_best_config (tg_base g) = Some (config_at cs i) \<and>
      res_flops fl (perf (config_at cs i)) = tb_best_flops (tg_base g)" if pos: "0 < tb_best_flops (tg_base g)"
  proof -
    obtain k where k: "k < length lg" "tb_best_config (tg_base g) = Some (fst (lg ! k))"
      "tb_best_flops (tg_base g) = res_flops fl (snd (lg ! k))"
      using best pos unfolding best_of_log_def by (auto split: if_splits)
    from k(1) have "k < length ?L" unfolding lg by simp
    then have "?L ! k \<in> set ?L" by (rule nth_mem)
    with k show ?thesis unfolding lg by (intro exI[of _ "?L ! k"]) simp
  qed
  show ?thesis using cs1 run(1) 1 2 3 by blast
qed

definition demo_perf :: "nat config_entity \<Rightarrow> mres" where
  "demo_perf c = (if ce_index c = 2 then MOk [1, 3] else MErr ''tb'' ''err'')"

theorem grid_tuning_optimal_witness:
  "\<exists>cs1 t g r. grid_init config_ops None demo_space = (cs1, Inr t) \<and>
     tune (grid_tuner_ops config_ops) (\<lambda>i. map demo_perf) 8 2 5 None [monitor_call 8] ''G'' 6
       (tuning_start (cs1, t) \<lparr>mon_scores = []\<rparr>) = (g, Inr (Some r)) \<and>
     mon_scores (tg_obs g) = [0, 4, 0] \<and> 4 \<le> tb_best_flops (tg_base g)"
proof -
  have L: "filter (valid_at demo_space) [0..num_points demo_space - 1] = [0, 2, 4]"
    by (simp add: demo_fields demo_valid upto_rec1)
  have fl: "res_flops 8 (demo_perf (config_at demo_space i)) = (if i = 2 then 4 else 0)" for i
    by (simp add: demo_perf_def config_at_def res_flops_def)
  have hyps: "0 < (2::nat)" "5 < (6::nat)" "length [0, 2, 4 :: int] \<le> 5" "length [0, 2, 4 :: int] \<le> early_or_default None"
    by (simp_all add: early_or_default_def)
  obtain cs1 t g r where *: "grid_init config_ops None demo_space = (cs1, Inr t)"
    "tune (grid_tuner_ops config_ops) (\<lambda>i. map demo_perf) 8 2 5 None [monitor_call 8] ''G'' 6
       (tuning_start (cs1, t) \<lparr>mon_scores = []\<rparr>) = (g, Inr (Some r))"
    "mon_scores (tg_obs g) = map (\<lambda>i. if i = 2 then 4 else 0) [0, 2, 4 :: int]"
    "\<forall>i. 0 \<le> i \<and> i < num_points demo_space \<and> valid_at demo_space i \<longrightarrow> (if i = 2 then 4 else 0) \<le> tb_best_flops (tg_base g)"
    using grid_tuning_optimal[OF demo_proper demo_coherent hyps(1,2), unfolded L, OF hyps(3,4), of demo_perf 8, unfolded fl]
    by blast
  have "4 \<le> tb_best_flops (tg_base g)" using *(4)[rule_format, of 2] by (simp add: demo_fields demo_valid)
  with *(1-3) show ?thesis by auto
qed

lemma grid_offered:
  assumes "offered (\<lambda>w. w \<noteq> []) (\<lambda>w n cs w'. cs = take n w \<and> w' = drop n w) (=) n_parallel n_trial R css w"
  shows "R = concat css @ w"
  using assms by (induction rule: offered.induct) auto

lemma measured_by_perf: "measured_log (\<lambda>i. map perf) lg css = lg @ map (\<lambda>c. (c, perf c)) (concat css)"
  by (induction css arbitrary: lg) (simp_all add: zip_map2 zip_same_conv_map)

theorem tune_terminates_witness:
  "\<exists>cs1 t g. grid_init config_ops None demo_space = (cs1, Inr t) \<and>
     tune (grid_tuner_ops config_ops) (\<lambda>i. map demo_perf) 8 2 5 None
       [log_to_file (\<lambda>c r. if failed r then ''bad'' else ''good'')] ''G'' 6 (tuning_start (cs1, t) [])
       = (g, Inr (Some None)) \<and>
     tg_i g = 3 \<and> tb_best_iter (tg_base g) = 1 \<and> tb_best_config (tg_base g) = Some (config_at demo_space 2) \<and>
     tb_best_flops (tg_base g) = 4 \<and>
     tg_obs g = ''bad'' @ [CHR 0x0A] @ ''good'' @ [CHR 0x0A] @ ''bad'' @ [CHR 0x0A]"
proof -
  let ?enc = "\<lambda>c r. if failed r then ''bad'' else ''good''" and ?R = "map (config_at demo_space) [0, 2, 4]"
  have L: "filter (valid_at demo_space) [0..num_points demo_space - 1] = [0, 2, 4]"
    by (simp add: demo_fields demo_valid upto_rec1)
  obtain cs1 t where start: "grid_init config_ops None demo_space = (cs1, Inr t)" "cfg.grid_good (cs1, t)"
    "cfg.grid_rest (cs1, t) = ?R"
    using grid_start[OF demo_proper demo_coherent] unfolding L by blast
  let ?g = "tuning_start (cs1, t) [] :: (nat config_space \<times> idx_tuner, nat config_entity, string) tuning"
  have g: "cfg.grid_good (tg_tuner ?g)" "cfg.grid_rest (tg_tuner ?g) = ?R" "tb_best_flops (tg_base ?g) = 0"
    "tb_best_config (tg_base ?g) = None" "tb_best_iter (tg_base ?g) = 0" "tg_obs ?g = []"
    using start(2,3) by (simp_all add: tuning_start_def tuner_base_init_def)
  have hyps: "length (map demo_perf cs) = length cs" "0 < (2::nat)" "5 < (6::nat)" for cs by simp_all
  obtain g' css lg where run: "lg = measured_log (\<lambda>i. map demo_perf) [] css"
    "offered (\<lambda>w. w \<noteq> []) (\<lambda>w n cs w'. cs = take n w \<and> w' = drop n w) (=) 2 5 ?R css (cfg.grid_rest (tg_tuner g'))"
    "tune (grid_tuner_ops config_ops) (\<lambda>i. map demo_perf) 8 2 5 None [log_to_file ?enc] ''G'' 6 ?g
      = (g', Inr (Some (if \<forall>p \<in> set lg. failed (snd p) then Some (map (error_text \<circ> snd) lg) else None)))"
    "tg_obs g' = [] @ concat (map (\<lambda>(inp, result). ?enc inp result @ [CHR 0x0A]) lg)" "tg_i g' = length lg"
    "length lg \<le> 5" "best_of_log 8 lg (tg_base g')"
    "length lg = 5 \<or> \<not> cfg.grid_rest (tg_tuner g') \<noteq> [] \<or> length lg \<ge> tb_best_iter (tg_base g') + early_or_default None"
    using tune_terminates[OF grid_tn.batch_tuner_axioms g(1) hyps(1) hyps(2) format_G g(3-5) hyps(3),
        where enc_row = ?enc and fl = 8 and early = None, unfolded g(2,6)]
    by blast
  have R: "?R = concat css @ cfg.grid_rest (tg_tuner g')" by (rule grid_offered[OF run(2)])
  then have "length lg + length (cfg.grid_rest (tg_tuner g')) = 3"
    unfolding run(1) measured_by_perf by (metis append_Nil length_append length_map list.size(3) numeral_3_eq_3 length_Cons)
  with run(8) have "cfg.grid_rest (tg_tuner g') = []" by (auto simp: early_or_default_def)
  with R have "concat css = ?R" by simp
  then have lg: "lg = map (\<lambda>i. (config_at demo_space i, if i = 2 then MOk [1, 3] else MErr ''tb'' ''err'')) [0, 2, 4]"
    unfolding run(1) measured_by_perf by (simp add: demo_perf_def config_at_def)
  from run(7) have "tb_best_iter (tg_base g') = 1 \<and> tb_best_config (tg_base g') = Some (config_at demo_space 2) \<and> tb_best_flops (tg_base g') = 4"
    unfolding lg best_of_log_def by (auto simp: res_flops_def less_Suc_eq nth_Cons' split: if_splits)
  with run(3-5) start(1) lg show ?thesis by (intro exI[of _ cs1] exI[of _ t] exI[of _ g']) simp
qed

end
