(* ===== verification/TLM_Data.thy ===== *)
theory TLM_Data
  imports Prelude "HOL-Library.Char_ord" "HOL-Library.List_Lexorder" "HOL-Library.Multiset"
begin

text \<open>
  The data preparation of the language model, \<^verbatim>\<open>gen/make_dataset_utils.py\<close> and
  \<^verbatim>\<open>gen/make_dataset.py\<close>: the token sequence of a JSON value, the training records made of a
  measured or unmeasured schedule, the best record per sketch, the sampled sketches, and the
  selection of the input files. A line of a record file is the record \<open>tlm_line\<close> with the layout
  the auto-scheduler writes; \<^verbatim>\<open>str\<close> of a float, \<^verbatim>\<open>json.loads\<close> of a workload key, the compute DAG
  and the random choices are arguments.
\<close>

section \<open>Tokens of a JSON value\<close>

datatype json =
    JObject "(string \<times> json) list"
  | JArray "json list"
  | JString string
  | JInt int
  | JFloat rat
  | JBool bool
  | JNull

fun show_nat :: "nat \<Rightarrow> string" where
  "show_nat n = (if n < 10 then [char_of (48 + n)] else show_nat (n div 10) @ [char_of (48 + n mod 10)])"

declare show_nat.simps [simp del]

definition show_int :: "int \<Rightarrow> string" where
  "show_int i = (if i < 0 then CHR 0x2D # show_nat (nat (- i)) else show_nat (nat i))"

definition show_bool :: "bool \<Rightarrow> string" where
  "show_bool b = (if b then ''True'' else ''False'')"

definition sorted_items :: "(string \<times> 'a) list \<Rightarrow> (string \<times> 'a) list" where
  "sorted_items kvs = sort_key fst kvs"

lemma set_sorted_items [simp]: "set (sorted_items kvs) = set kvs"
  by (simp add: sorted_items_def)

lemma mapE_cong [fundef_cong]:
  "xs = ys \<Longrightarrow> (\<And>x. x \<in> set ys \<Longrightarrow> f x = g x) \<Longrightarrow> mapE f xs = mapE g ys"
proof (induction ys arbitrary: xs)
  case (Cons y ys)
  then have "mapE f ys = mapE g ys" by simp
  with Cons.prems show ?case by simp
qed simp

lemma mapE_map: "mapE f (map g xs) = mapE (f \<circ> g) xs"
  by (induction xs) simp_all

lemma json_size_object: "(k, v) \<in> set kvs \<Longrightarrow> size v < size (JObject kvs)"
  by (induction kvs) auto

lemma json_size_array: "v \<in> set vs \<Longrightarrow> size v < size (JArray vs)"
  by (induction vs) auto

function json_dfs_without_bracket :: "(rat \<Rightarrow> string) \<Rightarrow> json \<Rightarrow> string list py" where
  "json_dfs_without_bracket fs (JObject kvs) =
     bindE (mapE (\<lambda>kv. bindE (json_dfs_without_bracket fs (snd kv)) (\<lambda>ts. Inr (fst kv # ts))) (sorted_items kvs))
       (\<lambda>tss. Inr (concat tss))"
| "json_dfs_without_bracket fs (JArray vs) =
     bindE (mapE (json_dfs_without_bracket fs) vs) (\<lambda>tss. Inr (concat tss))"
| "json_dfs_without_bracket fs (JString s) = Inr [s]"
| "json_dfs_without_bracket fs (JInt i) = Inr [show_int i]"
| "json_dfs_without_bracket fs (JFloat x) = Inr [fs x]"
| "json_dfs_without_bracket fs (JBool b) = Inr [show_bool b]"
| "json_dfs_without_bracket fs JNull = Inl AssertionError"
  by pat_completeness auto
termination
  by (relation "measure (\<lambda>(fs, j). size j)") (force dest: json_size_object json_size_array)+

fun commas :: "string list list \<Rightarrow> string list" where
  "commas [] = []"
| "commas (t # ts) = t @ concat (map (\<lambda>u. '','' # u) ts)"

function json_dfs_with_bracket :: "(rat \<Rightarrow> string) \<Rightarrow> json \<Rightarrow> string list py" where
  "json_dfs_with_bracket fs (JObject kvs) =
     bindE (mapE (\<lambda>kv. bindE (json_dfs_with_bracket fs (snd kv)) (\<lambda>ts. Inr (fst kv # ts))) (sorted_items kvs))
       (\<lambda>tss. Inr ([''{''] @ commas tss @ [''}'']))"
| "json_dfs_with_bracket fs (JArray vs) =
     bindE (mapE (json_dfs_with_bracket fs) vs) (\<lambda>tss. Inr ([''[''] @ commas tss @ ['']'']))"
| "json_dfs_with_bracket fs (JString s) = Inr [s]"
| "json_dfs_with_bracket fs (JInt i) = Inr [show_int i]"
| "json_dfs_with_bracket fs (JFloat x) = Inr [fs x]"
| "json_dfs_with_bracket fs (JBool b) = Inr [show_bool b]"
| "json_dfs_with_bracket fs JNull = Inl AssertionError"
  by pat_completeness auto
termination
  by (relation "measure (\<lambda>(fs, j). size j)") (force dest: json_size_object json_size_array)+

text \<open>\<^verbatim>\<open>" ".join\<close>.\<close>

fun join_spaces :: "string list \<Rightarrow> string" where
  "join_spaces [] = []"
| "join_spaces [t] = t"
| "join_spaces (t # u # ts) = t @ '' '' @ join_spaces (u # ts)"

text \<open>\<^verbatim>\<open>json_to_token\<close> on the texts of the records.\<close>

definition json_to_token :: "(rat \<Rightarrow> string) \<Rightarrow> json list \<Rightarrow> string list py" where
  "json_to_token fs texts = mapE (\<lambda>t. bindE (json_dfs_without_bracket fs t) (\<lambda>ts. Inr (join_spaces ts))) texts"

section \<open>Records\<close>

text \<open>A schedule step \<^verbatim>\<open>[tag, arg, ...]\<close>; \<^verbatim>\<open>step[4]\<close> is the fourth argument.\<close>

record sched_step =
  stp_tag :: string
  stp_args :: "json list"

record tlm_line =
  ln_workload_key :: string
  ln_task_rest :: "json list"
  ln_stages :: json
  ln_steps :: "sched_step list"
  ln_costs :: "rat list"
  ln_text :: string

text \<open>The inner loop that overwrites the sizes of a split step.\<close>

definition mask_step :: "sched_step \<Rightarrow> sched_step py" where
  "mask_step st =
     (if stp_tag st = ''SP'' then
        bindE (py_nth (stp_args st) 3) (\<lambda>a.
          case a of
            JArray xs \<Rightarrow> Inr (st\<lparr>stp_args := (stp_args st)[3 := JArray (map (\<lambda>_. JInt 1) xs)]\<rparr>)
          | _ \<Rightarrow> Inl TypeError)
      else Inr st)"

definition step_json :: "sched_step \<Rightarrow> json" where
  "step_json st = JArray (JString (stp_tag st) # stp_args st)"

definition input_json :: "json \<Rightarrow> tlm_line \<Rightarrow> sched_step list \<Rightarrow> json" where
  "input_json wk rc steps =
     JArray [JArray (wk # ln_task_rest rc), JArray [ln_stages rc, JArray (map step_json steps)]]"

definition no_latency :: rat where
  "no_latency = 10 ^ 10"

definition latency_of :: "rat list \<Rightarrow> rat py" where
  "latency_of costs =
     (if costs = [0] then Inr no_latency
      else if costs = [] then Inl ZeroDivisionError
      else Inr (sum_list costs / of_nat (length costs)))"

definition py_div :: "rat \<Rightarrow> rat \<Rightarrow> rat py" where
  "py_div x y = (if y = 0 then Inl ZeroDivisionError else Inr (x / y))"

record tlm_data =
  da_latency :: rat
  da_text :: json
  da_labels :: rat
  da_line :: string

section \<open>All records\<close>

definition gen_entry :: "(string \<Rightarrow> json py) \<Rightarrow> string \<Rightarrow> tlm_line \<Rightarrow> (rat \<times> json) py" where
  "gen_entry loads dag rc =
     bindE (loads (ln_workload_key rc)) (\<lambda>wk.
     bindE (mapE mask_step (ln_steps rc)) (\<lambda>steps.
     bindE (latency_of (ln_costs rc)) (\<lambda>lat.
       Inr (lat, JArray [JString dag, input_json wk rc steps]))))"

definition for_gen :: "(string \<Rightarrow> json py) \<Rightarrow> string \<Rightarrow> tlm_line list \<Rightarrow> tlm_data list py" where
  "for_gen loads dag lines =
     bindE (mapE (gen_entry loads dag) lines) (\<lambda>es.
     let latency_min = foldl min no_latency (map fst es) in
       mapE (\<lambda>(lat, text). bindE (py_div latency_min lat) (\<lambda>l.
         Inr \<lparr>da_latency = lat, da_text = text, da_labels = l, da_line = []\<rparr>)) es)"

section \<open>The best record per sketch\<close>

text \<open>The masked steps up to the last \<^verbatim>\<open>PPT\<close> step: the key of the dictionary.\<close>

fun ppt_prefix :: "sched_step list \<Rightarrow> sched_step list option" where
  "ppt_prefix [] = None"
| "ppt_prefix (st # sts) =
     (case ppt_prefix sts of
        Some p \<Rightarrow> Some (st # p)
      | None \<Rightarrow> if stp_tag st = ''PPT'' then Some [st] else None)"

type_synonym best_dict = "(sched_step list, rat \<times> tlm_data) dict"

definition best_step ::
    "(string \<Rightarrow> json py) \<Rightarrow> string \<Rightarrow> tlm_line \<Rightarrow> rat \<times> best_dict \<Rightarrow> (rat \<times> best_dict) py" where
  "best_step loads dag rc acc =
     bindE (loads (ln_workload_key rc)) (\<lambda>wk.
     bindE (mapE mask_step (ln_steps rc)) (\<lambda>steps.
     bindE (latency_of (ln_costs rc)) (\<lambda>lat.
       if lat \<ge> no_latency then Inr acc
       else
         case ppt_prefix steps of
           None \<Rightarrow> Inl AssertionError
         | Some p \<Rightarrow>
             let data = \<lparr>da_latency = lat, da_text = JArray [JString dag, input_json wk rc steps],
                         da_labels = 0, da_line = ln_text rc\<rparr>;
                 d = (case map_of (snd acc) p of
                        Some (l, x) \<Rightarrow> if l > lat then AList.update p (lat, data) (snd acc) else snd acc
                      | None \<Rightarrow> AList.update p (lat, data) (snd acc)) in
             Inr (min (fst acc) lat, d))))"

definition for_gen_best ::
    "(string \<Rightarrow> json py) \<Rightarrow> string \<Rightarrow> string \<Rightarrow> tlm_line list \<Rightarrow> tlm_data list py" where
  "for_gen_best loads dag platform lines =
     bindE (foldE (best_step loads dag) lines (no_latency, [])) (\<lambda>(latency_min, d).
     bindE (mapE (\<lambda>x. bindE (py_div latency_min (da_latency x)) (\<lambda>l. Inr (x\<lparr>da_labels := l\<rparr>)))
              (map (snd \<circ> snd) d)) (\<lambda>xs.
     let xs = sort_key (\<lambda>x. - da_labels x) xs in
       if platform = ''i7'' then Inr (take 1 xs)
       else if platform = ''v100'' then Inr xs
       else Inl AssertionError))"

section \<open>Sampled sketches\<close>

text \<open>The steps up to the first \<^verbatim>\<open>PPT\<close>, masked on the way.\<close>

fun sketch_prefix :: "sched_step list \<Rightarrow> sched_step list py" where
  "sketch_prefix [] = Inl AssertionError"
| "sketch_prefix (st # sts) =
     bindE (mask_step st) (\<lambda>st'.
       if stp_tag st' = ''PPT'' then Inr [st']
       else bindE (sketch_prefix sts) (\<lambda>ss. Inr (st' # ss)))"

type_synonym sketch_dict = "(string \<times> json list \<times> json \<times> sched_step list, rat \<times> tlm_line) dict"

definition sketch_step :: "tlm_line \<Rightarrow> sketch_dict \<Rightarrow> sketch_dict py" where
  "sketch_step rc d =
     bindE (sketch_prefix (ln_steps rc)) (\<lambda>steps.
     bindE (latency_of (ln_costs rc)) (\<lambda>lat.
     let rc' = rc\<lparr>ln_steps := steps\<rparr>;
         k = (ln_workload_key rc, ln_task_rest rc, ln_stages rc, steps) in
       case map_of d k of
         None \<Rightarrow> Inr (AList.update k (lat, rc') d)
       | Some (l, x) \<Rightarrow> Inr (AList.update k (min l lat, x) d)))"

text \<open>
  \<open>pick\<close> is \<^verbatim>\<open>np.random.choice\<close> with the probabilities \<^verbatim>\<open>softmax\<close> gives for the relative speeds: it
  returns \<open>keep_cnt\<close> positions.
\<close>

definition for_gen_eval_sketch :: "(rat list \<Rightarrow> nat \<Rightarrow> nat list) \<Rightarrow> nat \<Rightarrow> tlm_line list \<Rightarrow> tlm_line list py" where
  "for_gen_eval_sketch pick keep_cnt lines =
     bindE (foldE sketch_step lines []) (\<lambda>d.
       if d = [] then Inl ValueError
       else
         let lats = map (fst \<circ> snd) d; latency_min = foldl min (hd lats) (tl lats) in
         bindE (mapE (py_div latency_min) lats) (\<lambda>speeds.
           mapE (\<lambda>i. py_nth (map (snd \<circ> snd) d) (int i)) (pick speeds keep_cnt)))"

section \<open>Files\<close>

text \<open>\<^verbatim>\<open>os.path.basename\<close>.\<close>

definition basename :: "string \<Rightarrow> string" where
  "basename p = rev (takeWhile (\<lambda>c. c \<noteq> CHR 0x2F) (rev p))"

text \<open>
  The two nested loops that drop the held-out files: \<^verbatim>\<open>files.remove(file)\<close> while \<^verbatim>\<open>files\<close> is iterated,
  so that the position moves on although the list has become shorter.
\<close>

function remove_loop :: "string \<Rightarrow> nat \<Rightarrow> string list \<Rightarrow> string list" where
  "remove_loop out i files =
     (if i < length files then
        remove_loop out (Suc i) (if basename out = basename (files ! i) then remove1 (files ! i) files else files)
      else files)"
  by pat_completeness auto
termination
  by (relation "measure (\<lambda>(out, i, files). length files - i)") (auto simp: length_remove1)

declare remove_loop.simps [simp del]

definition hold_out :: "string list \<Rightarrow> string list \<Rightarrow> string list" where
  "hold_out outs files = fold (\<lambda>out. remove_loop out 0) outs files"

text \<open>The same choice with a set, and the quarter of the files of a round.\<close>

definition only_held_out :: "string list \<Rightarrow> string list \<Rightarrow> string list" where
  "only_held_out outs files = filter (\<lambda>f. basename f \<in> set (map basename outs)) files"

definition not_held_out :: "string list \<Rightarrow> string list \<Rightarrow> string list" where
  "not_held_out outs files = filter (\<lambda>f. basename f \<notin> set (map basename outs)) files"

definition quarter :: "nat \<Rightarrow> string list \<Rightarrow> string list" where
  "quarter idx files = map snd (filter (\<lambda>(i, f). i mod 4 = idx mod 4) (enumerate 0 files))"

datatype for_type = FOR_GEN_TOKENIZER | FOR_LATENCY | FOR_GEN | FOR_GEN_BEST | FOR_GEN_EVAL_SKETCH
  | FOR_GEN_EVAL_SKETCH_ONLY_BERT | FOR_GEN_EVALTUNING_SKETCH | FOR_GEN_TRAIN_SKETCH | FOR_GEN_BEST_ALL

fun for_clm_or_mlm :: "for_type \<Rightarrow> string" where
  "for_clm_or_mlm FOR_LATENCY = ''mlm''"
| "for_clm_or_mlm ft = ''clm''"

text \<open>
  The files of a run: \<open>globbed\<close> are the files of the data set in sorted order, \<open>sample\<close> stands for
  \<^verbatim>\<open>random.sample\<close> with \<^verbatim>\<open>file_cnt\<close> if given, \<open>potential\<close> for \<^verbatim>\<open>find_potential_files\<close> if a schedule
  file is given.
\<close>

fun select_files ::
    "for_type \<Rightarrow> (string list \<Rightarrow> string list) \<Rightarrow> (string list \<Rightarrow> string list) \<Rightarrow> nat option \<Rightarrow>
     string list \<Rightarrow> string list \<Rightarrow> string list \<Rightarrow> string list py" where
  "select_files FOR_GEN_TOKENIZER sample potential idx outs berts globbed = Inr (sample globbed)"
| "select_files FOR_GEN sample potential idx outs berts globbed = Inr (sample (hold_out outs globbed))"
| "select_files FOR_LATENCY sample potential idx outs berts globbed = Inr (sample (hold_out outs globbed))"
| "select_files FOR_GEN_BEST sample potential idx outs berts globbed = Inr (sample (hold_out outs globbed))"
| "select_files FOR_GEN_BEST_ALL sample potential idx outs berts globbed = Inr globbed"
| "select_files FOR_GEN_EVAL_SKETCH sample potential idx outs berts globbed = Inr (potential (only_held_out outs globbed))"
| "select_files FOR_GEN_EVALTUNING_SKETCH sample potential idx outs berts globbed =
     Inr (potential (only_held_out outs globbed))"
| "select_files FOR_GEN_EVAL_SKETCH_ONLY_BERT sample potential idx outs berts globbed =
     Inr (potential (only_held_out berts globbed))"
| "select_files FOR_GEN_TRAIN_SKETCH sample potential idx outs berts globbed =
     (case idx of
        None \<Rightarrow> (if not_held_out outs globbed = [] then Inr [] else Inl TypeError)
      | Some i \<Rightarrow> Inr (quarter i (not_held_out outs globbed)))"

section \<open>Prompts\<close>

text \<open>The prompts for new states of a task: \<open>states\<close> are the steps of the states, \<open>inp\<close> the given input.\<close>

definition input_to_tokens ::
    "(rat \<Rightarrow> string) \<Rightarrow> (string \<Rightarrow> json py) \<Rightarrow> string \<Rightarrow> tlm_line \<Rightarrow> sched_step list list \<Rightarrow> string list py" where
  "input_to_tokens fs loads dag inp states =
     bindE (loads (ln_workload_key inp)) (\<lambda>wk.
     bindE (mapE (\<lambda>steps. bindE (mapE mask_step steps) (\<lambda>steps'.
              Inr (JArray [JString dag, input_json wk inp steps']))) states)
       (json_to_token fs))"

section \<open>From files to the merged file\<close>

text \<open>
  A line of a part file: a record whose text has become tokens, or a cut record. The fields of
  \<open>gen_env\<close> are the code outside: \<^verbatim>\<open>str\<close> of a float, \<^verbatim>\<open>json.loads\<close>, the compute DAG of a line, the shuffle
  of \<^verbatim>\<open>for_gen_best\<close>, the weighted choice and the platform that is registered.
\<close>

datatype part_line = TokenLine rat rat string string | SketchLine tlm_line

record gen_env =
  ge_float :: "rat \<Rightarrow> string"
  ge_loads :: "string \<Rightarrow> json py"
  ge_dag :: "tlm_line \<Rightarrow> string py"
  ge_shuffle :: "tlm_line list \<Rightarrow> tlm_line list"
  ge_pick :: "rat list \<Rightarrow> nat \<Rightarrow> nat list"
  ge_platform :: string

definition tokenized :: "gen_env \<Rightarrow> tlm_data list \<Rightarrow> part_line list py" where
  "tokenized env ds =
     bindE (json_to_token (ge_float env) (map da_text ds)) (\<lambda>ts.
       Inr (map2 (\<lambda>x t. TokenLine (da_latency x) (da_labels x) t (da_line x)) ds ts))"

definition process_file :: "gen_env \<Rightarrow> for_type \<Rightarrow> nat \<Rightarrow> tlm_line list \<Rightarrow> part_line list py" where
  "process_file env ft keep_cnt lines =
     bindE (py_nth lines 0) (\<lambda>first_line.
     bindE (ge_dag env first_line) (\<lambda>dag.
       if ft \<in> {FOR_GEN_TOKENIZER, FOR_GEN, FOR_LATENCY} then
         bindE (for_gen (ge_loads env) dag lines) (tokenized env)
       else if ft \<in> {FOR_GEN_BEST, FOR_GEN_BEST_ALL} then
         bindE (for_gen_best (ge_loads env) dag (ge_platform env) (ge_shuffle env lines)) (tokenized env)
       else
         bindE (for_gen_eval_sketch (ge_pick env) keep_cnt lines) (\<lambda>ls. Inr (map SketchLine ls))))"

text \<open>\<^verbatim>\<open>cat *_part\<close>: the shell sorts the names \<^verbatim>\<open>0_part\<close>, \<^verbatim>\<open>1_part\<close>, \<^verbatim>\<open>10_part\<close>, ... by its collation.\<close>

definition part_names :: "nat \<Rightarrow> string list" where
  "part_names n = map (\<lambda>i. show_nat i @ ''_part'') [0..<n]"

definition token_files_and_merge ::
    "gen_env \<Rightarrow> (string \<Rightarrow> 'k::linorder) \<Rightarrow> (string \<Rightarrow> tlm_line list) \<Rightarrow> for_type \<Rightarrow> nat \<Rightarrow> string list \<Rightarrow> part_line list py" where
  "token_files_and_merge env collate readlines ft keep_cnt files =
     bindE (mapE (\<lambda>f. process_file env ft keep_cnt (readlines f)) files) (\<lambda>parts.
       Inr (concat (map snd (sort_key (collate \<circ> fst) (zip (part_names (length files)) parts)))))"

text \<open>
  The whole script: the selected files are merged, and the merged file is used to train the tokenizer,
  becomes a data set of the given kind and percentage of validation data, or is the result itself.
\<close>

datatype dataset_use = TrainTokenizer | MakeDataset string nat | MergedOnly

fun dataset_use_of :: "for_type \<Rightarrow> dataset_use" where
  "dataset_use_of FOR_GEN_TOKENIZER = TrainTokenizer"
| "dataset_use_of FOR_GEN = MakeDataset (for_clm_or_mlm FOR_GEN) 5"
| "dataset_use_of FOR_LATENCY = MakeDataset (for_clm_or_mlm FOR_LATENCY) 5"
| "dataset_use_of FOR_GEN_BEST = MakeDataset (for_clm_or_mlm FOR_GEN_BEST) 0"
| "dataset_use_of FOR_GEN_BEST_ALL = MakeDataset (for_clm_or_mlm FOR_GEN_BEST_ALL) 0"
| "dataset_use_of ft = MergedOnly"

definition make_dataset_main ::
    "gen_env \<Rightarrow> (string \<Rightarrow> 'k::linorder) \<Rightarrow> (string \<Rightarrow> tlm_line list) \<Rightarrow> for_type \<Rightarrow> (string list \<Rightarrow> string list) \<Rightarrow>
     (string list \<Rightarrow> string list) \<Rightarrow> nat option \<Rightarrow> nat \<Rightarrow> string list \<Rightarrow> string list \<Rightarrow> string list \<Rightarrow> (part_line list \<times> dataset_use) py" where
  "make_dataset_main env collate readlines ft sample potential idx keep_cnt outs berts globbed =
     bindE (select_files ft sample potential idx outs berts (sort globbed)) (\<lambda>files.
     bindE (token_files_and_merge env collate readlines ft keep_cnt files) (\<lambda>merged.
       Inr (merged, dataset_use_of ft)))"

lemma mset_sorted_parts:
  assumes "length ns = length parts"
  shows "mset (concat (map snd (sort_key g (zip ns parts)))) = mset (concat parts)"
proof -
  have "mset (map snd (sort_key g (zip ns parts))) = mset (map snd (zip ns parts))" by (simp only: mset_map mset_sort)
  also have "\<dots> = mset parts" using assms by simp
  finally show ?thesis by (metis mset_concat mset_map sum_mset_sum_list)
qed

lemma length_part_names [simp]: "length (part_names n) = n"
  by (simp add: part_names_def)

lemma merge_keeps_all:
  assumes "mapE (\<lambda>f. process_file env ft keep_cnt (readlines f)) files = Inr parts"
    "token_files_and_merge env collate readlines ft keep_cnt files = Inr merged"
  shows "mset merged = mset (concat parts)"
  using assms mapE_length[OF assms(1)] by (auto simp: token_files_and_merge_def mset_sorted_parts)

section \<open>Values that have tokens\<close>

fun no_null :: "json \<Rightarrow> bool" where
  "no_null (JObject kvs) = (\<forall>kv \<in> set kvs. no_null (snd kv))"
| "no_null (JArray vs) = (\<forall>v \<in> set vs. no_null v)"
| "no_null JNull = False"
| "no_null _ = True"

lemma mapE_only_error:
  assumes "\<And>x. x \<in> set xs \<Longrightarrow> if P x then \<exists>y. f x = Inr y else f x = Inl e"
  shows "if \<forall>x \<in> set xs. P x then \<exists>ys. mapE f xs = Inr ys else mapE f xs = Inl e"
  using assms
proof (induction xs)
  case (Cons x xs)
  have x: "if P x then \<exists>y. f x = Inr y else f x = Inl e" by (rule Cons.prems) simp
  have xs: "if \<forall>x \<in> set xs. P x then \<exists>ys. mapE f xs = Inr ys else mapE f xs = Inl e"
    by (rule Cons.IH) (rule Cons.prems, simp)
  show ?case
  proof (cases "P x")
    case True
    with x obtain y where "f x = Inr y" by auto
    with True xs show ?thesis by (cases "\<forall>x \<in> set xs. P x") auto
  qed (use x in simp)
qed simp

lemma tokens_without_bracket:
  "if no_null j then \<exists>ts. json_dfs_without_bracket fs j = Inr ts else json_dfs_without_bracket fs j = Inl AssertionError"
proof (induction fs j rule: json_dfs_without_bracket.induct)
  case (1 fs kvs)
  show ?case
    using mapE_only_error[of "sorted_items kvs" "\<lambda>kv. no_null (snd kv)"
        "\<lambda>kv. bindE (json_dfs_without_bracket fs (snd kv)) (\<lambda>ts. Inr (fst kv # ts))" AssertionError] 1
    by (auto split: if_splits)
next
  case (2 fs vs)
  show ?case using mapE_only_error[of vs no_null "json_dfs_without_bracket fs" AssertionError] 2
    by (auto split: if_splits)
qed simp_all

lemma tokens_with_bracket:
  "if no_null j then \<exists>ts. json_dfs_with_bracket fs j = Inr ts else json_dfs_with_bracket fs j = Inl AssertionError"
proof (induction fs j rule: json_dfs_with_bracket.induct)
  case (1 fs kvs)
  show ?case
    using mapE_only_error[of "sorted_items kvs" "\<lambda>kv. no_null (snd kv)"
        "\<lambda>kv. bindE (json_dfs_with_bracket fs (snd kv)) (\<lambda>ts. Inr (fst kv # ts))" AssertionError] 1
    by (auto split: if_splits)
next
  case (2 fs vs)
  show ?case using mapE_only_error[of vs no_null "json_dfs_with_bracket fs" AssertionError] 2
    by (auto split: if_splits)
qed simp_all

text \<open>C30: the JSON values that have tokens are those without \<^verbatim>\<open>null\<close>, however deep; on every other one both
  traversals, and so \<^verbatim>\<open>json_to_token\<close> on a list that holds it, end with a failed assertion.\<close>

theorem json_tokens_type:
  "(if no_null j then (\<exists>ts. json_dfs_without_bracket fs j = Inr ts) \<and> (\<exists>ts. json_dfs_with_bracket fs j = Inr ts)
    else json_dfs_without_bracket fs j = Inl AssertionError \<and> json_dfs_with_bracket fs j = Inl AssertionError) \<and>
   (if list_all no_null js then \<exists>lines. json_to_token fs js = Inr lines \<and> length lines = length js
    else json_to_token fs js = Inl AssertionError)"
proof -
  have "if \<forall>j \<in> set js. no_null j then \<exists>ys. json_to_token fs js = Inr ys else json_to_token fs js = Inl AssertionError"
    unfolding json_to_token_def
  proof (rule mapE_only_error)
    fix j assume "j \<in> set js"
    show "if no_null j then \<exists>y. bindE (json_dfs_without_bracket fs j) (\<lambda>ts. Inr (join_spaces ts)) = Inr y
          else bindE (json_dfs_without_bracket fs j) (\<lambda>ts. Inr (join_spaces ts)) = Inl AssertionError"
      using tokens_without_bracket[of j fs] by auto
  qed
  moreover have "json_to_token fs js = Inr ys \<Longrightarrow> length ys = length js" for ys
    unfolding json_to_token_def by (rule mapE_length)
  ultimately have "if list_all no_null js then \<exists>lines. json_to_token fs js = Inr lines \<and> length lines = length js
    else json_to_token fs js = Inl AssertionError" unfolding list_all_iff by metis
  then show ?thesis using tokens_without_bracket[of j fs] tokens_with_bracket[of j fs] by simp
qed

section \<open>Labels\<close>

text \<open>A line the functions accept: the workload key parses, split steps have their sizes, and the costs
  are positive, or the single zero that marks a program that was not measured.\<close>

definition costs_ok :: "rat list \<Rightarrow> bool" where
  "costs_ok cs \<longleftrightarrow> cs = [0] \<or> cs \<noteq> [] \<and> (\<forall>c \<in> set cs. 0 < c)"

definition line_ok :: "(string \<Rightarrow> json py) \<Rightarrow> tlm_line \<Rightarrow> bool" where
  "line_ok loads rc \<longleftrightarrow>
     (\<exists>wk. loads (ln_workload_key rc) = Inr wk) \<and> (\<exists>ss. mapE mask_step (ln_steps rc) = Inr ss) \<and> costs_ok (ln_costs rc)"

definition lat_of :: "tlm_line \<Rightarrow> rat" where
  "lat_of rc = (if ln_costs rc = [0] then no_latency else sum_list (ln_costs rc) / of_nat (length (ln_costs rc)))"

lemma latency_of_ok: "costs_ok (ln_costs rc) \<Longrightarrow> latency_of (ln_costs rc) = Inr (lat_of rc)"
  by (auto simp: costs_ok_def latency_of_def lat_of_def)

lemma sum_list_pos: "xs \<noteq> [] \<Longrightarrow> \<forall>x \<in> set xs. 0 < x \<Longrightarrow> 0 < sum_list (xs :: rat list)"
  by (induction xs) (auto intro: add_pos_nonneg sum_list_nonneg less_imp_le)

lemma lat_of_pos: "costs_ok (ln_costs rc) \<Longrightarrow> 0 < lat_of rc"
  using sum_list_pos[of "ln_costs rc"] by (auto simp: costs_ok_def lat_of_def no_latency_def)

lemma foldl_min_le: "foldl min a xs \<le> (a :: rat) \<and> (\<forall>x \<in> set xs. foldl min a xs \<le> x)"
proof (induction xs arbitrary: a)
  case (Cons x xs)
  from Cons[of "min a x"] show ?case by (auto simp: min_le_iff_disj intro: order_trans)
qed simp

lemma foldl_min_mem: "foldl min a xs \<in> insert (a :: rat) (set xs)"
proof (induction xs arbitrary: a)
  case (Cons x xs)
  from Cons[of "min a x"] show ?case by (auto simp: min_def)
qed simp

text \<open>C29: the training labels of \<^verbatim>\<open>for_gen\<close>. For accepted lines it returns one record per line, and
  its label is the smallest latency (at most \<^verbatim>\<open>1e10\<close>) divided by its own: greater than zero, at
  most one, and one exactly for the fastest records.\<close>

theorem gen_labels_bounds:
  assumes "\<forall>rc \<in> set lines. line_ok loads rc"
  shows "\<exists>ds. for_gen loads dag lines = Inr ds \<and> length ds = length lines \<and>
     (\<forall>i < length lines. da_latency (ds ! i) = lat_of (lines ! i) \<and>
        0 < da_labels (ds ! i) \<and> da_labels (ds ! i) \<le> 1 \<and>
        (da_labels (ds ! i) = 1 \<longleftrightarrow>
           lat_of (lines ! i) \<le> no_latency \<and> (\<forall>rc \<in> set lines. lat_of (lines ! i) \<le> lat_of rc)))"
proof -
  let ?m = "foldl min no_latency (map lat_of lines)"
  let ?text = "\<lambda>rc. snd (projr (gen_entry loads dag rc))"
  have entry: "gen_entry loads dag rc = Inr (lat_of rc, ?text rc)" if "rc \<in> set lines" for rc
    using assms that latency_of_ok[of rc] by (auto simp: line_ok_def gen_entry_def)
  have entries: "mapE (gen_entry loads dag) lines = Inr (map (\<lambda>rc. (lat_of rc, ?text rc)) lines)"
    by (rule mapE_total) (rule entry)
  have pos: "0 < lat_of rc" if "rc \<in> set lines" for rc using assms that lat_of_pos by (auto simp: line_ok_def)
  have "?m \<in> insert no_latency (set (map lat_of lines))" by (rule foldl_min_mem)
  then have mpos: "0 < ?m" using pos by (auto simp: no_latency_def)
  have mle: "?m \<le> no_latency" "\<And>rc. rc \<in> set lines \<Longrightarrow> ?m \<le> lat_of rc"
    using foldl_min_le[of no_latency "map lat_of lines"] by auto
  let ?d = "\<lambda>rc. \<lparr>da_latency = lat_of rc, da_text = ?text rc, da_labels = ?m / lat_of rc, da_line = []\<rparr>"
  have "mapE (\<lambda>(lat, text). bindE (py_div ?m lat) (\<lambda>l. Inr \<lparr>da_latency = lat, da_text = text, da_labels = l, da_line = []\<rparr>))
      (map (\<lambda>rc. (lat_of rc, ?text rc)) lines) = Inr (map ?d lines)"
    unfolding mapE_map comp_def by (rule mapE_total) (use pos in \<open>force simp: py_div_def\<close>)
  then have run: "for_gen loads dag lines = Inr (map ?d lines)"
    by (simp add: for_gen_def entries Let_def comp_def)
  have "?m / lat_of rc = 1 \<longleftrightarrow> lat_of rc \<le> no_latency \<and> (\<forall>rc' \<in> set lines. lat_of rc \<le> lat_of rc')" if "rc \<in> set lines" for rc
  proof -
    have "?m / lat_of rc = 1 \<longleftrightarrow> ?m = lat_of rc" using pos[OF that] by auto
    also have "\<dots> \<longleftrightarrow> lat_of rc \<le> ?m" using mle(2)[OF that] by auto
    also have "\<dots> \<longleftrightarrow> lat_of rc \<le> no_latency \<and> (\<forall>rc' \<in> set lines. lat_of rc \<le> lat_of rc')"
      using mle foldl_min_mem[of no_latency "map lat_of lines"] by (auto intro: order_trans)
    finally show ?thesis .
  qed
  with run mpos mle(2) pos show ?thesis by (intro exI[of _ "map ?d lines"]) (auto simp: divide_le_eq_1)
qed

lemma for_gen_texts:
  assumes "for_gen loads dag lines = Inr ds"
  obtains es where "mapE (gen_entry loads dag) lines = Inr es" "map da_text ds = map snd es"
proof -
  obtain es m where es: "mapE (gen_entry loads dag) lines = Inr es"
    and ds: "list_all2 (\<lambda>e x. (\<lambda>(lat, text). bindE (py_div m lat) (\<lambda>l.
         Inr \<lparr>da_latency = lat, da_text = text, da_labels = l, da_line = []\<rparr>)) e = Inr x) es ds"
    using assms by (auto simp: for_gen_def Let_def mapE_Inr_iff[symmetric])
  from ds have "map da_text ds = map snd es" by (induction rule: list_all2_induct) auto
  with es show thesis by (rule that)
qed

text \<open>Masking is idempotent, and a sketch is the masked beginning of the steps.\<close>

lemma mask_step_idem: "mask_step st = Inr st' \<Longrightarrow> mask_step st' = Inr st'"
  by (auto simp: mask_step_def py_nth_def comp_def split: if_splits json.splits)

lemma mask_steps_idem: "mapE mask_step steps = Inr ss \<Longrightarrow> mapE mask_step ss = Inr ss"
  by (induction steps arbitrary: ss) (auto dest: mask_step_idem)

lemma sketch_prefix_masked:
  assumes "sketch_prefix steps = Inr sk" "mapE mask_step steps = Inr ss"
  shows "length sk \<le> length steps \<and> take (length sk) ss = sk \<and> mapE mask_step (take (length sk) steps) = Inr sk"
  using assms by (induction steps arbitrary: sk ss) (auto split: if_splits)

text \<open>The tokens of a record: those of the compute DAG, of the task and the stages, and of the steps in their order.\<close>

definition steps_tokens :: "(rat \<Rightarrow> string) \<Rightarrow> sched_step list \<Rightarrow> string list py" where
  "steps_tokens fs steps = bindE (mapE (json_dfs_without_bracket fs) (map step_json steps)) (\<lambda>tss. Inr (concat tss))"

lemma steps_tokens_append:
  "steps_tokens fs (xs @ ys) = bindE (steps_tokens fs xs) (\<lambda>t. bindE (steps_tokens fs ys) (\<lambda>u. Inr (t @ u)))"
  by (induction xs) (auto simp: steps_tokens_def bindE_def split: sum.splits)

lemma steps_tokens_empty: "steps_tokens fs steps = Inr ts \<Longrightarrow> ts = [] \<longleftrightarrow> steps = []"
  by (cases steps) (auto simp: steps_tokens_def step_json_def)

lemma record_tokens:
  "json_dfs_without_bracket fs (JArray [JString dag, input_json wk rc steps]) =
     bindE (json_dfs_without_bracket fs (JArray (wk # ln_task_rest rc))) (\<lambda>t1.
     bindE (json_dfs_without_bracket fs (ln_stages rc)) (\<lambda>t2.
     bindE (steps_tokens fs steps) (\<lambda>t3. Inr (dag # t1 @ t2 @ t3))))"
  by (auto simp: input_json_def steps_tokens_def bindE_def split: sum.splits)

lemma join_spaces_append:
  "ts \<noteq> [] \<Longrightarrow> join_spaces (ts @ us) = join_spaces ts @ (if us = [] then [] else '' '' @ join_spaces us)"
  by (induction ts rule: join_spaces.induct) (auto simp: neq_Nil_conv)

text \<open>C28: the model is asked to continue what it was trained on. For a training line whose task and stages are those of
  the input, the prompt \<^verbatim>\<open>input_to_tokens\<close> makes for the sketch of the line (the steps up to the first \<^verbatim>\<open>PPT\<close>, whatever
  sizes their splits have) is a beginning of the text \<^verbatim>\<open>for_gen\<close> and \<^verbatim>\<open>json_to_token\<close> make for the whole line: the
  text goes on with a space and the tokens of the steps after the sketch, and ends with the prompt only when there are none.\<close>

theorem prompts_match_training:
  assumes "for_gen loads dag lines = Inr ds" "json_to_token fs (map da_text ds) = Inr texts" "i < length lines"
    and "ln_workload_key (lines ! i) = ln_workload_key inp" "ln_task_rest (lines ! i) = ln_task_rest inp"
      "ln_stages (lines ! i) = ln_stages inp"
    and "sketch_prefix (ln_steps (lines ! i)) = Inr sk"
  shows "\<exists>prompt later ts. input_to_tokens fs loads dag inp [sk] = Inr [prompt] \<and>
     input_to_tokens fs loads dag inp [take (length sk) (ln_steps (lines ! i))] = Inr [prompt] \<and>
     mapE mask_step (drop (length sk) (ln_steps (lines ! i))) = Inr later \<and>
     mapE (json_dfs_without_bracket fs) (map step_json later) = Inr ts \<and>
     texts ! i = prompt @ (if later = [] then [] else '' '' @ join_spaces (concat ts))"
proof -
  let ?rc = "lines ! i"
  let ?n = "length sk"
  obtain es where es: "mapE (gen_entry loads dag) lines = Inr es" "map da_text ds = map snd es"
    using for_gen_texts[OF assms(1)] .
  then have len: "length es = length lines" using mapE_length by blast
  from es(1) assms(3) have e: "gen_entry loads dag ?rc = Inr (es ! i)" by (auto simp: mapE_Inr_iff list_all2_conv_all_nth)
  then obtain wk ms lat where wk: "loads (ln_workload_key inp) = Inr wk" "mapE mask_step (ln_steps ?rc) = Inr ms"
    "(lat, JArray [JString dag, input_json wk ?rc ms]) = es ! i"
    using assms(4) by (auto simp: gen_entry_def)
  have sk: "?n \<le> length (ln_steps ?rc)" "take ?n ms = sk" "mapE mask_step (take ?n (ln_steps ?rc)) = Inr sk"
    using sketch_prefix_masked[OF assms(7) wk(2)] by auto
  have inp: "input_json wk ?rc steps = input_json wk inp steps" for steps using assms(5,6) by (simp add: input_json_def)
  have "list_all2 (\<lambda>t x. bindE (json_dfs_without_bracket fs t) (\<lambda>ts. Inr (join_spaces ts)) = Inr x) (map snd es) texts"
    using assms(2) es(2) by (simp add: json_to_token_def mapE_Inr_iff)
  then have "bindE (json_dfs_without_bracket fs (snd (es ! i))) (\<lambda>ts. Inr (join_spaces ts)) = Inr (texts ! i)"
    using assms(3) len by (auto simp: list_all2_conv_all_nth)
  then obtain t1 t2 t3 where t: "json_dfs_without_bracket fs (JArray (wk # ln_task_rest inp)) = Inr t1"
    "json_dfs_without_bracket fs (ln_stages inp) = Inr t2" "steps_tokens fs ms = Inr t3" "texts ! i = join_spaces (dag # t1 @ t2 @ t3)"
    unfolding wk(3)[symmetric] snd_conv inp record_tokens by auto
  let ?later = "drop ?n ms"
  have parts: "sk @ ?later = ms" using sk(2) append_take_drop_id[of ?n ms] by simp
  obtain u v where u: "steps_tokens fs sk = Inr u" "steps_tokens fs ?later = Inr v" "t3 = u @ v"
    using t(3) steps_tokens_append[of fs sk ?later] unfolding parts by auto
  have later: "mapE mask_step (drop ?n (ln_steps ?rc)) = Inr ?later"
    using wk(2) mapE_append[of mask_step "take ?n (ln_steps ?rc)" "drop ?n (ln_steps ?rc)"] sk(3)
    unfolding append_take_drop_id by auto
  let ?prompt = "join_spaces (dag # t1 @ t2 @ u)"
  have toks: "json_dfs_without_bracket fs (JArray [JString dag, input_json wk inp sk]) = Inr (dag # t1 @ t2 @ u)"
    unfolding record_tokens t(1,2) u(1) by simp
  have ask: "input_to_tokens fs loads dag inp [steps] = Inr [?prompt]" if "mapE mask_step steps = Inr sk" for steps
    using that wk(1) toks by (simp add: input_to_tokens_def json_to_token_def del: json_dfs_without_bracket.simps)
  have "mapE mask_step sk = Inr sk" by (rule mask_steps_idem[OF sk(3)])
  moreover obtain ts where "mapE (json_dfs_without_bracket fs) (map step_json ?later) = Inr ts" "v = concat ts"
    using u(2) by (auto simp: steps_tokens_def)
  moreover have "texts ! i = ?prompt @ (if ?later = [] then [] else '' '' @ join_spaces v)"
    using join_spaces_append[of "dag # t1 @ t2 @ u" v] steps_tokens_empty[OF u(2)] unfolding t(4) u(3) by simp
  ultimately show ?thesis using ask sk(3) later by blast
qed

definition demo_line :: "string \<Rightarrow> rat list \<Rightarrow> tlm_line" where
  "demo_line k cs = \<lparr>ln_workload_key = k, ln_task_rest = [], ln_stages = JArray [],
     ln_steps = [\<lparr>stp_tag = ''SP'', stp_args = [JInt 0, JInt 1, JInt 8, JArray [JInt 4, JInt 2], JInt 1]\<rparr>,
                 \<lparr>stp_tag = ''PPT'', stp_args = []\<rparr>], ln_costs = cs, ln_text = k\<rparr>"

lemma demo_line_ok: "costs_ok cs \<Longrightarrow> line_ok (\<lambda>s. Inr (JString s)) (demo_line k cs)"
  by (simp add: line_ok_def demo_line_def mask_step_def py_nth_def)

theorem gen_labels_bounds_witness:
  "\<exists>ds. for_gen (\<lambda>s. Inr (JString s)) ''dag'' [demo_line ''a'' [1, 3], demo_line ''b'' [0]] = Inr ds \<and>
     da_labels (ds ! 0) = 1 \<and> da_labels (ds ! 1) < 1"
proof -
  have ok: "\<forall>rc \<in> set [demo_line ''a'' [1, 3], demo_line ''b'' [0]]. line_ok (\<lambda>s. Inr (JString s)) rc"
    by (simp add: demo_line_ok costs_ok_def)
  have lats: "lat_of (demo_line ''a'' [1, 3]) = 2" "lat_of (demo_line ''b'' [0]) = 10 ^ 10"
    by (simp_all add: lat_of_def demo_line_def no_latency_def)
  obtain ds where ds: "for_gen (\<lambda>s. Inr (JString s)) ''dag'' [demo_line ''a'' [1, 3], demo_line ''b'' [0]] = Inr ds"
    "\<forall>i < 2. da_labels (ds ! i) \<le> 1 \<and> (da_labels (ds ! i) = 1 \<longleftrightarrow>
       lat_of ([demo_line ''a'' [1, 3], demo_line ''b'' [0]] ! i) \<le> no_latency \<and>
       (\<forall>rc \<in> set [demo_line ''a'' [1, 3], demo_line ''b'' [0]]. lat_of ([demo_line ''a'' [1, 3], demo_line ''b'' [0]] ! i) \<le> lat_of rc))"
    using gen_labels_bounds[OF ok, of "''dag''"] by (auto simp: numeral_2_eq_2)
  from ds(2)[rule_format, of 0] have "da_labels (ds ! 0) = 1" by (simp add: lats no_latency_def)
  moreover from ds(2)[rule_format, of 1] have "da_labels (ds ! 1) < 1" by (simp add: lats no_latency_def)
  ultimately show ?thesis using ds(1) by blast
qed

theorem prompts_match_training_witness:
  "let line = (demo_line ''k'' [1, 3])\<lparr>ln_steps := ln_steps (demo_line ''k'' [1, 3]) @ [\<lparr>stp_tag = ''AN'', stp_args = [JInt 2]\<rparr>]\<rparr> in
     \<exists>prompt. input_to_tokens (\<lambda>x. ''f'') (\<lambda>s. Inr (JString s)) ''dag'' (demo_line ''k'' [0])
         [take 2 (ln_steps line)] = Inr [prompt] \<and>
       bindE (for_gen (\<lambda>s. Inr (JString s)) ''dag'' [line]) (\<lambda>ds. json_to_token (\<lambda>x. ''f'') (map da_text ds))
         = Inr [prompt @ '' AN 2''] \<and> prompt = ''dag k SP 0 1 8 1 1 1 PPT''"
proof -
  let ?line = "(demo_line ''k'' [1, 3])\<lparr>ln_steps := ln_steps (demo_line ''k'' [1, 3]) @ [\<lparr>stp_tag = ''AN'', stp_args = [JInt 2]\<rparr>]\<rparr>"
  let ?loads = "\<lambda>s. Inr (JString s)" and ?fs = "\<lambda>x :: rat. ''f''"
  let ?sk = "[\<lparr>stp_tag = ''SP'', stp_args = [JInt 0, JInt 1, JInt 8, JArray [JInt 1, JInt 1], JInt 1]\<rparr>, \<lparr>stp_tag = ''PPT'', stp_args = []\<rparr>]"
  have line: "demo_line ''k'' cs = \<lparr>ln_workload_key = ''k'', ln_task_rest = [], ln_stages = JArray [],
     ln_steps = [\<lparr>stp_tag = ''SP'', stp_args = [JInt 0, JInt 1, JInt 8, JArray [JInt 4, JInt 2], JInt 1]\<rparr>,
                 \<lparr>stp_tag = ''PPT'', stp_args = []\<rparr>], ln_costs = cs, ln_text = ''k''\<rparr>" for cs by (simp add: demo_line_def)
  obtain ds where ds: "for_gen ?loads ''dag'' [?line] = Inr ds"
    by (simp add: for_gen_def gen_entry_def line mask_step_def py_nth_def latency_of_def py_div_def Let_def)
  have digits: "show_int 0 = ''0''" "show_int 1 = ''1''" "show_int 2 = ''2''" "show_int 8 = ''8''" by code_simp+
  obtain texts where texts: "json_to_token ?fs (map da_text ds) = Inr texts" "texts = [''dag k SP 0 1 8 1 1 1 PPT AN 2'']"
    using ds by (auto simp: for_gen_def gen_entry_def line mask_step_def py_nth_def latency_of_def py_div_def Let_def
        json_to_token_def input_json_def step_json_def digits)
  have sk: "sketch_prefix (ln_steps ([?line] ! 0)) = Inr ?sk" by (simp add: line mask_step_def py_nth_def)
  have hyps: "0 < length [?line]" "ln_workload_key ([?line] ! 0) = ln_workload_key (demo_line ''k'' [0])"
    "ln_task_rest ([?line] ! 0) = ln_task_rest (demo_line ''k'' [0])" "ln_stages ([?line] ! 0) = ln_stages (demo_line ''k'' [0])"
    by (simp_all add: line)
  have rest: "mapE mask_step (drop (length ?sk) (ln_steps ([?line] ! 0))) = Inr [\<lparr>stp_tag = ''AN'', stp_args = [JInt 2]\<rparr>]"
    by (simp add: line mask_step_def)
  obtain prompt later ts where p: "input_to_tokens ?fs ?loads ''dag'' (demo_line ''k'' [0]) [take (length ?sk) (ln_steps ([?line] ! 0))] = Inr [prompt]"
    "mapE mask_step (drop (length ?sk) (ln_steps ([?line] ! 0))) = Inr later" "mapE (json_dfs_without_bracket ?fs) (map step_json later) = Inr ts"
    "texts ! 0 = prompt @ (if later = [] then [] else '' '' @ join_spaces (concat ts))"
    using prompts_match_training[OF ds texts(1) hyps sk] by blast
  have "later = [\<lparr>stp_tag = ''AN'', stp_args = [JInt 2]\<rparr>]" using p(2) unfolding rest by simp
  with p(3) have "concat ts = [''AN'', ''2'']" "later \<noteq> []" by (auto simp: step_json_def digits)
  with p(4) texts(2) have "prompt @ '' AN 2'' = ''dag k SP 0 1 8 1 1 1 PPT'' @ '' AN 2''" by simp
  then have "prompt = ''dag k SP 0 1 8 1 1 1 PPT''" by (simp only: append_same_eq)
  with p(1) ds texts show ?thesis by (simp add: line)
qed

section \<open>Best records\<close>

definition masked :: "tlm_line \<Rightarrow> sched_step list" where
  "masked rc = projr (mapE mask_step (ln_steps rc))"

definition fast :: "tlm_line \<Rightarrow> bool" where
  "fast rc \<longleftrightarrow> lat_of rc < no_latency"

definition sketch_of :: "tlm_line \<Rightarrow> sched_step list" where
  "sketch_of rc = the (ppt_prefix (masked rc))"

definition data_of :: "(string \<Rightarrow> json py) \<Rightarrow> string \<Rightarrow> tlm_line \<Rightarrow> tlm_data" where
  "data_of loads dag rc = \<lparr>da_latency = lat_of rc,
     da_text = JArray [JString dag, input_json (projr (loads (ln_workload_key rc))) rc (masked rc)],
     da_labels = 0, da_line = ln_text rc\<rparr>"

definition best_ok :: "(string \<Rightarrow> json py) \<Rightarrow> tlm_line \<Rightarrow> bool" where
  "best_ok loads rc \<longleftrightarrow> line_ok loads rc \<and> (fast rc \<longrightarrow> ppt_prefix (masked rc) \<noteq> None)"

lemma best_step_ok:
  assumes "best_ok loads rc"
  shows "best_step loads dag rc (m, d) = Inr
     (if fast rc then (min m (lat_of rc),
        case map_of d (sketch_of rc) of
          Some (l, x) \<Rightarrow> if l > lat_of rc then AList.update (sketch_of rc) (lat_of rc, data_of loads dag rc) d else d
        | None \<Rightarrow> AList.update (sketch_of rc) (lat_of rc, data_of loads dag rc) d)
      else (m, d))"
proof -
  obtain wk ss where w: "loads (ln_workload_key rc) = Inr wk" "mapE mask_step (ln_steps rc) = Inr ss"
    "latency_of (ln_costs rc) = Inr (lat_of rc)"
    using assms latency_of_ok[of rc] by (auto simp: best_ok_def line_ok_def)
  have ss: "masked rc = ss" using w(2) by (simp add: masked_def)
  show ?thesis
  proof (cases "fast rc")
    case True
    then obtain p where "ppt_prefix ss = Some p" using assms ss by (auto simp: best_ok_def)
    with w ss True show ?thesis
      by (simp add: best_step_def fast_def sketch_of_def data_of_def Let_def not_le[symmetric] split: option.split)
  qed (use w in \<open>simp add: best_step_def fast_def\<close>)
qed

text \<open>The dictionary after the lines \<open>L\<close>.\<close>

definition best_dict_inv :: "(string \<Rightarrow> json py) \<Rightarrow> string \<Rightarrow> tlm_line list \<Rightarrow> rat \<times> best_dict \<Rightarrow> bool" where
  "best_dict_inv loads dag L acc \<longleftrightarrow>
     fst acc = foldl min no_latency (map lat_of (filter fast L)) \<and> distinct (map fst (snd acc)) \<and>
     fst ` set (snd acc) = sketch_of ` {rc \<in> set L. fast rc} \<and>
     (\<forall>(p, l, x) \<in> set (snd acc). \<exists>rc \<in> set L. fast rc \<and> sketch_of rc = p \<and> l = lat_of rc \<and> x = data_of loads dag rc) \<and>
     (\<forall>rc \<in> set L. fast rc \<longrightarrow> (\<exists>l x. map_of (snd acc) (sketch_of rc) = Some (l, x) \<and> l \<le> lat_of rc))"

lemma best_dict_step:
  assumes inv: "best_dict_inv loads dag L (m, d)" and ok: "best_ok loads rc"
  shows "\<exists>acc. best_step loads dag rc (m, d) = Inr acc \<and> best_dict_inv loads dag (L @ [rc]) acc"
proof (cases "fast rc \<and> (\<forall>l x. map_of d (sketch_of rc) = Some (l, x) \<longrightarrow> l > lat_of rc)")
  case True
  let ?d = "AList.update (sketch_of rc) (lat_of rc, data_of loads dag rc) d"
  have "best_step loads dag rc (m, d) = Inr (min m (lat_of rc), ?d)"
    using best_step_ok[OF ok, of dag m d] True by (auto split: option.splits)
  moreover have "best_dict_inv loads dag (L @ [rc]) (min m (lat_of rc), ?d)"
  proof -
    have keys: "fst ` set ?d = insert (sketch_of rc) (fst ` set d)" by (simp add: dom_update)
    have dist: "distinct (map fst ?d)" using inv by (simp add: best_dict_inv_def distinct_update)
    have mem: "map_of ?d p = (if p = sketch_of rc then Some (lat_of rc, data_of loads dag rc) else map_of d p)" for p
      by (simp add: update_conv)
    have 1: "\<forall>(p, l, x) \<in> set ?d. \<exists>rc' \<in> set (L @ [rc]). fast rc' \<and> sketch_of rc' = p \<and> l = lat_of rc' \<and> x = data_of loads dag rc'"
    proof (clarify)
      fix p l x assume "(p, l, x) \<in> set ?d"
      then have "map_of ?d p = Some (l, x)" using dist by (simp add: map_of_is_SomeI)
      with mem[of p] have "(p, l, x) = (sketch_of rc, lat_of rc, data_of loads dag rc) \<or> (p, l, x) \<in> set d"
        by (cases "p = sketch_of rc") (simp_all add: map_of_SomeD)
      with inv True show "\<exists>rc' \<in> set (L @ [rc]). fast rc' \<and> sketch_of rc' = p \<and> l = lat_of rc' \<and> x = data_of loads dag rc'"
        unfolding best_dict_inv_def by fastforce
    qed
    have low: "\<exists>l x. map_of d (sketch_of rc') = Some (l, x) \<and> l \<le> lat_of rc'" if "rc' \<in> set L" "fast rc'" for rc'
      using inv that unfolding best_dict_inv_def snd_conv by blast
    have 2: "\<exists>l x. map_of ?d (sketch_of rc') = Some (l, x) \<and> l \<le> lat_of rc'"
      if rc': "rc' \<in> set (L @ [rc])" "fast rc'" for rc'
    proof (cases "rc' = rc")
      case False
      with rc' obtain l x where lx: "map_of d (sketch_of rc') = Some (l, x)" "l \<le> lat_of rc'" using low[of rc'] by auto
      show ?thesis
      proof (cases "sketch_of rc' = sketch_of rc")
        case same: True
        with True lx have "lat_of rc \<le> lat_of rc'" by fastforce
        with same show ?thesis unfolding mem by simp
      qed (use lx in \<open>simp only: mem if_False, blast\<close>)
    qed (simp add: mem)
    have 3: "fst ` set ?d = sketch_of ` {rc' \<in> set (L @ [rc]). fast rc'}"
      unfolding keys using inv True unfolding best_dict_inv_def by auto
    show ?thesis using inv True dist 1 2 3 unfolding best_dict_inv_def by simp
  qed
  ultimately show ?thesis by blast
next
  case False
  then have "best_step loads dag rc (m, d) = Inr (if fast rc then min m (lat_of rc) else m, d)"
    using best_step_ok[OF ok, of dag m d] by (auto split: option.splits)
  moreover have "best_dict_inv loads dag (L @ [rc]) (if fast rc then min m (lat_of rc) else m, d)"
  proof (cases "fast rc")
    case True
    with False obtain l x where lx: "map_of d (sketch_of rc) = Some (l, x)" "l \<le> lat_of rc" by (auto simp: not_less)
    then have "sketch_of rc \<in> fst ` set d" by (force dest: map_of_SomeD)
    then have "fst ` set d = sketch_of ` {rc' \<in> set (L @ [rc]). fast rc'}"
      using inv True unfolding best_dict_inv_def by auto
    moreover have "\<forall>(p, l, x) \<in> set d. \<exists>rc' \<in> set (L @ [rc]). fast rc' \<and> sketch_of rc' = p \<and> l = lat_of rc' \<and> x = data_of loads dag rc'"
      using inv unfolding best_dict_inv_def by fastforce
    moreover have "\<forall>rc' \<in> set (L @ [rc]). fast rc' \<longrightarrow> (\<exists>l x. map_of d (sketch_of rc') = Some (l, x) \<and> l \<le> lat_of rc')"
      using inv lx unfolding best_dict_inv_def snd_conv set_append by (simp only: ball_Un list.set ball_simps) blast
    ultimately show ?thesis using inv True unfolding best_dict_inv_def by simp
  next
    case slow: False
    then have "{rc' \<in> set (L @ [rc]). fast rc'} = {rc' \<in> set L. fast rc'}" by auto
    moreover have "\<forall>(p, l, x) \<in> set d. \<exists>rc' \<in> set (L @ [rc]). fast rc' \<and> sketch_of rc' = p \<and> l = lat_of rc' \<and> x = data_of loads dag rc'"
      using inv unfolding best_dict_inv_def by fastforce
    ultimately show ?thesis using inv slow unfolding best_dict_inv_def by (simp del: map_of_eq_Some_iff)
  qed
  ultimately show ?thesis by blast
qed

lemma best_dict_all:
  assumes "\<forall>rc \<in> set lines. best_ok loads rc"
  shows "\<exists>acc. foldE (best_step loads dag) lines (no_latency, []) = Inr acc \<and> best_dict_inv loads dag lines acc"
  using assms
proof (induction lines rule: rev_induct)
  case Nil
  then show ?case by (simp add: best_dict_inv_def)
next
  case (snoc rc lines)
  then obtain m d where 1: "foldE (best_step loads dag) lines (no_latency, []) = Inr (m, d)"
    "best_dict_inv loads dag lines (m, d)" by auto
  from best_dict_step[OF 1(2), of rc] snoc.prems obtain acc where
    "best_step loads dag rc (m, d) = Inr acc" "best_dict_inv loads dag (lines @ [rc]) acc" by auto
  with 1(1) show ?case by (simp add: foldE_append)
qed

lemma hd_sort_key_least:
  assumes "x \<in> set xs"
  shows "f (hd (sort_key f xs)) \<le> (f x :: 'k::linorder)"
proof -
  have "xs \<noteq> []" using assms by auto
  then have ne: "sort_key f xs \<noteq> []" by (metis length_0_conv length_sort)
  have "sorted (map f (sort_key f xs))" by simp
  then have "\<forall>y \<in> set (sort_key f xs). f (hd (sort_key f xs)) \<le> f y"
    using ne by (cases "sort_key f xs") auto
  with assms show ?thesis by simp
qed

lemma min_fast:
  assumes "rc0 \<in> set L" "fast rc0"
  shows "\<exists>rc \<in> set L. fast rc \<and> foldl min no_latency (map lat_of (filter fast L)) = lat_of rc"
    and "foldl min no_latency (map lat_of (filter fast L)) \<le> lat_of rc0"
proof -
  let ?m = "foldl min no_latency (map lat_of (filter fast L))"
  show le: "?m \<le> lat_of rc0" using foldl_min_le[of no_latency "map lat_of (filter fast L)"] assms by auto
  have "?m \<in> insert no_latency (set (map lat_of (filter fast L)))" by (rule foldl_min_mem)
  moreover have "?m \<noteq> no_latency" using le assms(2) by (auto simp: fast_def)
  ultimately show "\<exists>rc \<in> set L. fast rc \<and> ?m = lat_of rc" by auto
qed

definition labelled :: "rat \<Rightarrow> tlm_data \<Rightarrow> tlm_data" where
  "labelled m x = x\<lparr>da_labels := m / da_latency x\<rparr>"

definition best_list :: "rat \<Rightarrow> best_dict \<Rightarrow> tlm_data list" where
  "best_list m d = sort_key (\<lambda>x. - da_labels x) (map (labelled m \<circ> (snd \<circ> snd)) d)"

lemma set_best_list: "set (best_list m d) = (\<lambda>e. labelled m (snd (snd e))) ` set d"
  by (auto simp: best_list_def)

lemma best_entry:
  assumes "best_dict_inv loads dag L (m, d)" "(p, l, x) \<in> set d"
  obtains rc where "rc \<in> set L" "fast rc" "sketch_of rc = p" "l = lat_of rc" "x = data_of loads dag rc"
proof -
  have "\<forall>(p, l, x) \<in> set d. \<exists>rc \<in> set L. fast rc \<and> sketch_of rc = p \<and> l = lat_of rc \<and> x = data_of loads dag rc"
    using assms(1) by (simp add: best_dict_inv_def)
  with assms(2) that show thesis by blast
qed

lemma best_ok_pos: "best_ok loads rc \<Longrightarrow> 0 < lat_of rc"
  by (auto simp: best_ok_def line_ok_def lat_of_pos)

lemma best_run:
  assumes ok: "\<forall>rc \<in> set lines. best_ok loads rc"
  obtains m d where "best_dict_inv loads dag lines (m, d)"
    "\<And>pl. for_gen_best loads dag pl lines = (if pl = ''i7'' then Inr (take 1 (best_list m d))
        else if pl = ''v100'' then Inr (best_list m d) else Inl AssertionError)"
proof -
  obtain m d where fold: "foldE (best_step loads dag) lines (no_latency, []) = Inr (m, d)"
    and inv: "best_dict_inv loads dag lines (m, d)" using best_dict_all[OF assms, of dag] by auto
  have lat0: "da_latency (snd (snd e)) \<noteq> 0" if "e \<in> set d" for e
  proof -
    obtain p l x where e: "e = (p, l, x)" by (cases e)
    with that have "(p, l, x) \<in> set d" by simp
    from best_entry[OF inv this] obtain rc where "rc \<in> set lines" "x = data_of loads dag rc" .
    with ok e best_ok_pos show ?thesis by (force simp: data_of_def)
  qed
  have "mapE (\<lambda>x. bindE (py_div m (da_latency x)) (\<lambda>l. Inr (x\<lparr>da_labels := l\<rparr>))) (map (snd \<circ> snd) d)
      = Inr (map (labelled m \<circ> (snd \<circ> snd)) d)"
    unfolding mapE_map by (rule mapE_total) (simp add: py_div_def lat0 labelled_def)
  then have "for_gen_best loads dag pl lines = (if pl = ''i7'' then Inr (take 1 (best_list m d))
        else if pl = ''v100'' then Inr (best_list m d) else Inl AssertionError)" for pl
    unfolding for_gen_best_def fold best_list_def by (simp only: bindE_Inr split_conv Let_def)
  with inv show thesis by (rule that)
qed

lemma best_list_covers:
  assumes inv: "best_dict_inv loads dag L (m, d)" and rc: "rc \<in> set L" "fast rc"
  shows "\<exists>x \<in> set (best_list m d). \<exists>rc' \<in> set L. fast rc' \<and> sketch_of rc' = sketch_of rc \<and> da_line x = ln_text rc' \<and>
      da_latency x = lat_of rc' \<and> da_labels x = m / lat_of rc' \<and> lat_of rc' \<le> lat_of rc"
proof -
  obtain l x where lx: "map_of d (sketch_of rc) = Some (l, x)" "l \<le> lat_of rc"
    using inv rc unfolding best_dict_inv_def snd_conv by blast
  from best_entry[OF inv map_of_SomeD[OF lx(1)]] obtain rc' where rc': "rc' \<in> set L" "fast rc'"
    "sketch_of rc' = sketch_of rc" "l = lat_of rc'" "x = data_of loads dag rc'" .
  have "labelled m x \<in> set (best_list m d)" unfolding set_best_list using map_of_SomeD[OF lx(1)] by force
  with rc' lx(2) show ?thesis
    by (intro bexI[of _ "labelled m x"] bexI[of _ rc']) (simp_all add: labelled_def data_of_def)
qed

lemma best_list_head:
  assumes inv: "best_dict_inv loads dag L (m, d)" and ok: "\<forall>rc \<in> set L. best_ok loads rc" and ne: "best_list m d \<noteq> []"
  shows "da_labels (hd (best_list m d)) = 1 \<and> (\<forall>rc \<in> set L. fast rc \<longrightarrow> da_latency (hd (best_list m d)) \<le> lat_of rc)"
proof -
  let ?h = "hd (best_list m d)"
  have m: "m = foldl min no_latency (map lat_of (filter fast L))" using inv by (simp add: best_dict_inv_def)
  have least: "m \<le> lat_of r" if "r \<in> set L" "fast r" for r unfolding m by (rule min_fast(2)[OF that])
  have "?h \<in> set (best_list m d)" using ne by simp
  then obtain p l x0 where e: "(p, l, x0) \<in> set d" "?h = labelled m x0" unfolding set_best_list by auto
  from best_entry[OF inv e(1)] obtain rc where rc: "rc \<in> set L" "fast rc" "x0 = data_of loads dag rc" .
  from min_fast[OF rc(1,2)] obtain r1 where r1: "r1 \<in> set L" "fast r1" "m = lat_of r1" unfolding m by blast
  from best_list_covers[OF inv r1(1,2)] obtain x r2 where x: "x \<in> set (best_list m d)" "r2 \<in> set L" "fast r2"
    "da_labels x = m / lat_of r2" "lat_of r2 \<le> m" unfolding r1(3)[symmetric] by blast
  have pos: "0 < lat_of rc" "0 < lat_of r2" using ok rc(1) x(2) best_ok_pos by blast+
  have "da_labels x = 1" using least[OF x(2,3)] x(4,5) pos(2) by simp
  moreover have "- da_labels ?h \<le> - da_labels x"
    unfolding best_list_def by (rule hd_sort_key_least) (use x(1) in \<open>simp add: best_list_def\<close>)
  ultimately have "1 \<le> da_labels ?h" by simp
  moreover have hd: "da_labels ?h = m / lat_of rc" "da_latency ?h = lat_of rc"
    by (simp_all add: e(2) rc(3) labelled_def data_of_def)
  ultimately have "lat_of rc = m" using pos(1) least[OF rc(1,2)] by (simp add: le_divide_eq)
  with hd pos(1) least show ?thesis by simp
qed

text \<open>C21: \<^verbatim>\<open>for_gen_best\<close> on accepted lines. It returns one record per sketch (the steps up to the last
  \<^verbatim>\<open>PPT\<close>) among the measured lines, made from a fastest line of that sketch, in order of falling
  labels; the first has label one and is the fastest of all. On platform \<^verbatim>\<open>i7\<close> only the first is kept.\<close>

theorem gen_best_keeps_fastest:
  assumes "\<forall>rc \<in> set lines. best_ok loads rc"
  shows "\<exists>ds. for_gen_best loads dag ''v100'' lines = Inr ds \<and> for_gen_best loads dag ''i7'' lines = Inr (take 1 ds) \<and>
     length ds = card (sketch_of ` {rc \<in> set lines. fast rc}) \<and>
     (\<forall>rc \<in> set lines. fast rc \<longrightarrow> (\<exists>x \<in> set ds. \<exists>rc' \<in> set lines. sketch_of rc' = sketch_of rc \<and>
        da_line x = ln_text rc' \<and> da_latency x = lat_of rc' \<and> lat_of rc' \<le> lat_of rc)) \<and>
     sorted_wrt (\<lambda>x y. da_labels y \<le> da_labels x) ds \<and>
     (ds \<noteq> [] \<longrightarrow> da_labels (hd ds) = 1 \<and> (\<forall>rc \<in> set lines. fast rc \<longrightarrow> da_latency (hd ds) \<le> lat_of rc))"
proof -
  obtain m d where inv: "best_dict_inv loads dag lines (m, d)" and run: "\<And>pl. for_gen_best loads dag pl lines =
      (if pl = ''i7'' then Inr (take 1 (best_list m d)) else if pl = ''v100'' then Inr (best_list m d) else Inl AssertionError)"
    using best_run[OF assms] by blast
  have "card (fst ` set d) = length d" using inv distinct_card[of "map fst d"] by (simp add: best_dict_inv_def)
  then have len: "length (best_list m d) = card (sketch_of ` {rc \<in> set lines. fast rc})"
    using inv by (simp add: best_list_def best_dict_inv_def)
  have "sorted (map (\<lambda>x. - da_labels x) (best_list m d))" by (simp add: best_list_def)
  then have falling: "sorted_wrt (\<lambda>x y. da_labels y \<le> da_labels x) (best_list m d)" by (simp add: sorted_map)
  show ?thesis
    by (intro exI[of _ "best_list m d"] conjI ballI impI)
      (use run len falling best_list_covers[OF inv] best_list_head[OF inv assms] in \<open>simp_all, blast+\<close>)
qed

theorem gen_best_keeps_fastest_witness:
  "\<exists>ds. for_gen_best (\<lambda>s. Inr (JString s)) ''dag'' ''v100'' [demo_line ''a'' [5], demo_line ''b'' [1, 3]] = Inr ds \<and>
     length ds = 1 \<and> da_latency (hd ds) \<le> 2"
proof -
  have masked: "masked (demo_line k cs) = [\<lparr>stp_tag = ''SP'', stp_args = [JInt 0, JInt 1, JInt 8, JArray [JInt 1, JInt 1], JInt 1]\<rparr>,
                 \<lparr>stp_tag = ''PPT'', stp_args = []\<rparr>]" for k cs
    by (simp add: masked_def demo_line_def mask_step_def py_nth_def)
  have sk: "sketch_of (demo_line k cs) = masked (demo_line k cs)" for k cs by (simp add: sketch_of_def masked)
  let ?L = "[demo_line ''a'' [5], demo_line ''b'' [1, 3]]"
  have ok: "\<forall>rc \<in> set ?L. best_ok (\<lambda>s. Inr (JString s)) rc"
    by (simp add: best_ok_def demo_line_ok costs_ok_def masked)
  have lats: "lat_of (demo_line ''a'' [5]) = 5" "lat_of (demo_line ''b'' [1, 3]) = 2"
    by (simp_all add: lat_of_def demo_line_def)
  have fasts: "fast (demo_line ''a'' [5])" "fast (demo_line ''b'' [1, 3])" by (simp_all add: fast_def lats no_latency_def)
  then have "{rc \<in> set ?L. fast rc} = {demo_line ''a'' [5], demo_line ''b'' [1, 3]}" by auto
  then have "sketch_of ` {rc \<in> set ?L. fast rc} = {masked (demo_line [] [])}" by (simp add: sk masked)
  then have one: "card (sketch_of ` {rc \<in> set ?L. fast rc}) = 1" by simp
  obtain ds where ds: "for_gen_best (\<lambda>s. Inr (JString s)) ''dag'' ''v100'' ?L = Inr ds"
    "length ds = card (sketch_of ` {rc \<in> set ?L. fast rc})"
    "ds \<noteq> [] \<longrightarrow> (\<forall>rc \<in> set ?L. fast rc \<longrightarrow> da_latency (hd ds) \<le> lat_of rc)"
    using gen_best_keeps_fastest[OF ok, of "''dag''"] by blast
  have "ds \<noteq> []" using ds(2) one by auto
  with ds(3) fasts(2) have "da_latency (hd ds) \<le> 2" by (auto simp: lats(2)[symmetric])
  with ds(1,2) one show ?thesis by auto
qed

text \<open>On any other platform \<^verbatim>\<open>for_gen_best\<close> fails the final assertion for all accepted lines, although
  \<^verbatim>\<open>register_data_path\<close> accepts \<^verbatim>\<open>a100\<close> and \<^verbatim>\<open>2080\<close> and \<^verbatim>\<open>run.py\<close> drives \<^verbatim>\<open>2080\<close> through it.\<close>

theorem gen_best_other_platform_raises:
  assumes "\<forall>rc \<in> set lines. best_ok loads rc" "platform \<notin> {''i7'', ''v100''}"
  shows "for_gen_best loads dag platform lines = Inl AssertionError"
  using best_run[OF assms(1), of dag] assms(2) by (metis insertCI)

theorem gen_best_other_platform_raises_witness:
  "for_gen_best (\<lambda>s. Inr (JString s)) ''dag'' ''2080'' [] = Inl AssertionError"
  using gen_best_other_platform_raises[of "[]" "\<lambda>s. Inr (JString s)" "''2080''" "''dag''"] by simp

section \<open>File selection\<close>

lemma remove_loop_none:
  "\<forall>f \<in> set (drop i files). basename f \<noteq> basename out \<Longrightarrow> remove_loop out i files = files"
proof (induction out i files rule: remove_loop.induct)
  case (1 out i files)
  show ?case
  proof (cases "i < length files")
    case True
    then have "drop i files = files ! i # drop (Suc i) files" by (simp add: Cons_nth_drop_Suc)
    moreover from this have "basename out \<noteq> basename (files ! i)" using 1(2) by auto
    ultimately show ?thesis using 1 True by (simp add: remove_loop.simps[of out i])
  qed (simp add: remove_loop.simps)
qed

lemma remove1_nth: "distinct xs \<Longrightarrow> i < length xs \<Longrightarrow> remove1 (xs ! i) xs = take i xs @ drop (Suc i) xs"
proof -
  assume d: "distinct xs" "i < length xs"
  have "remove1 (xs ! i) xs = remove1 (xs ! i) (take i xs @ xs ! i # drop (Suc i) xs)"
    using d(2) by (simp add: id_take_nth_drop[symmetric])
  moreover have "xs ! i \<notin> set (take i xs)" using d by (auto simp: in_set_conv_nth nth_eq_iff_index_eq)
  ultimately show ?thesis by (simp add: remove1_append)
qed

lemma remove_loop_filter:
  "distinct (map basename files) \<Longrightarrow>
   remove_loop out i files = take i files @ filter (\<lambda>f. basename f \<noteq> basename out) (drop i files)"
proof (induction out i files rule: remove_loop.induct)
  case (1 out i files)
  show ?case
  proof (cases "i < length files \<and> basename out = basename (files ! i)")
    case True
    let ?f = "files ! i"
    have split: "files = take i files @ ?f # drop (Suc i) files" using True by (simp add: id_take_nth_drop)
    have "distinct (map basename (take i files @ ?f # drop (Suc i) files))" using 1(2) split by simp
    then have other: "\<forall>f \<in> set (take i files) \<union> set (drop (Suc i) files). basename f \<noteq> basename out"
      using True by (simp add: ball_Un) (metis image_eqI)
    have rem: "remove1 ?f files = take i files @ drop (Suc i) files"
      using 1(2) True by (intro remove1_nth) (simp_all add: distinct_map)
    have "remove_loop out (Suc i) (take i files @ drop (Suc i) files) = take i files @ drop (Suc i) files"
    proof (rule remove_loop_none)
      have "set (drop (Suc i) (take i files @ drop (Suc i) files)) \<subseteq> set (drop (Suc i) files)"
        using True by (simp add: set_drop_subset_set_drop)
      with other show "\<forall>f \<in> set (drop (Suc i) (take i files @ drop (Suc i) files)). basename f \<noteq> basename out" by blast
    qed
    moreover have "filter (\<lambda>f. basename f \<noteq> basename out) (drop i files) = drop (Suc i) files"
      using True other by (simp add: Cons_nth_drop_Suc[symmetric] filter_id_conv)
    ultimately show ?thesis using True rem by (simp add: remove_loop.simps[of out i])
  next
    case False
    with 1 show ?thesis
      by (cases "i < length files")
        (auto simp: remove_loop.simps[of out i] Cons_nth_drop_Suc[symmetric] take_Suc_conv_app_nth)
  qed
qed

text \<open>Dropping the held-out files by \<^verbatim>\<open>files.remove\<close> while iterating over \<^verbatim>\<open>files\<close> gives what the set-based
  selection of the sketch modes gives, for files of distinct names: the two selections partition the data set.\<close>

theorem hold_out_is_filter:
  assumes "distinct (map basename files)"
  shows "hold_out outs files = not_held_out outs files \<and>
     (\<forall>f. f \<in> set files \<longleftrightarrow> (f \<in> set (hold_out outs files)) \<noteq> (f \<in> set (only_held_out outs files)))"
proof -
  have "hold_out outs files = not_held_out outs files" using assms
  proof (induction outs arbitrary: files)
    case (Cons out outs)
    have "remove_loop out 0 files = filter (\<lambda>f. basename f \<noteq> basename out) files"
      using remove_loop_filter[OF Cons.prems, of out 0] by simp
    moreover have "distinct (map basename (filter (\<lambda>f. basename f \<noteq> basename out) files))"
      using Cons.prems by (simp add: distinct_map_filter)
    ultimately show ?case using Cons.IH by (simp add: hold_out_def not_held_out_def conj_commute)
  qed (simp add: hold_out_def not_held_out_def)
  then show ?thesis by (auto simp: not_held_out_def only_held_out_def)
qed

theorem hold_out_is_filter_witness:
  "hold_out [''x/b''] [''d/a'', ''d/b'', ''d/c''] = [''d/a'', ''d/c'']"
  using hold_out_is_filter[of "[''d/a'', ''d/b'', ''d/c'']" "[''x/b'']"]
  by (simp add: basename_def not_held_out_def)

text \<open>Two files of the same name in a row make the loop keep the second one.\<close>

theorem hold_out_skips_duplicates:
  "hold_out [''a''] [''x/a'', ''y/a''] = [''y/a''] \<and> not_held_out [''a''] [''x/a'', ''y/a''] = []"
  by (simp add: hold_out_def not_held_out_def remove_loop.simps basename_def)

definition single_round :: "nat \<Rightarrow> nat \<Rightarrow> 'a \<Rightarrow> 'a multiset" where
  "single_round n j f = mset (if n mod 4 = j mod 4 then [f] else [])"

lemma one_round: "single_round n k f + single_round n (k + 1) f + single_round n (k + 2) f + single_round n (k + 3) f = {#f#}"
proof -
  have "(k + 1) mod 4 = (k mod 4 + 1) mod 4" "(k + 2) mod 4 = (k mod 4 + 2) mod 4" "(k + 3) mod 4 = (k mod 4 + 3) mod 4"
    by (simp_all add: mod_simps)
  moreover have "k mod 4 < 4" "n mod 4 < 4" by simp_all
  then have "k mod 4 = 0 \<or> k mod 4 = 1 \<or> k mod 4 = 2 \<or> k mod 4 = 3"
    "n mod 4 = 0 \<or> n mod 4 = 1 \<or> n mod 4 = 2 \<or> n mod 4 = 3" by linarith+
  ultimately show ?thesis unfolding single_round_def by (elim disjE) simp_all
qed

text \<open>Four consecutive rounds of \<^verbatim>\<open>FOR_GEN_TRAIN_SKETCH\<close> cover the training files, each exactly once.\<close>

theorem quarters_partition:
  "mset (quarter k files) + mset (quarter (k + 1) files) + mset (quarter (k + 2) files) + mset (quarter (k + 3) files)
     = mset files"
proof (induction files rule: rev_induct)
  case (snoc f files)
  have last_item: "quarter j (files @ [f]) = quarter j files @ (if length files mod 4 = j mod 4 then [f] else [])" for j
    by (simp add: quarter_def enumerate_append_eq)
  have "mset (quarter k (files @ [f])) + mset (quarter (k + 1) (files @ [f])) + mset (quarter (k + 2) (files @ [f])) +
      mset (quarter (k + 3) (files @ [f])) = mset files +
      (single_round (length files) k f + single_round (length files) (k + 1) f + single_round (length files) (k + 2) f +
       single_round (length files) (k + 3) f)"
    unfolding last_item mset_append snoc[symmetric] single_round_def by (simp only: ac_simps)
  then show ?case by (simp only: one_round) simp
qed (simp add: quarter_def)

end
