(* ===== verification/TLM_Common.thy ===== *)
theory TLM_Common
  imports TLM_Data
begin

text \<open>
  The shared helpers of the language model scripts: \<^verbatim>\<open>gen/common.py\<close> with the data folders of a
  hardware platform, the file names derived from a task and the held-out tasks, and
  \<^verbatim>\<open>gen/utils.py\<close> with the lists of measured files kept in \<^verbatim>\<open>utils.json\<close>. Python values that are
  printed into file names are the type \<open>pyobj\<close>, pickled task files and \<^verbatim>\<open>glob\<close> are arguments.
\<close>

section \<open>Printing values\<close>

datatype pyobj =
    PStr string
  | PInt int
  | PTuple "pyobj list"
  | PList "pyobj list"
  | PKind string

definition hex_digit :: "nat \<Rightarrow> char" where
  "hex_digit n = char_of (if n < 10 then 48 + n else 87 + n)"

text \<open>\<^verbatim>\<open>repr\<close> of a string of ASCII characters.\<close>

definition repr_char :: "char \<Rightarrow> char \<Rightarrow> string" where
  "repr_char q c =
     (let n = of_char c :: nat in
      if c = CHR 0x5C \<or> c = q then [CHR 0x5C, c]
      else if c = CHR 0x0A then [CHR 0x5C, CHR ''n'']
      else if c = CHR 0x0D then [CHR 0x5C, CHR ''r'']
      else if c = CHR 0x09 then [CHR 0x5C, CHR ''t'']
      else if n < 32 \<or> n = 127 then [CHR 0x5C, CHR ''x'', hex_digit (n div 16), hex_digit (n mod 16)]
      else [c])"

definition repr_string :: "string \<Rightarrow> string" where
  "repr_string s =
     (let q = (if CHR 0x27 \<in> set s \<and> CHR 0x22 \<notin> set s then CHR 0x22 else CHR 0x27) in
        [q] @ concat (map (repr_char q) s) @ [q])"

fun join_with :: "string \<Rightarrow> string list \<Rightarrow> string" where
  "join_with sep [] = []"
| "join_with sep [t] = t"
| "join_with sep (t # u # ts) = t @ sep @ join_with sep (u # ts)"

fun py_repr :: "pyobj \<Rightarrow> string" where
  "py_repr (PStr s) = repr_string s"
| "py_repr (PInt i) = show_int i"
| "py_repr (PTuple xs) = ''('' @ join_with '', '' (map py_repr xs) @ (if length xs = 1 then '',)'' else '')'')"
| "py_repr (PList xs) = ''['' @ join_with '', '' (map py_repr xs) @ '']''"
| "py_repr (PKind s) = s"

fun py_str :: "pyobj \<Rightarrow> string" where
  "py_str (PStr s) = s"
| "py_str x = py_repr x"

definition clean_name :: "pyobj \<Rightarrow> string" where
  "clean_name x = py_replace [CHR 0x27] [] (py_replace [CHR 0x22] [] (py_replace '' '' [] (py_str x)))"

section \<open>Folders and file names\<close>

record data_paths =
  dp_network_info :: "string option"
  dp_to_measure :: "string option"
  dp_measure_record :: "string option"
  dp_platform :: "string option"

definition no_paths :: data_paths where
  "no_paths = \<lparr>dp_network_info = None, dp_to_measure = None, dp_measure_record = None, dp_platform = None\<rparr>"

text \<open>\<^verbatim>\<open>sub in s\<close>.\<close>

fun py_in :: "string \<Rightarrow> string \<Rightarrow> bool" where
  "py_in sub [] = (sub = [])"
| "py_in sub (c # s) = (is_prefix sub (c # s) \<or> py_in sub s)"

definition model_list :: "string list" where
  "model_list = [''i7'', ''v100'', ''a100'', ''2080'', ''None'']"

definition register_data_path :: "string \<Rightarrow> (data_paths, unit) st" where
  "register_data_path target_str =
     (let model = (case find (\<lambda>m. py_in m target_str) model_list of Some m \<Rightarrow> m | None \<Rightarrow> List.last model_list) in
      if model = ''None'' then liftS (Inl AssertionError)
      else modifyS (\<lambda>p. p\<lparr>dp_network_info := Some (''dataset/network_info/'' @ model),
                          dp_to_measure := Some (''dataset/to_measure_programs/'' @ model),
                          dp_measure_record := Some (''dataset/measure_records/'' @ model),
                          dp_platform := Some model\<rparr>))"

definition the_folder :: "string option \<Rightarrow> string py" where
  "the_folder f = (case f of None \<Rightarrow> Inl AssertionError | Some x \<Rightarrow> Inr x)"

definition get_relay_ir_filename :: "data_paths \<Rightarrow> pyobj \<Rightarrow> string py" where
  "get_relay_ir_filename p network_key =
     bindE (the_folder (dp_network_info p)) (\<lambda>d. Inr (d @ ''/'' @ clean_name network_key @ ''.relay.pkl''))"

definition get_task_info_filename :: "data_paths \<Rightarrow> pyobj \<Rightarrow> string \<Rightarrow> string py" where
  "get_task_info_filename p network_key kind =
     bindE (the_folder (dp_network_info p)) (\<lambda>d.
       Inr (d @ ''/'' @ clean_name (PTuple [network_key, PStr kind]) @ ''.task.pkl''))"

definition load_tasks_path :: "(string \<Rightarrow> string list) \<Rightarrow> data_paths \<Rightarrow> string \<Rightarrow> string list py" where
  "load_tasks_path glob p kind =
     bindE (the_folder (dp_network_info p)) (\<lambda>d. Inr (glob (d @ ''/*'' @ kind @ ''*.pkl'')))"

record search_task =
  tk_workload_key :: string
  tk_target_kind :: string

text \<open>The registry of workloads (\<^verbatim>\<open>WORKLOAD_FUNC_REGISTRY\<close>), filled with the tensors of all tasks.\<close>

definition load_and_register_tasks ::
    "(string \<Rightarrow> search_task list) \<Rightarrow> (search_task \<Rightarrow> 't) \<Rightarrow> data_paths \<Rightarrow> ((string, 't) dict, search_task list) st" where
  "load_and_register_tasks load tensors p =
     bindS (liftS (the_folder (dp_network_info p))) (\<lambda>d.
       let tasks = load (d @ ''/all_tasks.pkl'') in
       bindS (modifyS (fold (\<lambda>t. AList.update (tk_workload_key t) (tensors t)) tasks)) (\<lambda>_. returnS tasks))"

definition task_key :: "string \<Rightarrow> string \<Rightarrow> pyobj" where
  "task_key key kind = PTuple [PStr key, PStr kind]"

definition get_to_measure_filename :: "data_paths \<Rightarrow> search_task \<Rightarrow> string py" where
  "get_to_measure_filename p task =
     bindE (the_folder (dp_to_measure p)) (\<lambda>d.
       Inr (d @ ''/'' @ clean_name (task_key (tk_workload_key task) (tk_target_kind task)) @ ''.json''))"

definition get_measure_record_filename :: "data_paths \<Rightarrow> search_task \<Rightarrow> string option \<Rightarrow> string py" where
  "get_measure_record_filename p task kind =
     bindE (the_folder (dp_measure_record p)) (\<lambda>d.
       let kind = (case kind of Some k \<Rightarrow> k | None \<Rightarrow> tk_target_kind task) in
         Inr (d @ ''/'' @ clean_name (task_key (tk_workload_key task) kind) @ ''.json''))"

definition hold_out_networks :: "bool \<Rightarrow> (string \<times> int list) list" where
  "hold_out_networks only_bert =
     (if only_bert then [(''bert_base'', [1, 128])]
      else [(''resnet_50'', [1, 3, 224, 224]), (''mobilenet_v2'', [1, 3, 224, 224]), (''resnext_50'', [1, 3, 224, 224]),
            (''bert_base'', [1, 128]), (''bert_tiny'', [1, 128]), (''densenet_121'', [8, 3, 256, 256]),
            (''bert_large'', [4, 256]), (''wide_resnet_50'', [8, 3, 256, 256]),
            (''resnet3d_18'', [4, 3, 144, 144, 16]), (''dcgan'', [8, 3, 64, 64])])"

definition hold_out_task_files :: "data_paths \<Rightarrow> string \<Rightarrow> bool \<Rightarrow> (string, string) dict py" where
  "hold_out_task_files p kind only_bert =
     mapE (\<lambda>(name, shape). bindE (get_task_info_filename p (PTuple [PStr name, PList (map PInt shape)]) kind)
            (\<lambda>f. Inr (name, f))) (hold_out_networks only_bert)"

definition yield_hold_out_five_files ::
    "(string \<Rightarrow> (search_task \<times> rat) list) \<Rightarrow> data_paths \<Rightarrow> string \<Rightarrow> bool \<Rightarrow> (string \<times> search_task \<times> string \<times> rat) list py" where
  "yield_hold_out_five_files load p kind only_bert =
     bindE (hold_out_task_files p kind only_bert) (\<lambda>files.
     bindE (mapE (\<lambda>(workload, file). mapE (\<lambda>(task, weight).
              bindE (get_measure_record_filename p task (Some kind)) (\<lambda>f. Inr (workload, task, f, weight))) (load file)) files)
       (\<lambda>xss. Inr (concat xss)))"

definition get_hold_out_five_files ::
    "(string \<Rightarrow> (search_task \<times> rat) list) \<Rightarrow> data_paths \<Rightarrow> string \<Rightarrow> string list py" where
  "get_hold_out_five_files load p kind =
     bindE (yield_hold_out_five_files load p kind False) (\<lambda>its. Inr (sorted_list_of_set (set (map (\<lambda>it. fst (snd (snd it))) its))))"

definition get_bert_files ::
    "(string \<Rightarrow> (search_task \<times> rat) list) \<Rightarrow> data_paths \<Rightarrow> string \<Rightarrow> string list py" where
  "get_bert_files load p kind =
     bindE (yield_hold_out_five_files load p kind True) (\<lambda>its. Inr (sorted_list_of_set (set (map (\<lambda>it. fst (snd (snd it))) its))))"

section \<open>The lists of measured files\<close>

type_synonym utils_dict = "(string, (string, string list) dict) dict"

record utils_state =
  us_file :: "utils_dict option"
  us_json :: utils_dict

definition get_utils_json :: "string option \<Rightarrow> string \<Rightarrow> (utils_state, string list) st" where
  "get_utils_json platform key = (case platform of
     None \<Rightarrow> liftS (Inl AssertionError)
   | Some pl \<Rightarrow>
       bindS (modifyS (\<lambda>s. s\<lparr>us_json := (case us_file s of Some j \<Rightarrow> j | None \<Rightarrow> [])\<rparr>)) (\<lambda>_.
       bindS (modifyS (\<lambda>s. if pl \<in> fst ` set (us_json s) then s else s\<lparr>us_json := AList.update pl [] (us_json s)\<rparr>)) (\<lambda>_.
       bindS (getS us_json) (\<lambda>j.
       bindS (liftS (dict_get j pl)) (\<lambda>d.
       bindS (if key = [] \<or> key \<in> fst ` set d then returnS ()
              else modifyS (\<lambda>s. s\<lparr>us_json := AList.update pl (AList.update key [] d) j\<rparr>)) (\<lambda>_.
       bindS (getS us_json) (\<lambda>j.
       bindS (liftS (dict_get j pl)) (\<lambda>d. liftS (dict_get d key)))))))))"

definition save_utils_json :: "(utils_state, unit) st" where
  "save_utils_json = modifyS (\<lambda>s. s\<lparr>us_file := Some (us_json s)\<rparr>)"

text \<open>The three pairs of functions that add a file to a list and return a list differ in the key only.\<close>

definition add_file :: "string option \<Rightarrow> string \<Rightarrow> string \<Rightarrow> (utils_state, unit) st" where
  "add_file platform key file =
     bindS (get_utils_json platform key) (\<lambda>tmp_list.
     bindS (if file \<in> set tmp_list then returnS ()
            else modifyS (\<lambda>s. s\<lparr>us_json := map (\<lambda>(pl, d). if Some pl = platform
              then (pl, AList.update key (tmp_list @ [file]) d) else (pl, d)) (us_json s)\<rparr>)) (\<lambda>_.
       save_utils_json))"

definition add_finetuning_files :: "string option \<Rightarrow> string \<Rightarrow> (utils_state, unit) st" where
  "add_finetuning_files platform file = add_file platform ''finetuning_files'' file"

definition get_finetuning_files :: "string option \<Rightarrow> (utils_state, string list) st" where
  "get_finetuning_files platform = get_utils_json platform ''finetuning_files''"

definition add_test_files :: "string option \<Rightarrow> string \<Rightarrow> (utils_state, unit) st" where
  "add_test_files platform file = add_file platform ''test_files'' file"

definition get_test_files :: "string option \<Rightarrow> (utils_state, string list) st" where
  "get_test_files platform = get_utils_json platform ''test_files''"

definition add_testtuning_files :: "string option \<Rightarrow> string \<Rightarrow> (utils_state, unit) st" where
  "add_testtuning_files platform file = add_file platform ''testtuning_files'' file"

definition get_testtuning_files :: "string option \<Rightarrow> (utils_state, string list) st" where
  "get_testtuning_files platform = get_utils_json platform ''testtuning_files''"

section \<open>Names\<close>

lemma py_replace_char: "py_replace [c] [] s = filter (\<lambda>x. x \<noteq> c) s"
proof (induction s)
  case (Cons x s)
  then show ?case by (simp add: py_replace.simps[of "[c]" "[]" "x # s"] is_prefix_def)
qed (simp add: py_replace.simps)

lemma clean_name_filter: "clean_name x = filter (\<lambda>c. c \<notin> {CHR '' '', CHR 0x22, CHR 0x27}) (py_str x)"
  by (simp add: clean_name_def py_replace_char conj_ac)

lemma basename_id: "CHR ''/'' \<notin> set x \<Longrightarrow> basename x = x"
proof -
  assume "CHR ''/'' \<notin> set x"
  then have "takeWhile (\<lambda>c. c \<noteq> CHR ''/'') (rev x) = rev x" by (intro takeWhile_eq_all_conv[THEN iffD2]) auto
  then show ?thesis unfolding basename_def by (simp only: rev_rev_ident)
qed

lemma basename_folder: "basename (d @ ''/'' @ x) = basename x"
proof (cases "CHR ''/'' \<in> set x")
  case True
  then have "takeWhile (\<lambda>c. c \<noteq> CHR ''/'') (rev x @ ''/'' @ rev d) = takeWhile (\<lambda>c. c \<noteq> CHR ''/'') (rev x)"
    by (intro takeWhile_append1[of "CHR ''/''"]) simp_all
  then show ?thesis by (simp add: basename_def)
next
  case False
  then have "takeWhile (\<lambda>c. c \<noteq> CHR ''/'') (rev x @ ''/'' @ rev d) = rev x"
    by (subst takeWhile_append2) auto
  then have "basename (d @ ''/'' @ x) = x" unfolding basename_def rev_append by simp
  with basename_id[OF False] show ?thesis by simp
qed

lemma hex_digit_no_slash: "n < 16 \<Longrightarrow> hex_digit n \<noteq> CHR ''/''"
proof
  assume n: "n < 16" and eq: "hex_digit n = CHR ''/''"
  have "of_char (hex_digit n) = (if n < 10 then 48 + n else 87 + n)" using n by (simp add: hex_digit_def)
  moreover have "of_char (CHR ''/'') = (47 :: nat)" by simp
  ultimately show False using eq by (simp split: if_splits)
qed

lemma repr_char_no_slash:
  assumes "c \<noteq> CHR ''/''" "q \<noteq> CHR ''/''"
  shows "CHR ''/'' \<notin> set (repr_char q c)"
proof -
  define n :: nat where "n = of_char c"
  have low: "CHR ''/'' \<noteq> hex_digit (n mod 16)" using hex_digit_no_slash[of "n mod 16"] by simp
  have high: "CHR ''/'' \<noteq> hex_digit (n div 16)" if "n < 32 \<or> n = 127"
  proof -
    have "n < 16 * 16" using that by linarith
    then have "n div 16 < 16" by (rule less_mult_imp_div_less)
    then show ?thesis by (rule hex_digit_no_slash[symmetric])
  qed
  show ?thesis unfolding repr_char_def Let_def n_def[symmetric] using assms low high by simp
qed

lemma repr_no_slash: "CHR ''/'' \<notin> set s \<Longrightarrow> CHR ''/'' \<notin> set (repr_string s)"
proof -
  assume s: "CHR ''/'' \<notin> set s"
  define q where "q = (if CHR 0x27 \<in> set s \<and> CHR 0x22 \<notin> set s then CHR 0x22 else CHR 0x27)"
  have q: "q \<noteq> CHR ''/''" by (simp add: q_def)
  have "CHR ''/'' \<notin> set (repr_char q c)" if "c \<in> set s" for c
    by (rule repr_char_no_slash) (use s that q in auto)
  then show ?thesis using q unfolding repr_string_def q_def[symmetric] Let_def by auto
qed

lemma clean_task_no_slash:
  "CHR ''/'' \<notin> set k \<Longrightarrow> CHR ''/'' \<notin> set kind \<Longrightarrow> CHR ''/'' \<notin> set (clean_name (task_key k kind))"
  using repr_no_slash[of k] repr_no_slash[of kind] by (simp add: clean_name_filter task_key_def)

lemma record_basename:
  assumes "CHR ''/'' \<notin> set key" "CHR ''/'' \<notin> set kind"
  shows "basename (d @ ''/'' @ clean_name (task_key key kind) @ ''.json'') = clean_name (task_key key kind) @ ''.json''"
  unfolding basename_folder using clean_task_no_slash[OF assms] by (intro basename_id) simp

text \<open>A task whose workload key can be a file name on the given target.\<close>

definition plain_task :: "string \<Rightarrow> search_task \<Rightarrow> bool" where
  "plain_task kind t \<longleftrightarrow> CHR ''/'' \<notin> set (tk_workload_key t) \<and> tk_target_kind t = kind"

lemma mapE_mem:
  assumes "mapE f xs = Inr ys" "y \<in> set ys"
  obtains x where "x \<in> set xs" "f x = Inr y"
proof -
  obtain i where i: "i < length ys" "ys ! i = y" using assms(2) by (auto simp: in_set_conv_nth)
  then have "i < length xs" "f (xs ! i) = Inr y"
    using assms(1) list_all2_nthD2[of "\<lambda>x y. f x = Inr y" xs ys i] by (auto simp: mapE_Inr_iff list_all2_lengthD)
  then show thesis by (intro that[of "xs ! i"]) simp_all
qed

lemma mapE_filter:
  "mapE f xs = Inr ys \<Longrightarrow> (\<And>x y. x \<in> set xs \<Longrightarrow> f x = Inr y \<Longrightarrow> P x \<longleftrightarrow> Q y) \<Longrightarrow>
   mapE f (filter P xs) = Inr (filter Q ys)"
proof (induction xs arbitrary: ys)
  case (Cons x xs)
  then obtain y zs where y: "f x = Inr y" "mapE f xs = Inr zs" "ys = y # zs" by auto
  have "mapE f (filter P xs) = Inr (filter Q zs)" using Cons.IH[OF y(2)] Cons.prems(2) by simp
  moreover have "P x \<longleftrightarrow> Q y" using Cons.prems(2)[of x y] y(1) by simp
  ultimately show ?case using y by simp
qed simp

lemma record_files:
  assumes "CHR ''/'' \<notin> set kind" "yield_hold_out_five_files load p kind only_bert = Inr its"
    "\<forall>it \<in> set its. plain_task kind (fst (snd it))"
  shows "\<forall>it \<in> set its. basename (fst (snd (snd it))) = clean_name (task_key (tk_workload_key (fst (snd it))) kind) @ ''.json''"
proof
  fix it assume it: "it \<in> set its"
  obtain files xss where xss: "mapE (\<lambda>(workload, file). mapE (\<lambda>(task, weight).
      bindE (get_measure_record_filename p task (Some kind)) (\<lambda>f. Inr (workload, task, f, weight))) (load file)) files = Inr xss"
    "its = concat xss"
    using assms(2) by (auto simp: yield_hold_out_five_files_def)
  obtain xs where xs: "xs \<in> set xss" "it \<in> set xs" using it xss(2) by auto
  obtain wf where "(case wf of (workload, file) \<Rightarrow> mapE (\<lambda>(task, weight).
      bindE (get_measure_record_filename p task (Some kind)) (\<lambda>f. Inr (workload, task, f, weight))) (load file)) = Inr xs"
    using mapE_mem[OF xss(1) xs(1)] .
  then have "mapE (\<lambda>(task, weight).
      bindE (get_measure_record_filename p task (Some kind)) (\<lambda>f. Inr (fst wf, task, f, weight))) (load (snd wf)) = Inr xs"
    by (simp add: case_prod_unfold)
  then obtain tw where "(case tw of (task, weight) \<Rightarrow>
      bindE (get_measure_record_filename p task (Some kind)) (\<lambda>f. Inr (fst wf, task, f, weight))) = Inr it"
    using xs(2) by (rule mapE_mem)
  then obtain d where "fst (snd (snd it)) = d @ ''/'' @ clean_name (task_key (tk_workload_key (fst (snd it))) kind) @ ''.json''"
    by (cases tw) (auto simp: get_measure_record_filename_def)
  moreover have "CHR ''/'' \<notin> set (tk_workload_key (fst (snd it)))" using assms(3) it by (simp add: plain_task_def)
  ultimately show "basename (fst (snd (snd it))) = clean_name (task_key (tk_workload_key (fst (snd it))) kind) @ ''.json''"
    using record_basename[OF _ assms(1)] by metis
qed

text \<open>C27: the held-out tasks are recognised in the folder of unmeasured programs. The record files of the held-out
  networks and the program files of all tasks lie in different folders; comparing base names keeps exactly the
  programs of the tasks whose cleaned key is not the one of a held-out task.\<close>

theorem hold_out_by_task:
  assumes "CHR ''/'' \<notin> set kind"
    "yield_hold_out_five_files load p kind False = Inr its" "get_hold_out_five_files load p kind = Inr outs"
    "mapE (get_to_measure_filename p) tasks = Inr files"
    "\<forall>t \<in> set tasks. plain_task kind t" "\<forall>it \<in> set its. plain_task kind (fst (snd it))"
  shows "\<exists>kept. mapE (get_to_measure_filename p) (filter (\<lambda>t. \<forall>it \<in> set its.
       clean_name (task_key (tk_workload_key t) kind) \<noteq> clean_name (task_key (tk_workload_key (fst (snd it))) kind)) tasks) = Inr kept \<and>
     not_held_out outs files = kept"
proof -
  let ?name = "\<lambda>t. clean_name (task_key (tk_workload_key t) kind) @ ''.json''"
  have outs: "basename ` set outs = (\<lambda>it. ?name (fst (snd it))) ` set its"
    using record_files[OF assms(1,2,6)] assms(2,3) by (force simp: get_hold_out_five_files_def)
  have fname: "basename f = ?name t" if "get_to_measure_filename p t = Inr f" "t \<in> set tasks" for t f
    using that assms(1,5) record_basename[of "tk_workload_key t" kind]
    by (auto simp: get_to_measure_filename_def plain_task_def)
  have "mapE (get_to_measure_filename p) (filter (\<lambda>t. \<forall>it \<in> set its. ?name t \<noteq> ?name (fst (snd it))) tasks)
      = Inr (not_held_out outs files)"
    unfolding not_held_out_def
  proof (rule mapE_filter[OF assms(4)])
    fix t f assume "t \<in> set tasks" "get_to_measure_filename p t = Inr f"
    then have "basename f = ?name t" using fname by blast
    moreover have "set (map basename outs) = (\<lambda>it. ?name (fst (snd it))) ` set its" using outs by simp
    ultimately show "(\<forall>it \<in> set its. ?name t \<noteq> ?name (fst (snd it))) \<longleftrightarrow> basename f \<notin> set (map basename outs)"
      by (simp only: image_iff bex_simps ball_simps)
  qed
  then show ?thesis by (simp add: append_same_eq)
qed

theorem hold_out_by_task_witness:
  "let p = fst (register_data_path ''llvm -model=i7'' no_paths);
       t = (\<lambda>k. \<lparr>tk_workload_key = k, tk_target_kind = ''llvm''\<rparr>);
       ds = ''dataset/to_measure_programs/i7/'' in
     \<exists>outs files. get_hold_out_five_files (\<lambda>f. [(t ''k'', 1)]) p ''llvm'' = Inr outs \<and>
       mapE (get_to_measure_filename p) [t ''k'', t ''j''] = Inr files \<and> not_held_out outs files = [ds @ ''(j,llvm).json'']"
proof -
  define t where "t = (\<lambda>k. \<lparr>tk_workload_key = k, tk_target_kind = ''llvm''\<rparr>)"
  define p where "p = fst (register_data_path ''llvm -model=i7'' no_paths)"
  have p: "p = \<lparr>dp_network_info = Some ''dataset/network_info/i7'', dp_to_measure = Some ''dataset/to_measure_programs/i7'',
      dp_measure_record = Some ''dataset/measure_records/i7'', dp_platform = Some ''i7''\<rparr>"
    by (simp add: p_def register_data_path_def model_list_def is_prefix_def Let_def no_paths_def)
  let ?load = "\<lambda>f :: string. [(t ''k'', 1)]"
  obtain its where its: "yield_hold_out_five_files ?load p ''llvm'' False = Inr its" and
    ne: "its \<noteq> []" and mem: "\<forall>it \<in> set its. fst (snd it) = t ''k''"
    by (simp add: yield_hold_out_five_files_def hold_out_task_files_def get_task_info_filename_def p the_folder_def
        get_measure_record_filename_def hold_out_networks_def Let_def)
  obtain outs where outs: "get_hold_out_five_files ?load p ''llvm'' = Inr outs" using its by (simp add: get_hold_out_five_files_def)
  obtain files where files: "mapE (get_to_measure_filename p) [t ''k'', t ''j''] = Inr files"
    by (simp add: get_to_measure_filename_def p the_folder_def)
  have plain: "\<forall>x \<in> set [t ''k'', t ''j'']. plain_task ''llvm'' x" "\<forall>it \<in> set its. plain_task ''llvm'' (fst (snd it))"
    using mem by (auto simp: plain_task_def t_def)
  have names: "clean_name (task_key ''k'' ''llvm'') = ''(k,llvm)''" "clean_name (task_key ''j'' ''llvm'') = ''(j,llvm)''"
    by (simp_all add: clean_name_filter task_key_def repr_string_def repr_char_def Let_def)
  have other: "(\<forall>it \<in> set its. clean_name (task_key (tk_workload_key (t k)) ''llvm'') \<noteq>
      clean_name (task_key (tk_workload_key (fst (snd it))) ''llvm'')) \<longleftrightarrow> k = ''j''" if "k \<in> {''k'', ''j''}" for k
    using that names mem ne by (cases its) (auto simp: t_def)
  obtain kept where "mapE (get_to_measure_filename p) (filter (\<lambda>x. \<forall>it \<in> set its.
       clean_name (task_key (tk_workload_key x) ''llvm'') \<noteq> clean_name (task_key (tk_workload_key (fst (snd it))) ''llvm''))
         [t ''k'', t ''j'']) = Inr kept" "not_held_out outs files = kept"
    using hold_out_by_task[OF _ its outs files plain] by auto
  then have "not_held_out outs files = [''dataset/to_measure_programs/i7/'' @ ''(j,llvm).json'']"
    using other[of "''k''"] other[of "''j''"] names
    by (simp add: get_to_measure_filename_def p the_folder_def) (simp add: t_def)
  with outs files show ?thesis unfolding Let_def p_def[symmetric] t_def by blast
qed

section \<open>Recorded files\<close>

definition file_list :: "utils_dict \<Rightarrow> string \<Rightarrow> string \<Rightarrow> string list" where
  "file_list j pl key = (case map_of j pl of None \<Rightarrow> [] | Some d \<Rightarrow> (case map_of d key of None \<Rightarrow> [] | Some l \<Rightarrow> l))"

definition saved :: "utils_state \<Rightarrow> utils_dict" where
  "saved s = (case us_file s of Some j \<Rightarrow> j | None \<Rightarrow> [])"

definition entry_list :: "(string, string list) dict \<Rightarrow> string \<Rightarrow> string list" where
  "entry_list d key = (case map_of d key of None \<Rightarrow> [] | Some l \<Rightarrow> l)"

lemma entry_list_update: "entry_list (AList.update key l d) k = (if k = key then l else entry_list d k)"
  by (simp add: entry_list_def update_conv')

lemma entry_list_absent: "key \<notin> fst ` set d \<Longrightarrow> entry_list d key = []"
  by (simp add: entry_list_def map_of_eq_None_iff[THEN iffD2])

lemma file_list_update: "file_list (AList.update pl d j) pl' k = (if pl' = pl then entry_list d k else file_list j pl' k)"
  by (simp add: file_list_def entry_list_def update_conv')

lemma file_list_absent: "pl \<notin> fst ` set j \<Longrightarrow> file_list j pl k = []"
  by (simp add: file_list_def map_of_eq_None_iff[THEN iffD2])

lemma file_list_present: "map_of j pl = Some d \<Longrightarrow> file_list j pl k = entry_list d k"
  by (simp add: file_list_def entry_list_def)

lemma get_utils:
  assumes "key \<noteq> []"
  shows "\<exists>j d. get_utils_json (Some pl) key s = (s\<lparr>us_json := j\<rparr>, Inr (file_list (saved s) pl key)) \<and>
     map_of j pl = Some d \<and> file_list j = file_list (saved s)"
proof -
  define j0 where "j0 = (if pl \<in> fst ` set (saved s) then saved s else AList.update pl [] (saved s))"
  have same0: "file_list j0 = file_list (saved s)"
  proof (intro ext)
    fix pl' key'
    show "file_list j0 pl' key' = file_list (saved s) pl' key'"
      by (simp add: j0_def file_list_update file_list_absent entry_list_absent)
  qed
  obtain d where d: "map_of j0 pl = Some d"
    using map_of_eq_None_iff[of "saved s" pl] by (cases "map_of (saved s) pl") (auto simp: j0_def update_conv' split: if_splits)
  define j1 where "j1 = (if key \<in> fst ` set d then j0 else AList.update pl (AList.update key [] d) j0)"
  obtain d1 where d1: "map_of j1 pl = Some d1" "d1 = (if key \<in> fst ` set d then d else AList.update key [] d)"
    by (simp add: j1_def d update_conv')
  obtain l where l: "map_of d1 key = Some l"
    using map_of_eq_None_iff[of d key] by (cases "map_of d key") (auto simp: d1(2) update_conv' split: if_splits)
  have same1: "file_list j1 = file_list j0"
  proof (intro ext)
    fix pl' key'
    show "file_list j1 pl' key' = file_list j0 pl' key'"
      by (simp add: j1_def file_list_update file_list_present[OF d] entry_list_update entry_list_absent)
  qed
  have "l = file_list (saved s) pl key" using l unfolding same0[symmetric] same1[symmetric] file_list_present[OF d1(1)] entry_list_def by simp
  moreover have "get_utils_json (Some pl) key s = (s\<lparr>us_json := j1\<rparr>, Inr l)"
    using assms d d1 l
    by (cases "pl \<in> fst ` set (saved s)"; cases "key \<in> fst ` set d")
      (simp_all add: get_utils_json_def bindS_def saved_def[symmetric] j0_def dict_get_def j1_def)
  ultimately show ?thesis using d1(1) same0 same1 by auto
qed

lemma map_of_map_at:
  "map_of (map (\<lambda>(pl', d). if Some pl' = Some pl then (pl', g d) else (pl', d)) j) k =
     (if k = pl then map_option g (map_of j k) else map_of j k)"
  by (induction j) auto

lemma add_file_effect:
  assumes "key \<noteq> []"
  shows "\<exists>s'. add_file (Some pl) key f s = (s', Inr ()) \<and>
     (\<forall>pl' key'. file_list (saved s') pl' key' = (let l = file_list (saved s) pl' key' in
        if pl' = pl \<and> key' = key \<and> f \<notin> set l then l @ [f] else l))"
proof -
  obtain j d where g: "get_utils_json (Some pl) key s = (s\<lparr>us_json := j\<rparr>, Inr (file_list (saved s) pl key))"
    "map_of j pl = Some d" "file_list j = file_list (saved s)"
    using get_utils[OF assms] by blast
  let ?l = "file_list (saved s) pl key"
  show ?thesis
  proof (cases "f \<in> set ?l")
    case True
    then have "add_file (Some pl) key f s = (s\<lparr>us_json := j, us_file := Some j\<rparr>, Inr ())"
      using g(1) by (simp add: add_file_def save_utils_json_def)
    with True g(3) show ?thesis by (auto simp: saved_def[of "s\<lparr>us_json := j, us_file := Some j\<rparr>"] Let_def)
  next
    case False
    let ?j = "map (\<lambda>(pl', d). if Some pl' = Some pl then (pl', AList.update key (?l @ [f]) d) else (pl', d)) j"
    have "add_file (Some pl) key f s = (s\<lparr>us_json := ?j, us_file := Some ?j\<rparr>, Inr ())"
      using False g(1) by (simp add: add_file_def save_utils_json_def)
    moreover have "file_list ?j pl' key' = (if pl' = pl \<and> key' = key then ?l @ [f] else file_list (saved s) pl' key')" for pl' key'
    proof (cases "pl' = pl")
      case True
      then have "map_of ?j pl' = Some (AList.update key (?l @ [f]) d)" using g(2) map_of_map_at[of pl _ j pl'] by simp
      then show ?thesis unfolding g(3)[symmetric] True
        by (simp add: file_list_present[OF g(2)] file_list_present entry_list_update)
    next
      case False
      then show ?thesis unfolding g(3)[symmetric] using map_of_map_at[of pl _ j pl'] by (simp add: file_list_def)
    qed
    ultimately show ?thesis using False by (auto simp: saved_def[of "s\<lparr>us_json := _, us_file := Some _\<rparr>"] Let_def)
  qed
qed

datatype measured_kind = Finetuning | Test | Testtuning

fun add_measured :: "measured_kind \<Rightarrow> string option \<Rightarrow> string \<Rightarrow> (utils_state, unit) st" where
  "add_measured Finetuning = add_finetuning_files"
| "add_measured Test = add_test_files"
| "add_measured Testtuning = add_testtuning_files"

fun get_measured :: "measured_kind \<Rightarrow> string option \<Rightarrow> (utils_state, string list) st" where
  "get_measured Finetuning = get_finetuning_files"
| "get_measured Test = get_test_files"
| "get_measured Testtuning = get_testtuning_files"

fun kind_key :: "measured_kind \<Rightarrow> string" where
  "kind_key Finetuning = ''finetuning_files''"
| "kind_key Test = ''test_files''"
| "kind_key Testtuning = ''testtuning_files''"

lemma measured_key:
  "add_measured k pl f = add_file pl (kind_key k) f" "get_measured k pl = get_utils_json pl (kind_key k)"
  "kind_key k \<noteq> []" "kind_key k = kind_key k' \<longleftrightarrow> k = k'"
  by (cases k; cases k'; simp add: add_finetuning_files_def add_test_files_def add_testtuning_files_def
      get_finetuning_files_def get_test_files_def get_testtuning_files_def)+

primrec add_all :: "(measured_kind \<times> string \<times> string) list \<Rightarrow> (utils_state, unit) st" where
  "add_all [] = returnS ()"
| "add_all (a # as) = bindS (add_measured (fst a) (Some (fst (snd a))) (snd (snd a))) (\<lambda>_. add_all as)"

definition first_added :: "string list \<Rightarrow> string list" where
  "first_added fs = rev (remdups (rev fs))"

lemma add_all_lists:
  "\<exists>s'. add_all as s = (s', Inr ()) \<and> (\<forall>k pl. file_list (saved s') pl (kind_key k) =
     fold (\<lambda>f l. if f \<in> set l then l else l @ [f]) (map (\<lambda>a. snd (snd a)) (filter (\<lambda>a. fst a = k \<and> fst (snd a) = pl) as))
       (file_list (saved s) pl (kind_key k)))"
proof (induction as arbitrary: s)
  case (Cons a as)
  obtain k0 pl0 f where a: "a = (k0, pl0, f)" by (cases a)
  obtain s1 where s1: "add_file (Some pl0) (kind_key k0) f s = (s1, Inr ())"
    "\<forall>pl' key'. file_list (saved s1) pl' key' = (let l = file_list (saved s) pl' key' in
        if pl' = pl0 \<and> key' = kind_key k0 \<and> f \<notin> set l then l @ [f] else l)"
    using add_file_effect[OF measured_key(3)] by blast
  obtain s2 where s2: "add_all as s1 = (s2, Inr ())"
    "\<forall>k pl. file_list (saved s2) pl (kind_key k) =
     fold (\<lambda>f l. if f \<in> set l then l else l @ [f]) (map (\<lambda>a. snd (snd a)) (filter (\<lambda>a. fst a = k \<and> fst (snd a) = pl) as))
       (file_list (saved s1) pl (kind_key k))" using Cons.IH[of s1] by blast
  have "add_all (a # as) s = (s2, Inr ())" using s1(1) s2(1) by (simp add: a measured_key)
  with s1(2) s2(2) show ?case by (intro exI[of _ s2]) (auto simp: a measured_key Let_def)
qed simp

lemma fold_first_added:
  "fold (\<lambda>f l. if f \<in> set l then l else l @ [f]) fs [] = first_added fs"
proof (induction fs rule: rev_induct)
  case (snoc f fs)
  then show ?case by (simp add: first_added_def)
qed (simp add: first_added_def)

text \<open>The lists of \<^verbatim>\<open>utils.json\<close>. Starting without a file, after any sequence of additions each of the three lists
  of each platform holds the files added to it, once each and in the order of their first addition; the lists of
  other platforms and kinds are not touched.\<close>

theorem measured_files_recorded:
  "\<exists>s. add_all as \<lparr>us_file = None, us_json = j\<rparr> = (s, Inr ()) \<and>
     (\<forall>k pl. snd (get_measured k (Some pl) s) =
        Inr (first_added (map (\<lambda>a. snd (snd a)) (filter (\<lambda>a. fst a = k \<and> fst (snd a) = pl) as))))"
proof -
  let ?s = "\<lparr>us_file = None, us_json = j\<rparr>"
  have empty: "file_list (saved ?s) pl key = []" for pl key by (simp add: saved_def file_list_def)
  obtain s where s: "add_all as ?s = (s, Inr ())"
    "\<forall>k pl. file_list (saved s) pl (kind_key k) =
      first_added (map (\<lambda>a. snd (snd a)) (filter (\<lambda>a. fst a = k \<and> fst (snd a) = pl) as))"
    using add_all_lists[of as ?s] unfolding empty fold_first_added by blast
  have "snd (get_measured k (Some pl) s) = Inr (file_list (saved s) pl (kind_key k))" for k pl
    using get_utils[OF measured_key(3)[of k], of pl s] by (auto simp: measured_key)
  with s show ?thesis by auto
qed

end
