(* ===== verification/TLM_Schedule.thy ===== *)
theory TLM_Schedule
  imports TLM_Common
begin

text \<open>
  The task scheduler of the language model, \<^verbatim>\<open>gen/task_sheduler.py\<close>: the best latency of each workload
  per measured file, the score of a workload in a window of its last rounds, the choice of the
  workloads worth another round within the budget of measurements of each network, and the
  selection of the files of the chosen workloads. The histories are lists that all networks share
  and that the loop changes in place; they are threaded through as a dictionary.
\<close>

section \<open>History\<close>

definition mean_cost :: "rat list \<Rightarrow> rat py" where
  "mean_cost costs = py_div (sum_list costs) (of_nat (length costs))"

definition ft_step :: "tlm_line \<Rightarrow> (string, rat \<times> nat) dict \<Rightarrow> (string, rat \<times> nat) dict py" where
  "ft_step rc d =
     bindE (mean_cost (ln_costs rc)) (\<lambda>latency.
       let (m, n) = (case map_of d (ln_workload_key rc) of None \<Rightarrow> (no_latency, 0) | Some mn \<Rightarrow> mn) in
         Inr (AList.update (ln_workload_key rc) (min m latency, n + 1) d))"

definition read_fine_tuning_json :: "tlm_line list \<Rightarrow> (string, rat \<times> nat) dict py" where
  "read_fine_tuning_json lines = foldE ft_step lines []"

record sched_history =
  sh_best :: "(string, rat list) dict"
  sh_times :: "(string, nat) dict"

definition history_entry :: "string \<times> rat \<times> nat \<Rightarrow> sched_history \<Rightarrow> sched_history" where
  "history_entry e h = (case e of (key, val, n) \<Rightarrow>
     let best = (case map_of (sh_best h) key of None \<Rightarrow> [] | Some l \<Rightarrow> l);
         t = (case map_of (sh_times h) key of None \<Rightarrow> 0 | Some t \<Rightarrow> t) in
       h\<lparr>sh_best := AList.update key (best @ [val]) (sh_best h), sh_times := AList.update key (t + n) (sh_times h)\<rparr>)"

definition read_histories :: "tlm_line list list \<Rightarrow> sched_history py" where
  "read_histories files =
     foldE (\<lambda>lines h. bindE (read_fine_tuning_json lines) (\<lambda>d. Inr (fold history_entry d h))) files
       \<lparr>sh_best = [], sh_times = []\<rparr>"

section \<open>Networks\<close>

record sched_model =
  sm_tasks :: "(string, rat) dict"
  sm_times :: nat

definition model_entry :: "sched_history \<Rightarrow> search_task \<times> rat \<Rightarrow> sched_model \<Rightarrow> sched_model py" where
  "model_entry h tw m =
     (let key = tk_workload_key (fst tw) in
      case map_of (sh_times h) key of
        None \<Rightarrow> Inl AssertionError
      | Some t \<Rightarrow> Inr (m\<lparr>sm_tasks := AList.update key (snd tw) (sm_tasks m), sm_times := sm_times m + t\<rparr>))"

definition read_model :: "sched_history \<Rightarrow> (search_task \<times> rat) list \<Rightarrow> sched_model py" where
  "read_model h tws = foldE (model_entry h) tws \<lparr>sm_tasks = [], sm_times = 0\<rparr>"

section \<open>Scores\<close>

fun running_min :: "rat \<Rightarrow> rat list \<Rightarrow> rat list" where
  "running_min m [] = []"
| "running_min m (x # xs) = min x m # running_min (min x m) xs"

fun prefix_min :: "rat list \<Rightarrow> rat list" where
  "prefix_min [] = []"
| "prefix_min (x # xs) = x # running_min x xs"

definition pad_history :: "nat \<Rightarrow> rat list \<Rightarrow> rat list" where
  "pad_history w l = l @ replicate (w - length l) 0"

definition window_score :: "nat \<Rightarrow> rat list \<Rightarrow> rat py" where
  "window_score w l =
     (case drop (length l - w) l of
        [] \<Rightarrow> Inl IndexError
      | x # xs \<Rightarrow> Inr (x - foldl min x xs))"

text \<open>One task: the history in the dictionary is changed, its score in the window is weighted.\<close>

definition score_task ::
    "nat \<Rightarrow> string \<times> rat \<Rightarrow> (string, rat list) dict \<times> (string \<times> rat) list \<Rightarrow> ((string, rat list) dict \<times> (string \<times> rat) list) py" where
  "score_task w kw st = (case kw of (key, weight) \<Rightarrow> case st of (hist, scores) \<Rightarrow>
     bindE (dict_get hist key) (\<lambda>l.
     let l' = pad_history w (prefix_min l) in
     bindE (window_score w l') (\<lambda>s.
       Inr (AList.update key l' hist, scores @ [(key, s * weight)]))))"

definition want_count :: "sched_model \<Rightarrow> int" where
  "want_count m =
     (let c = (int (length (sm_tasks m)) + 3) div 4 in
        min c ((20000 - int (sm_times m) - c * 2 * 64) div 64))"

definition sched_name :: "string \<Rightarrow> string \<Rightarrow> string" where
  "sched_name kind key = clean_name (PTuple [PStr key, PKind kind])"

fun take_names :: "int \<Rightarrow> string \<Rightarrow> string list \<Rightarrow> string list \<Rightarrow> string list" where
  "take_names want kind [] names = names"
| "take_names want kind (key # keys) names =
     (let names' = List.insert (sched_name kind key) names in
        if int (length names') = want then names' else take_names want kind keys names')"

fun windows ::
    "string \<Rightarrow> sched_model \<Rightarrow> nat list \<Rightarrow> (string, rat list) dict \<times> string list \<Rightarrow> ((string, rat list) dict \<times> string list) py" where
  "windows kind m [] st = Inr st"
| "windows kind m (w # ws) (hist, names) =
     bindE (foldE (score_task w) (sm_tasks m) (hist, [])) (\<lambda>(hist', scores).
       let ranked = sort_key (\<lambda>ks. - snd ks) scores; want = want_count m in
       if want \<le> 0 then Inr (hist', names)
       else let names' = take_names want kind (map fst (filter (\<lambda>ks. snd ks > 0) ranked)) names in
         if int (length names') = want then Inr (hist', names') else windows kind m ws (hist', names'))"

definition schedule_model ::
    "string \<Rightarrow> sched_model \<Rightarrow> (string, rat list) dict \<times> string list \<Rightarrow> ((string, rat list) dict \<times> string list) py" where
  "schedule_model kind m st = (case st of (hist, found) \<Rightarrow>
     if sm_tasks m = [] then Inl AssertionError
     else bindE (windows kind m [3..<100] (hist, [])) (\<lambda>(hist', names). Inr (hist', fold List.insert names found)))"

definition schedule_main :: "string \<Rightarrow> tlm_line list list \<Rightarrow> (search_task \<times> rat) list list \<Rightarrow> string list py" where
  "schedule_main kind measured models =
     bindE (read_histories measured) (\<lambda>h.
     bindE (mapE (read_model h) models) (\<lambda>ms.
     bindE (foldE (schedule_model kind) ms (sh_best h, [])) (\<lambda>(hist, found). Inr found)))"

section \<open>Selected files\<close>

text \<open>\<^verbatim>\<open>os.path.splitext(name)[0]\<close> of a base name.\<close>

definition splitext_root :: "string \<Rightarrow> string" where
  "splitext_root b =
     (let r = rev b; root = rev (tl (dropWhile (\<lambda>c. c \<noteq> CHR ''.'') r)) in
      if CHR ''.'' \<notin> set b \<or> list_all (\<lambda>c. c = CHR ''.'') root then b else root)"

text \<open>The state is the stored set of names: \<^verbatim>\<open>find_potential_files\<close> removes the file after reading it.\<close>

definition find_potential_files :: "string list \<Rightarrow> (string list option, string list) st" where
  "find_potential_files files s = (case s of
     None \<Rightarrow> (s, Inl FileNotFoundError)
   | Some names \<Rightarrow> (None, Inr (filter (\<lambda>f. splitext_root (basename f) \<in> set names) files)))"

definition find_potential_files_len :: "(string list option, nat) st" where
  "find_potential_files_len s = (case s of
     None \<Rightarrow> (s, Inl FileNotFoundError)
   | Some names \<Rightarrow> (s, Inr (length names)))"

section \<open>Windows\<close>

text \<open>A history all windows can work with: it starts with a measured latency, and is short enough to be padded.\<close>

definition open_history :: "rat list \<Rightarrow> bool" where
  "open_history l \<longleftrightarrow> l \<noteq> [] \<and> 0 < hd l \<and> (\<forall>x \<in> set l. 0 \<le> x) \<and> (length l < 99 \<or> length l = 99 \<and> List.last l = 0)"

lemma length_running_min [simp]: "length (running_min m xs) = length xs"
  by (induction xs arbitrary: m) auto

lemma length_prefix_min [simp]: "length (prefix_min l) = length l"
  by (cases l) auto

lemma running_min_bounds:
  "0 \<le> m \<Longrightarrow> \<forall>x \<in> set xs. 0 \<le> x \<Longrightarrow> \<forall>y \<in> set (running_min m xs). 0 \<le> y \<and> y \<le> m"
proof (induction xs arbitrary: m)
  case (Cons x xs)
  have "\<forall>y \<in> set (running_min (min x m) xs). 0 \<le> y \<and> y \<le> min x m"
    by (rule Cons.IH) (use Cons.prems in simp_all)
  then have "\<forall>y \<in> set (running_min (min x m) xs). 0 \<le> y \<and> y \<le> m" unfolding min.bounded_iff by blast
  moreover have "0 \<le> min x m \<and> min x m \<le> m" using Cons.prems by simp
  ultimately show ?case by (simp only: running_min.simps list.set ball_simps)
qed simp

lemma last_running_min:
  "0 \<le> m \<Longrightarrow> \<forall>x \<in> set xs. 0 \<le> x \<Longrightarrow> xs \<noteq> [] \<Longrightarrow> List.last xs = 0 \<Longrightarrow> List.last (running_min m xs) = 0"
proof (induction xs arbitrary: m)
  case (Cons x xs)
  show ?case
  proof (cases "xs = []")
    case False
    have "List.last (running_min (min x m) xs) = 0" by (rule Cons.IH) (use Cons.prems False in simp_all)
    moreover have "running_min (min x m) xs \<noteq> []" using False by (metis length_0_conv length_running_min)
    ultimately show ?thesis by simp
  qed (use Cons.prems in simp)
qed simp

lemma prefix_min_open: "open_history l \<Longrightarrow> open_history (prefix_min l)"
proof (cases l)
  case (Cons x xs)
  assume o: "open_history l"
  then have "\<forall>y \<in> set (running_min x xs). 0 \<le> y \<and> y \<le> x" using Cons by (intro running_min_bounds) (auto simp: open_history_def)
  moreover have "List.last (x # running_min x xs) = 0" if "List.last (x # xs) = 0"
    using o Cons that last_running_min[of x xs] by (cases xs) (auto simp: open_history_def)
  ultimately show ?thesis using o Cons by (auto simp: open_history_def)
qed (simp add: open_history_def)

lemma pad_open:
  assumes "open_history l" "w < 100"
  shows "open_history (pad_history w l)"
  using assms by (auto simp: open_history_def pad_history_def last_replicate)

lemma window_score_open:
  assumes "open_history l" "w \<noteq> 0"
  obtains s where "window_score w l = Inr s" "0 \<le> s"
proof -
  have "0 < length l" using assms(1) by (simp add: open_history_def)
  then have "length l - w < length l" using assms(2) by linarith
  then have "drop (length l - w) l \<noteq> []" by simp
  then obtain x xs where d: "drop (length l - w) l = x # xs" by (meson neq_Nil_conv)
  have "foldl min x xs \<le> x" using foldl_min_le by blast
  with d show thesis by (intro that[of "x - foldl min x xs"]) (auto simp: window_score_def)
qed

lemma window_score_full:
  assumes "open_history l" "length l = 99"
  obtains s where "window_score 99 l = Inr s" "0 < s"
proof -
  obtain x xs where l: "l = x # xs" using assms(1) by (cases l) (auto simp: open_history_def)
  have ne: "xs \<noteq> []" using l assms(2) by auto
  then have xs: "xs \<noteq> []" "List.last xs = 0" using assms l by (simp_all add: open_history_def)
  have "foldl min x xs \<le> 0" using foldl_min_le[of x xs] last_in_set[OF xs(1)] xs(2) by force
  moreover have "0 < x" using assms(1) l by (simp add: open_history_def)
  ultimately show thesis using l assms(2) by (intro that[of "x - foldl min x xs"]) (auto simp: window_score_def)
qed

definition histories_ok :: "(string, rat list) dict \<Rightarrow> bool" where
  "histories_ok hist \<longleftrightarrow> (\<forall>k l. map_of hist k = Some l \<longrightarrow> open_history l)"

definition tasks_ok :: "(string, rat list) dict \<Rightarrow> (string, rat) dict \<Rightarrow> bool" where
  "tasks_ok hist kws \<longleftrightarrow> (\<forall>kw \<in> set kws. 0 < snd kw \<and> fst kw \<in> dom (map_of hist))"

lemma score_task_ok:
  assumes "histories_ok hist" "0 < weight" "key \<in> dom (map_of hist)" "0 < w" "w < 100"
  obtains hist' s where "score_task w (key, weight) (hist, sc) = Inr (hist', sc @ [(key, s * weight)])"
    "histories_ok hist'" "dom (map_of hist') = dom (map_of hist)" "0 \<le> s * weight" "w = 99 \<Longrightarrow> 0 < s * weight"
proof -
  obtain l where l: "map_of hist key = Some l" using assms(3) by auto
  define l' where "l' = pad_history w (prefix_min l)"
  have o: "open_history l'" unfolding l'_def
    by (intro pad_open prefix_min_open) (use assms(1,5) l in \<open>auto simp: histories_ok_def\<close>)
  obtain s where s: "window_score w l' = Inr s" "0 \<le> s" using window_score_open[OF o] assms(4) by blast
  have pos: "0 < s" if "w = 99"
  proof -
    have "length l' = 99" using o that by (auto simp: l'_def pad_history_def open_history_def)
    then show ?thesis using window_score_full[OF o] s(1) that by auto
  qed
  show thesis
  proof (rule that[of "AList.update key l' hist" s])
    show "score_task w (key, weight) (hist, sc) = Inr (AList.update key l' hist, sc @ [(key, s * weight)])"
      using l s(1) by (simp add: score_task_def dict_get_def l'_def[symmetric] Let_def)
    show "histories_ok (AList.update key l' hist)" using assms(1) o by (auto simp: histories_ok_def update_conv')
    show "dom (map_of (AList.update key l' hist)) = dom (map_of hist)" using l by (auto simp: update_conv')
    show "0 \<le> s * weight" using s(2) assms(2) by simp
    show "0 < s * weight" if "w = 99" using pos[OF that] assms(2) by simp
  qed
qed

lemma score_tasks:
  assumes "0 < w" "w < 100"
  shows "histories_ok hist \<Longrightarrow> tasks_ok hist kws \<Longrightarrow>
   \<exists>hist' sc'. foldE (score_task w) kws (hist, sc) = Inr (hist', sc @ sc') \<and> map fst sc' = map fst kws \<and>
     histories_ok hist' \<and> dom (map_of hist') = dom (map_of hist) \<and> (w = 99 \<longrightarrow> (\<forall>ks \<in> set sc'. 0 < snd ks))"
proof (induction kws arbitrary: hist sc)
  case (Cons kw kws)
  obtain key weight where kw: "kw = (key, weight)" by (cases kw)
  obtain h1 s where 1: "score_task w kw (hist, sc) = Inr (h1, sc @ [(key, s * weight)])" "histories_ok h1"
    "dom (map_of h1) = dom (map_of hist)" "w = 99 \<Longrightarrow> 0 < s * weight"
    unfolding kw by (rule score_task_ok[OF Cons.prems(1) _ _ assms, of weight key sc])
      (use Cons.prems(2) in \<open>simp_all add: tasks_ok_def kw\<close>)
  have "tasks_ok h1 kws" using Cons.prems(2) 1(3) by (simp add: tasks_ok_def)
  from Cons.IH[OF 1(2) this, of "sc @ [(key, s * weight)]"] obtain h2 sc' where
    2: "foldE (score_task w) kws (h1, sc @ [(key, s * weight)]) = Inr (h2, (sc @ [(key, s * weight)]) @ sc')"
      "map fst sc' = map fst kws" "histories_ok h2" "dom (map_of h2) = dom (map_of h1)"
      "w = 99 \<longrightarrow> (\<forall>ks \<in> set sc'. 0 < snd ks)" by blast
  show ?case
    by (intro exI[of _ h2] exI[of _ "(key, s * weight) # sc'"]) (use 1 2 in \<open>simp add: kw\<close>)
qed simp

lemma take_names:
  assumes "distinct names" "int (length names) < want"
  shows "distinct (take_names want kind keys names) \<and>
    set (take_names want kind keys names) \<subseteq> set names \<union> sched_name kind ` set keys \<and>
    int (length (take_names want kind keys names)) \<le> want \<and>
    (int (length (take_names want kind keys names)) \<noteq> want \<longrightarrow>
       set (take_names want kind keys names) = set names \<union> sched_name kind ` set keys)"
  using assms
proof (induction keys arbitrary: names)
  case (Cons key keys)
  let ?n = "List.insert (sched_name kind key) names"
  have d: "distinct ?n" using Cons.prems(1) by simp
  have le: "int (length ?n) \<le> want" using Cons.prems(2) by (simp add: List.insert_def)
  show ?case
  proof (cases "int (length ?n) = want")
    case True
    with d show ?thesis by (simp add: Let_def) auto
  next
    case False
    with le have "int (length ?n) < want" by simp
    from Cons.IH[OF d this] False show ?thesis by (simp add: Let_def)
  qed
qed simp

lemma want_count_le: "want_count m \<le> (int (length (sm_tasks m)) + 3) div 4"
  by (simp add: want_count_def Let_def)

lemma want_count_tasks: "want_count m \<le> int (length (sm_tasks m))"
  using want_count_le[of m] by linarith

lemma want_count_budget:
  "64 * want_count m + 128 * ((int (length (sm_tasks m)) + 3) div 4) + int (sm_times m) \<le> 20000"
proof -
  define c where "c = (int (length (sm_tasks m)) + 3) div 4"
  have "want_count m \<le> (20000 - int (sm_times m) - c * 2 * 64) div 64" by (simp add: want_count_def c_def Let_def)
  then have "64 * want_count m \<le> 64 * ((20000 - int (sm_times m) - c * 2 * 64) div 64)" by simp
  also have "\<dots> \<le> 20000 - int (sm_times m) - c * 2 * 64" by presburger
  finally show ?thesis unfolding c_def[symmetric] by simp
qed

text \<open>What the windows of one network leave: the histories stay open, and the names are as many as wanted
  once the last window has been tried.\<close>

definition windows_done :: "string \<Rightarrow> sched_model \<Rightarrow> (string, rat list) dict \<Rightarrow> bool \<Rightarrow> (string, rat list) dict \<times> string list \<Rightarrow> bool" where
  "windows_done kind m hist full st \<longleftrightarrow>
     histories_ok (fst st) \<and> dom (map_of (fst st)) = dom (map_of hist) \<and> distinct (snd st) \<and>
     set (snd st) \<subseteq> sched_name kind ` fst ` set (sm_tasks m) \<and> int (length (snd st)) \<le> want_count m \<and>
     (full \<longrightarrow> int (length (snd st)) = want_count m)"

lemma windows_fill:
  assumes "0 < want_count m" "distinct (map fst (sm_tasks m))" "inj_on (sched_name kind) (fst ` set (sm_tasks m))"
  shows "\<forall>w \<in> set ws. 0 < w \<and> w < 100 \<Longrightarrow> tasks_ok hist (sm_tasks m) \<Longrightarrow> windows_done kind m hist False (hist, names) \<Longrightarrow>
     int (length names) < want_count m \<Longrightarrow>
     \<exists>st. windows kind m ws (hist, names) = Inr st \<and> windows_done kind m hist (99 \<in> set ws) st"
proof (induction ws arbitrary: hist names)
  case (Cons w ws)
  have h: "histories_ok hist" using Cons.prems(3) by (simp add: windows_done_def)
  obtain hist' sc where sc: "foldE (score_task w) (sm_tasks m) (hist, []) = Inr (hist', sc)" "map fst sc = map fst (sm_tasks m)"
    "histories_ok hist'" "dom (map_of hist') = dom (map_of hist)" "w = 99 \<longrightarrow> (\<forall>ks \<in> set sc. 0 < snd ks)"
    using score_tasks[OF _ _ h Cons.prems(2), of w "[]"] Cons.prems(1) by auto
  define keys where "keys = map fst (filter (\<lambda>ks. snd ks > 0) (sort_key (\<lambda>ks. - snd ks) sc))"
  define names' where "names' = take_names (want_count m) kind keys names"
  have keys: "set keys \<subseteq> fst ` set (sm_tasks m)"
    using arg_cong[OF sc(2), of set] by (auto simp: keys_def)
  have t: "distinct names'" "set names' \<subseteq> set names \<union> sched_name kind ` set keys" "int (length names') \<le> want_count m"
    "int (length names') \<noteq> want_count m \<longrightarrow> set names' = set names \<union> sched_name kind ` set keys"
    using take_names[of names "want_count m" kind keys] Cons.prems(3,4) by (simp_all add: windows_done_def names'_def)
  have sub: "set names' \<subseteq> sched_name kind ` fst ` set (sm_tasks m)"
  proof -
    have "set names \<subseteq> sched_name kind ` fst ` set (sm_tasks m)" using Cons.prems(3) by (simp add: windows_done_def)
    moreover have "sched_name kind ` set keys \<subseteq> sched_name kind ` fst ` set (sm_tasks m)" by (rule image_mono[OF keys])
    ultimately show ?thesis using t(2) by (meson Un_least order_trans)
  qed
  have run: "windows kind m (w # ws) (hist, names) =
      (if int (length names') = want_count m then Inr (hist', names') else windows kind m ws (hist', names'))"
    using sc(1) assms(1) by (simp add: Let_def keys_def[symmetric] names'_def[symmetric])
  have full: "int (length names') = want_count m" if "w = 99"
  proof (rule ccontr)
    assume c: "int (length names') \<noteq> want_count m"
    have "filter (\<lambda>ks. snd ks > 0) (sort_key (\<lambda>ks. - snd ks) sc) = sort_key (\<lambda>ks. - snd ks) sc"
      using sc(5) that by (intro filter_True) simp
    then have "set keys = fst ` set (sm_tasks m)" using arg_cong[OF sc(2), of set] by (simp add: keys_def)
    then have "sched_name kind ` fst ` set (sm_tasks m) \<subseteq> set names'" using t(4) c by auto
    then have "card (sched_name kind ` fst ` set (sm_tasks m)) \<le> length names'"
      using t(1) by (metis card_mono distinct_card finite_set)
    moreover have "card (sched_name kind ` fst ` set (sm_tasks m)) = length (sm_tasks m)"
      using assms(2) distinct_card[of "map fst (sm_tasks m)"] by (simp add: card_image[OF assms(3)])
    ultimately show False using c t(3) want_count_tasks[of m] by linarith
  qed
  show ?case
  proof (cases "int (length names') = want_count m")
    case True
    then have "windows_done kind m hist (99 \<in> set (w # ws)) (hist', names')" using sc(3,4) t(1) sub by (simp add: windows_done_def)
    then show ?thesis unfolding run using True by simp
  next
    case False
    have "tasks_ok hist' (sm_tasks m)" using Cons.prems(2) sc(4) by (simp add: tasks_ok_def)
    moreover have "windows_done kind m hist' False (hist', names')" using sc(3) t sub by (simp add: windows_done_def)
    ultimately obtain st where "windows kind m ws (hist', names') = Inr st" "windows_done kind m hist' (99 \<in> set ws) st"
      using Cons.IH[of hist' names'] Cons.prems(1) False t(3) by auto
    moreover from this(2) full False sc(4) have "windows_done kind m hist (99 \<in> set (w # ws)) st"
      by (simp add: windows_done_def) blast
    ultimately show ?thesis unfolding run using False by simp
  qed
qed (simp add: windows_done_def)

definition network_ok :: "string \<Rightarrow> (string, rat list) dict \<Rightarrow> sched_model \<Rightarrow> bool" where
  "network_ok kind hist m \<longleftrightarrow> sm_tasks m \<noteq> [] \<and> tasks_ok hist (sm_tasks m) \<and> distinct (map fst (sm_tasks m)) \<and>
     inj_on (sched_name kind) (fst ` set (sm_tasks m))"

lemma schedule_model_ok:
  assumes "histories_ok hist" "network_ok kind hist m"
  shows "\<exists>hist' names. schedule_model kind m (hist, found) = Inr (hist', fold List.insert names found) \<and>
     histories_ok hist' \<and> dom (map_of hist') = dom (map_of hist) \<and> distinct names \<and>
     set names \<subseteq> sched_name kind ` fst ` set (sm_tasks m) \<and> int (length names) = max 0 (want_count m)"
proof (cases "0 < want_count m")
  case True
  define ws :: "nat list" where "ws = [3..<100]"
  have ws: "\<forall>w \<in> set ws. 0 < w \<and> w < 100" "99 \<in> set ws" by (simp_all add: ws_def)
  have "windows_done kind m hist False (hist, [])" using assms(1) True by (simp add: windows_done_def)
  with windows_fill[OF True _ _ ws(1), of kind hist "[]"] True assms(2) ws(2) obtain st where
    st: "windows kind m ws (hist, []) = Inr st" "windows_done kind m hist True st"
    by (auto simp: network_ok_def)
  have "schedule_model kind m (hist, found) = Inr (fst st, fold List.insert (snd st) found)"
    using assms(2) by (simp only: schedule_model_def ws_def[symmetric] split_conv st(1) bindE_Inr case_prod_unfold network_ok_def if_False fst_conv snd_conv)
  with True st(2) show ?thesis
    by (intro exI[of _ "fst st"] exI[of _ "snd st"]) (simp add: windows_done_def)
next
  case False
  have "tasks_ok hist (sm_tasks m)" using assms(2) by (simp add: network_ok_def)
  with score_tasks[OF _ _ assms(1), of 3 "sm_tasks m" "[]"] obtain hist' sc where
    sc: "foldE (score_task 3) (sm_tasks m) (hist, []) = Inr (hist', sc)" "histories_ok hist'" "dom (map_of hist') = dom (map_of hist)"
    by auto
  have "[3..<100] = 3 # [4..<100]" by (simp add: upt_conv_Cons)
  then have "windows kind m [3..<100] (hist, []) = Inr (hist', [])" using sc(1) False by (simp only: windows.simps) (simp add: Let_def)
  then have "schedule_model kind m (hist, found) = Inr (hist', fold List.insert [] found)"
    using assms(2) by (simp only: schedule_model_def split_conv bindE_Inr case_prod_unfold network_ok_def if_False fst_conv snd_conv)
  with sc False show ?thesis by (intro exI[of _ hist'] exI[of _ "[]"]) simp
qed

text \<open>C22: the choice for one network. If all its tasks have a history of positive latencies that is not longer than
  the widest window, exactly the wanted number of tasks is chosen, however the latencies developed: a quarter of
  the tasks, reduced so that 64 measurements of each fit into the 20000 of the network. The histories the other
  networks share stay usable.\<close>

theorem scheduler_fills_budget:
  assumes "histories_ok hist" "network_ok kind hist m"
  shows "\<exists>hist' names. schedule_model kind m (hist, found) = Inr (hist', fold List.insert names found) \<and>
     histories_ok hist' \<and> dom (map_of hist') = dom (map_of hist) \<and> distinct names \<and>
     set names \<subseteq> sched_name kind ` fst ` set (sm_tasks m) \<and> int (length names) = max 0 (want_count m) \<and>
     length names \<le> (length (sm_tasks m) + 3) div 4 \<and> (names \<noteq> [] \<longrightarrow> 64 * length names + sm_times m \<le> 20000)"
proof -
  have "max 0 (want_count m) \<le> (int (length (sm_tasks m)) + 3) div 4" using want_count_le[of m] by simp
  moreover have "64 * max 0 (want_count m) + int (sm_times m) \<le> 20000" if "0 < want_count m"
    using want_count_budget[of m] that by simp
  ultimately have bound: "length names \<le> (length (sm_tasks m) + 3) div 4 \<and> (names \<noteq> [] \<longrightarrow> 64 * length names + sm_times m \<le> 20000)"
    if "int (length names) = max 0 (want_count m)" for names :: "string list"
    using that by (cases "0 < want_count m") auto
  from schedule_model_ok[OF assms, of found] bound show ?thesis by blast
qed

theorem scheduler_fills_budget_witness:
  "let hist = [(''a'', [5, 5, 5, 5]), (''b'', [7, 6, 5, 4])];
       m = \<lparr>sm_tasks = [(''a'', 1), (''b'', 1)], sm_times = 512\<rparr> in
     \<exists>hist' names. schedule_model ''llvm'' m (hist, []) = Inr (hist', names) \<and> length names = 1"
proof -
  let ?hist = "[(''a'', [5, 5, 5, 5 :: rat]), (''b'', [7, 6, 5, 4])]"
  let ?m = "\<lparr>sm_tasks = [(''a'', 1 :: rat), (''b'', 1)], sm_times = 512\<rparr>"
  have "histories_ok ?hist" by (simp add: histories_ok_def open_history_def)
  moreover have "network_ok ''llvm'' ?hist ?m"
    by (simp add: network_ok_def tasks_ok_def sched_name_def clean_name_filter repr_string_def repr_char_def Let_def dom_def)
  ultimately obtain hist' names where "schedule_model ''llvm'' ?m (?hist, []) = Inr (hist', fold List.insert names [])"
    "distinct names" "int (length names) = max 0 (want_count ?m)"
    using scheduler_fills_budget[of ?hist "''llvm''" ?m "[]"] by blast
  moreover have "want_count ?m = 1" by (simp add: want_count_def)
  ultimately have "length names = 1" "schedule_model ''llvm'' ?m (?hist, []) = Inr (hist', names)"
    by (auto simp: length_Suc_conv)
  then show ?thesis unfolding Let_def by blast
qed

section \<open>All networks\<close>

definition measured_ok :: "tlm_line list list \<Rightarrow> bool" where
  "measured_ok files \<longleftrightarrow> (\<forall>lines \<in> set files. \<forall>rc \<in> set lines. ln_costs rc \<noteq> [] \<and> (\<forall>c \<in> set (ln_costs rc). 0 < c))"

definition file_dict :: "string set \<Rightarrow> (string, rat \<times> nat) dict \<Rightarrow> bool" where
  "file_dict K d \<longleftrightarrow> fst ` set d = K \<and> distinct (map fst d) \<and> (\<forall>e \<in> set d. 0 < fst (snd e))"

lemma set_alist_update: "set (AList.update k v d) \<subseteq> insert (k, v) (set d)"
  by (induction d) auto

lemma read_file:
  assumes "\<forall>rc \<in> set lines. ln_costs rc \<noteq> [] \<and> (\<forall>c \<in> set (ln_costs rc). 0 < c)"
  obtains d where "read_fine_tuning_json lines = Inr d" "file_dict (ln_workload_key ` set lines) d"
proof -
  have "\<exists>d. read_fine_tuning_json lines = Inr d \<and> file_dict (ln_workload_key ` set lines) d" using assms
  proof (induction lines rule: rev_induct)
    case (snoc rc lines)
    then obtain d where d: "read_fine_tuning_json lines = Inr d" "file_dict (ln_workload_key ` set lines) d" by auto
    let ?k = "ln_workload_key rc"
    have costs: "ln_costs rc \<noteq> []" "0 < sum_list (ln_costs rc)" using snoc.prems sum_list_pos[of "ln_costs rc"] by auto
    define lat where "lat = sum_list (ln_costs rc) / of_nat (length (ln_costs rc))"
    have mean: "mean_cost (ln_costs rc) = Inr lat" "0 < lat" using costs by (simp_all add: mean_cost_def py_div_def lat_def)
    define mn where "mn = (case map_of d ?k of None \<Rightarrow> (no_latency, 0) | Some mn \<Rightarrow> mn)"
    have "0 < fst mn" using d(2)
      by (auto simp: mn_def no_latency_def file_dict_def dest!: map_of_SomeD split: option.splits)
    with mean(2) have pos: "0 < min (fst mn) lat" by simp
    define v where "v = (min (fst mn) lat, snd mn + 1)"
    have vpos: "0 < fst v" using pos by (simp add: v_def)
    have "read_fine_tuning_json (lines @ [rc]) = Inr (AList.update ?k v d)"
      using d(1) mean(1) by (simp add: read_fine_tuning_json_def foldE_append ft_step_def mn_def[symmetric] v_def case_prod_unfold Let_def)
    moreover have "file_dict (ln_workload_key ` set (lines @ [rc])) (AList.update ?k v d)"
      unfolding file_dict_def
    proof (intro conjI ballI)
      show "fst ` set (AList.update ?k v d) = ln_workload_key ` set (lines @ [rc])"
        using d(2) by (auto simp: dom_update file_dict_def)
      show "distinct (map fst (AList.update ?k v d))" using d(2) by (simp add: distinct_update file_dict_def)
      fix e assume "e \<in> set (AList.update ?k v d)"
      from subsetD[OF set_alist_update this] have "e = (?k, v) \<or> e \<in> set d" by simp
      moreover have "\<forall>e \<in> set d. 0 < fst (snd e)" using d(2) unfolding file_dict_def by (elim conjE)
      ultimately show "0 < fst (snd e)" using vpos by (metis snd_conv)
    qed
    ultimately show ?case by blast
  qed (simp add: read_fine_tuning_json_def file_dict_def)
  with that show thesis by blast
qed

definition history_inv :: "nat \<Rightarrow> string set \<Rightarrow> sched_history \<Rightarrow> bool" where
  "history_inv n K h \<longleftrightarrow> dom (map_of (sh_best h)) = K \<and> dom (map_of (sh_times h)) = K \<and>
     (\<forall>k l. map_of (sh_best h) k = Some l \<longrightarrow> l \<noteq> [] \<and> (\<forall>x \<in> set l. 0 < x) \<and> length l \<le> n)"

lemma history_entries:
  assumes "distinct (map fst d)" "\<forall>e \<in> set d. 0 < fst (snd e)" "history_inv n K h"
  shows "history_inv (Suc n) (K \<union> fst ` set d) (fold history_entry d h) \<and>
     (\<forall>k l. k \<notin> fst ` set d \<longrightarrow> map_of (sh_best (fold history_entry d h)) k = Some l \<longrightarrow> length l \<le> n)"
  using assms(1,2)
proof (induction d rule: rev_induct)
  case Nil
  then show ?case using assms(3) unfolding history_inv_def by (auto intro: le_SucI)
next
  case (snoc e d)
  obtain k v t where e: "e = (k, v, t)" by (cases e)
  let ?h = "fold history_entry d h"
  have IH: "history_inv (Suc n) (K \<union> fst ` set d) ?h"
    "\<forall>k l. k \<notin> fst ` set d \<longrightarrow> map_of (sh_best ?h) k = Some l \<longrightarrow> length l \<le> n"
    using snoc by simp_all
  define l where "l = (case map_of (sh_best ?h) k of None \<Rightarrow> [] | Some l \<Rightarrow> l)"
  have k: "k \<notin> fst ` set d" "0 < v" using snoc.prems by (auto simp: e)
  have l: "length l \<le> n" "\<forall>x \<in> set l. 0 < x"
    using IH k(1) by (cases "map_of (sh_best ?h) k"; auto simp: l_def history_inv_def)+
  have best: "map_of (sh_best (history_entry e ?h)) k' = (if k' = k then Some (l @ [v]) else map_of (sh_best ?h) k')" for k'
    by (simp add: history_entry_def e l_def[symmetric] Let_def update_conv')
  have times: "dom (map_of (sh_times (history_entry e ?h))) = insert k (dom (map_of (sh_times ?h)))"
    by (auto simp: history_entry_def e Let_def update_conv')
  have "history_inv (Suc n) (K \<union> fst ` set (d @ [e])) (history_entry e ?h)"
    unfolding history_inv_def
  proof (intro conjI allI impI)
    have dom_best: "dom (map_of (sh_best (history_entry e ?h))) = insert k (dom (map_of (sh_best ?h)))"
      by (auto simp: dom_def best)
    show "dom (map_of (sh_best (history_entry e ?h))) = K \<union> fst ` set (d @ [e])"
      unfolding dom_best using IH(1) by (simp add: history_inv_def e)
    show "dom (map_of (sh_times (history_entry e ?h))) = K \<union> fst ` set (d @ [e])"
      unfolding times using IH(1) by (simp add: history_inv_def e)
    fix k' l' assume "map_of (sh_best (history_entry e ?h)) k' = Some l'"
    then have "k' = k \<and> l' = l @ [v] \<or> map_of (sh_best ?h) k' = Some l'" unfolding best by (simp split: if_splits)
    then show "l' \<noteq> []" "\<forall>x \<in> set l'. 0 < x" "length l' \<le> Suc n"
      using IH(1) l k(2) unfolding history_inv_def by (elim disjE conjE; simp)+
  qed
  moreover have "length l' \<le> n" if "k' \<notin> fst ` set (d @ [e])" "map_of (sh_best (history_entry e ?h)) k' = Some l'" for k' l'
  proof -
    have "k' \<noteq> k" using that(1) by (auto simp: e)
    then have "map_of (sh_best ?h) k' = Some l'" using that(2) unfolding best by simp
    then show ?thesis using IH(2) that(1) by auto
  qed
  ultimately show ?case by simp
qed

lemma read_histories_ok:
  "measured_ok files \<Longrightarrow> \<exists>h. read_histories files = Inr h \<and>
     history_inv (length files) (ln_workload_key ` (\<Union>lines \<in> set files. set lines)) h"
proof (induction files rule: rev_induct)
  case (snoc lines files)
  then obtain h where h: "read_histories files = Inr h"
    "history_inv (length files) (ln_workload_key ` (\<Union>lines \<in> set files. set lines)) h"
    by (auto simp: measured_ok_def)
  obtain d where d: "read_fine_tuning_json lines = Inr d" "file_dict (ln_workload_key ` set lines) d"
    using read_file[of lines] snoc.prems by (auto simp: measured_ok_def)
  have "history_inv (Suc (length files)) (ln_workload_key ` (\<Union>lines \<in> set files. set lines) \<union> fst ` set d) (fold history_entry d h)"
    using history_entries[OF _ _ h(2), of d] d(2) by (simp add: file_dict_def)
  moreover have "ln_workload_key ` (\<Union>lines \<in> set (files @ [lines]). set lines) =
      ln_workload_key ` (\<Union>lines \<in> set files. set lines) \<union> fst ` set d"
    using d(2) by (simp add: file_dict_def image_Un Un_commute)
  moreover have "read_histories (files @ [lines]) = Inr (fold history_entry d h)"
    using h(1) d(1) by (simp add: read_histories_def foldE_append)
  ultimately show ?case by simp
qed (simp add: read_histories_def history_inv_def)

lemma read_model_ok:
  "\<forall>tw \<in> set tws. 0 < snd tw \<and> tk_workload_key (fst tw) \<in> dom (map_of (sh_times h)) \<Longrightarrow>
   \<exists>m. read_model h tws = Inr m \<and> distinct (map fst (sm_tasks m)) \<and>
     fst ` set (sm_tasks m) = (\<lambda>tw. tk_workload_key (fst tw)) ` set tws \<and> (\<forall>kw \<in> set (sm_tasks m). 0 < snd kw)"
proof (induction tws rule: rev_induct)
  case (snoc tw tws)
  then obtain m where m: "read_model h tws = Inr m" "distinct (map fst (sm_tasks m))"
    "fst ` set (sm_tasks m) = (\<lambda>tw. tk_workload_key (fst tw)) ` set tws" "\<forall>kw \<in> set (sm_tasks m). 0 < snd kw" by auto
  let ?k = "tk_workload_key (fst tw)"
  obtain t where t: "map_of (sh_times h) ?k = Some t" using snoc.prems by auto
  let ?m = "m\<lparr>sm_tasks := AList.update ?k (snd tw) (sm_tasks m), sm_times := sm_times m + t\<rparr>"
  have "read_model h (tws @ [tw]) = Inr ?m"
    using m(1) t by (simp add: read_model_def foldE_append model_entry_def Let_def)
  moreover have "0 < snd kw" if "kw \<in> set (AList.update ?k (snd tw) (sm_tasks m))" for kw
  proof -
    have "kw = (?k, snd tw) \<or> kw \<in> set (sm_tasks m)" using subsetD[OF set_alist_update that] by simp
    then show ?thesis using m(4) snoc.prems by auto
  qed
  moreover have "distinct (map fst (sm_tasks ?m))" using m(2) by (simp add: distinct_update)
  moreover have "fst ` set (sm_tasks ?m) = (\<lambda>tw. tk_workload_key (fst tw)) ` set (tws @ [tw])"
    using m(3) by (simp add: dom_update)
  ultimately show ?case by auto
qed (simp add: read_model_def)

text \<open>The task lists of the networks: positive weights, every workload measured, and names that differ.\<close>

definition networks_ok :: "string \<Rightarrow> tlm_line list list \<Rightarrow> (search_task \<times> rat) list list \<Rightarrow> bool" where
  "networks_ok kind measured models \<longleftrightarrow> (\<forall>tws \<in> set models. tws \<noteq> [] \<and>
     (\<forall>tw \<in> set tws. 0 < snd tw \<and> tk_workload_key (fst tw) \<in> ln_workload_key ` (\<Union>lines \<in> set measured. set lines)) \<and>
     inj_on (sched_name kind) ((\<lambda>tw. tk_workload_key (fst tw)) ` set tws))"

lemma read_models_ok:
  assumes "networks_ok kind measured models" "history_inv n (ln_workload_key ` (\<Union>lines \<in> set measured. set lines)) h"
  shows "\<exists>ms. mapE (read_model h) models = Inr ms \<and> (\<forall>m \<in> set ms. network_ok kind (sh_best h) m)"
  using assms(1)
proof (induction models)
  case (Cons tws models)
  then obtain ms where ms: "mapE (read_model h) models = Inr ms" "\<forall>m \<in> set ms. network_ok kind (sh_best h) m"
    by (auto simp: networks_ok_def)
  let ?K = "ln_workload_key ` (\<Union>lines \<in> set measured. set lines)"
  have dom_h: "dom (map_of (sh_times h)) = ?K" "dom (map_of (sh_best h)) = ?K" using assms(2) by (simp_all add: history_inv_def)
  have tws: "tws \<noteq> []" "\<forall>tw \<in> set tws. 0 < snd tw \<and> tk_workload_key (fst tw) \<in> ?K"
    "inj_on (sched_name kind) ((\<lambda>tw. tk_workload_key (fst tw)) ` set tws)"
    using Cons.prems by (simp_all add: networks_ok_def)
  obtain m where m: "read_model h tws = Inr m" "distinct (map fst (sm_tasks m))"
    "fst ` set (sm_tasks m) = (\<lambda>tw. tk_workload_key (fst tw)) ` set tws" "\<forall>kw \<in> set (sm_tasks m). 0 < snd kw"
    using read_model_ok[of tws h] tws(2) unfolding dom_h by blast
  have "fst kw \<in> ?K" if "kw \<in> set (sm_tasks m)" for kw using m(3) tws(2) that by (metis (no_types, lifting) image_iff)
  then have "network_ok kind (sh_best h) m"
    using m tws by (auto simp: network_ok_def tasks_ok_def dom_h(2) simp del: image_UN)
  with ms m(1) show ?case by auto
qed simp

lemma schedule_models:
  "histories_ok hist \<Longrightarrow> \<forall>m \<in> set ms. network_ok kind hist m \<Longrightarrow>
   \<exists>hist' names. foldE (schedule_model kind) ms (hist, found) = Inr (hist', names) \<and> set found \<subseteq> set names \<and>
     (found = [] \<and> (\<forall>m \<in> set ms. want_count m \<le> 0) \<longrightarrow> names = []) \<and>
     (\<forall>m \<in> set ms. want_count m \<le> int (card (set names \<inter> sched_name kind ` fst ` set (sm_tasks m))))"
proof (induction ms arbitrary: hist found)
  case (Cons m ms)
  obtain h1 ns where 1: "schedule_model kind m (hist, found) = Inr (h1, fold List.insert ns found)" "histories_ok h1"
    "dom (map_of h1) = dom (map_of hist)" "distinct ns" "set ns \<subseteq> sched_name kind ` fst ` set (sm_tasks m)"
    "int (length ns) = max 0 (want_count m)"
    using schedule_model_ok[OF Cons.prems(1), of kind m found] Cons.prems(2) by auto
  have "\<forall>m \<in> set ms. network_ok kind h1 m" using Cons.prems(2) 1(3) by (simp add: network_ok_def tasks_ok_def)
  from Cons.IH[OF 1(2) this, of "fold List.insert ns found"] obtain h2 names where
    2: "foldE (schedule_model kind) ms (h1, fold List.insert ns found) = Inr (h2, names)"
      "set (fold List.insert ns found) \<subseteq> set names"
      "fold List.insert ns found = [] \<and> (\<forall>m \<in> set ms. want_count m \<le> 0) \<longrightarrow> names = []"
      "\<forall>m \<in> set ms. want_count m \<le> int (card (set names \<inter> sched_name kind ` fst ` set (sm_tasks m)))" by blast
  have ins: "set (fold List.insert ns found) = set ns \<union> set found" by (induction ns arbitrary: found) auto
  have "set ns \<subseteq> set names \<inter> sched_name kind ` fst ` set (sm_tasks m)" using 2(2) 1(5) ins by simp
  then have "card (set ns) \<le> card (set names \<inter> sched_name kind ` fst ` set (sm_tasks m))" by (intro card_mono) simp
  then have "want_count m \<le> int (card (set names \<inter> sched_name kind ` fst ` set (sm_tasks m)))"
    using 1(4,6) distinct_card[of ns] by linarith
  moreover have "ns = []" if "want_count m \<le> 0" using 1(6) that by simp
  ultimately show ?case using 1(1) 2 ins by (intro exI[of _ h2] exI[of _ names]) auto
qed simp



section \<open>Files of the chosen tasks\<close>

lemma splitext_json: "\<not> list_all (\<lambda>c. c = CHR ''.'') x \<Longrightarrow> splitext_root (x @ ''.json'') = x"
  by (simp add: splitext_root_def Let_def)

text \<open>A target kind is a plain name: printing it with quotes or without them gives the same cleaned key.\<close>

definition plain_kind :: "string \<Rightarrow> bool" where
  "plain_kind kind \<longleftrightarrow> list_all (\<lambda>c. c \<notin> {CHR '' '', CHR 0x22, CHR 0x27, CHR 0x5C, CHR ''/''} \<and>
     32 < (of_char c :: nat) \<and> (of_char c :: nat) < 127) kind"

lemma sched_name_plain:
  assumes "plain_kind kind"
  shows "sched_name kind key = clean_name (task_key key kind)"
proof -
  have one: "repr_char CHR 0x27 c = [c]" if "c \<in> set kind" for c
  proof -
    have "c \<notin> {CHR 0x22, CHR 0x27, CHR 0x5C}" "32 < (of_char c :: nat)" "(of_char c :: nat) < 127"
      using assms that by (auto simp: plain_kind_def list_all_iff)
    moreover from this(2) have "c \<noteq> CHR 0x0A" "c \<noteq> CHR 0x0D" "c \<noteq> CHR 0x09" by auto
    ultimately show ?thesis by (simp add: repr_char_def Let_def)
  qed
  have "concat (map (repr_char CHR 0x27) kind) = concat (map (\<lambda>c. [c]) kind)" using one by (intro arg_cong[of _ _ concat] map_cong) auto
  moreover have "CHR 0x27 \<notin> set kind" using assms by (auto simp: plain_kind_def list_all_iff)
  ultimately have "repr_string kind = [CHR 0x27] @ kind @ [CHR 0x27]" by (simp add: repr_string_def Let_def)
  then show ?thesis by (simp add: sched_name_def task_key_def clean_name_filter)
qed

lemma clean_task_starts: "\<not> list_all (\<lambda>c. c = CHR ''.'') (clean_name (task_key key kind))"
  by (simp add: clean_name_filter task_key_def)

text \<open>\<^verbatim>\<open>find_potential_files\<close> finds the chosen tasks again. Among the record files of tasks it returns those
  of the tasks whose name the scheduler has stored, and it can be called only once per schedule.\<close>

theorem potential_files_are_chosen:
  assumes "plain_kind kind" "mapE (\<lambda>t. get_measure_record_filename p t (Some kind)) tasks = Inr files"
    "\<forall>t \<in> set tasks. CHR ''/'' \<notin> set (tk_workload_key t)"
  shows "\<exists>chosen. mapE (\<lambda>t. get_measure_record_filename p t (Some kind))
       (filter (\<lambda>t. sched_name kind (tk_workload_key t) \<in> set names) tasks) = Inr chosen \<and>
     find_potential_files files (Some names) = (None, Inr chosen) \<and>
     snd (find_potential_files files (fst (find_potential_files files (Some names)))) = Inl FileNotFoundError"
proof -
  have slash: "CHR ''/'' \<notin> set kind" using assms(1) by (auto simp: plain_kind_def list_all_iff)
  have "mapE (\<lambda>t. get_measure_record_filename p t (Some kind)) (filter (\<lambda>t. sched_name kind (tk_workload_key t) \<in> set names) tasks)
      = Inr (filter (\<lambda>f. splitext_root (basename f) \<in> set names) files)"
  proof (rule mapE_filter[OF assms(2)])
    fix t f assume t: "t \<in> set tasks" "get_measure_record_filename p t (Some kind) = Inr f"
    then obtain d where f: "f = d @ ''/'' @ clean_name (task_key (tk_workload_key t) kind) @ ''.json''"
      by (auto simp: get_measure_record_filename_def)
    have key: "CHR ''/'' \<notin> set (tk_workload_key t)" using assms(3) t(1) by blast
    have "basename f = clean_name (task_key (tk_workload_key t) kind) @ ''.json''"
      unfolding f by (rule record_basename[OF key slash])
    then have "splitext_root (basename f) = sched_name kind (tk_workload_key t)"
      using splitext_json[OF clean_task_starts[of "tk_workload_key t" kind]] sched_name_plain[OF assms(1)] by simp
    then show "(sched_name kind (tk_workload_key t) \<in> set names) = (splitext_root (basename f) \<in> set names)" by simp
  qed
  then show ?thesis by (simp add: find_potential_files_def)
qed

theorem potential_files_are_chosen_witness:
  "let p = no_paths\<lparr>dp_measure_record := Some ''d''\<rparr> in
     find_potential_files [''d/(k,llvm).json'', ''d/(j,llvm).json''] (Some [''(j,llvm)'']) = (None, Inr [''d/(j,llvm).json''])"
proof -
  let ?p = "no_paths\<lparr>dp_measure_record := Some ''d''\<rparr>"
  let ?t = "\<lambda>k. \<lparr>tk_workload_key = k, tk_target_kind = ''llvm''\<rparr>"
  have files: "mapE (\<lambda>t. get_measure_record_filename ?p t (Some ''llvm'')) [?t ''k'', ?t ''j''] =
      Inr [''d/(k,llvm).json'', ''d/(j,llvm).json'']"
    by (simp add: get_measure_record_filename_def the_folder_def no_paths_def task_key_def clean_name_filter repr_string_def
        repr_char_def Let_def)
  have kind: "plain_kind ''llvm''" by (simp add: plain_kind_def)
  have "sched_name ''llvm'' ''k'' = ''(k,llvm)''" "sched_name ''llvm'' ''j'' = ''(j,llvm)''"
    by (simp_all add: sched_name_def clean_name_filter repr_string_def repr_char_def Let_def)
  then show ?thesis using potential_files_are_chosen[OF kind files, of "[''(j,llvm)'']"] files by simp
qed

end
