(* ===== verification/TLM_Records.thy ===== *)
theory TLM_Records
  imports TLM_Schedule
begin

text \<open>
  The scripts that work on files of measured records: \<^verbatim>\<open>gen/postprocess.py\<close> (one record file per
  workload, each program once), \<^verbatim>\<open>gen/measure_programs.py\<close> (measuring the programs of a file in
  batches), \<^verbatim>\<open>gen/speedup_eval.py\<close> and \<^verbatim>\<open>gen/speedup_train.py\<close> (reports). A folder is a dictionary from
  file names to lines; the measurer, the FLOP counts and the pickled task lists are arguments.
\<close>

section \<open>Distinct programs\<close>

type_synonym program_key = "string \<times> json list \<times> json \<times> sched_step list"

text \<open>The input part \<^verbatim>\<open>json_line['i']\<close> of a line; its serialisation identifies a program.\<close>

definition program_of :: "tlm_line \<Rightarrow> program_key" where
  "program_of rc = (ln_workload_key rc, ln_task_rest rc, ln_stages rc, ln_steps rc)"

record post_state =
  po_records :: "(string, tlm_line list) dict"
  po_measured :: "program_key list"

definition post_line :: "tlm_line \<Rightarrow> post_state \<Rightarrow> post_state" where
  "post_line rc s =
     (let key = ln_workload_key rc;
          recs = (if key \<in> fst ` set (po_records s) then po_records s else AList.update key [] (po_records s));
          lines = (case map_of recs key of Some l \<Rightarrow> l | None \<Rightarrow> []) in
      if program_of rc \<in> set (po_measured s) then s\<lparr>po_records := recs\<rparr>
      else s\<lparr>po_records := AList.update key (lines @ [rc]) recs, po_measured := po_measured s @ [program_of rc]\<rparr>)"

definition post_read :: "tlm_line list list \<Rightarrow> post_state" where
  "post_read files = fold post_line (concat files) \<lparr>po_records = [], po_measured = []\<rparr>"

text \<open>Writing the record files: the folder is emptied first; a later workload of the same name overwrites.\<close>

definition post_write :: "string \<Rightarrow> string \<Rightarrow> post_state \<Rightarrow> (string, tlm_line list) dict" where
  "post_write folder kind s =
     fold (\<lambda>(key, lines). AList.update (folder @ ''/'' @ clean_name (task_key key kind) @ ''.json'') lines) (po_records s) []"

definition postprocess_main ::
    "data_paths \<Rightarrow> string \<Rightarrow> tlm_line list list \<Rightarrow> ((string, tlm_line list) dict \<times> program_key list) py" where
  "postprocess_main p kind files =
     bindE (the_folder (dp_measure_record p)) (\<lambda>folder.
     bindE (the_folder (dp_platform p)) (\<lambda>_.
       let s = post_read files in Inr (post_write folder kind s, po_measured s)))"

definition check_measured :: "program_key list \<Rightarrow> program_key \<Rightarrow> bool" where
  "check_measured measured_pkl i_str = (i_str \<in> set measured_pkl)"

section \<open>Measuring a file\<close>

record measurer_kwargs =
  mk_run_timeout :: nat
  mk_number :: nat
  mk_repeat :: nat
  mk_cache_flush :: bool
  mk_min_repeat_ms :: nat

definition measurer_args :: "string \<Rightarrow> rat \<Rightarrow> measurer_kwargs py" where
  "measurer_args kind flop_ct =
     (if kind = ''llvm'' then
        Inr \<lparr>mk_run_timeout = 5, mk_number = 1,
             mk_repeat = (if flop_ct \<ge> 2416443392 then 4 else if flop_ct \<ge> 834928640 then 6
                          else if flop_ct \<le> 2097152 then 10 else 8),
             mk_cache_flush = True, mk_min_repeat_ms = 100\<rparr>
      else if kind = ''cuda'' then
        Inr \<lparr>mk_run_timeout = 5, mk_number = 3, mk_repeat = 1, mk_cache_flush = False, mk_min_repeat_ms = 300\<rparr>
      else Inl AssertionError)"

text \<open>The slices \<^verbatim>\<open>inputs[i : i + n]\<close> for \<^verbatim>\<open>i\<close> in steps of \<open>n\<close>.\<close>

function batches :: "nat \<Rightarrow> 'a list \<Rightarrow> 'a list list" where
  "batches n xs = (if n = 0 \<or> xs = [] then [] else take n xs # batches n (drop n xs))"
  by pat_completeness auto
termination
  by (relation "measure (\<lambda>(n, xs). length xs)") auto

declare batches.simps [simp del]

text \<open>The measurer appends one line per input of a batch to the log, the file of measured records.\<close>

definition remeasure_file ::
    "(measurer_kwargs \<Rightarrow> tlm_line list \<Rightarrow> tlm_line list) \<Rightarrow> nat \<Rightarrow> measurer_kwargs \<Rightarrow> tlm_line list \<Rightarrow> tlm_line list \<Rightarrow> tlm_line list py" where
  "remeasure_file run batch_size kw inputs log_file =
     bindE (py_nth inputs 0) (\<lambda>_.
       if batch_size = 0 then Inl ValueError
       else Inr (log_file @ concat (map (run kw) (batches batch_size inputs))))"

text \<open>Reading a file of records: an empty file is one empty line, which is no JSON value.\<close>

definition read_measured :: "tlm_line list option \<Rightarrow> program_key list py" where
  "read_measured f = (case f of
     None \<Rightarrow> Inr []
   | Some lines \<Rightarrow> if lines = [] then Inl ValueError else Inr (map program_of lines))"

definition group_inputs :: "tlm_line list \<Rightarrow> (string, tlm_line list) dict" where
  "group_inputs lines =
     fold (\<lambda>rc d. AList.update (ln_workload_key rc)
             ((case map_of d (ln_workload_key rc) of Some l \<Rightarrow> l | None \<Rightarrow> []) @ [rc]) d) lines []"

text \<open>The state is the file at \<^verbatim>\<open>args.measured_path\<close>.\<close>

definition measure_main ::
    "(measurer_kwargs \<Rightarrow> tlm_line list \<Rightarrow> tlm_line list) \<Rightarrow> (string \<Rightarrow> rat) \<Rightarrow> string \<Rightarrow> nat \<Rightarrow> tlm_line list \<Rightarrow> (tlm_line list option, unit) st" where
  "measure_main run flop_ct kind batch_size to_measure =
     bindS (getS id) (\<lambda>f.
     bindS (liftS (read_measured f)) (\<lambda>measured_set.
     bindS (modifyS (\<lambda>_. Some [])) (\<lambda>_.
       let to_measure_list = filter (\<lambda>rc. program_of rc \<notin> set measured_set) to_measure in
       (\<lambda>s. case foldE (\<lambda>(key, records) log_file.
                 bindE (measurer_args kind (flop_ct key)) (\<lambda>kw.
                   remeasure_file run batch_size kw records log_file)) (group_inputs to_measure_list) [] of
              Inl e \<Rightarrow> (s, Inl e)
            | Inr log_file \<Rightarrow> (Some log_file, Inr ())))))"

section \<open>Reports\<close>

text \<open>\<^verbatim>\<open>best_lines_convert\<close>: the lines the best records carry.\<close>

definition best_lines_convert :: "tlm_data list \<Rightarrow> string list" where
  "best_lines_convert ds = map da_line ds"

text \<open>The mean of no costs is not a number; \<^verbatim>\<open>min\<close> then keeps its first argument.\<close>

definition eval_best :: "tlm_line \<Rightarrow> (string, rat) dict \<Rightarrow> (string, rat) dict" where
  "eval_best rc d =
     (let m = (case map_of d (ln_workload_key rc) of None \<Rightarrow> no_latency | Some x \<Rightarrow> x);
          costs = ln_costs rc in
      AList.update (ln_workload_key rc)
        (if costs = [] then m else min m (sum_list costs / of_nat (length costs))) d)"

definition network_latency :: "(string, rat) dict \<Rightarrow> (search_task \<times> rat) list \<Rightarrow> rat" where
  "network_latency input_dict tws =
     foldl (\<lambda>lat tw. case map_of input_dict (tk_workload_key (fst tw)) of
                       None \<Rightarrow> lat | Some x \<Rightarrow> lat + x * snd tw) 0 tws"

text \<open>The table of networks and the sum of its last line, in seconds.\<close>

definition speedup_eval :: "tlm_line list \<Rightarrow> (string \<times> (search_task \<times> rat) list) list \<Rightarrow> (string, rat) dict \<times> rat" where
  "speedup_eval lines workloads =
     (let input_dict = fold eval_best lines [];
          table = fold (\<lambda>(name, tws) d. AList.update name
                     ((case map_of d name of None \<Rightarrow> 0 | Some v \<Rightarrow> v) + network_latency input_dict tws) d) workloads [] in
        (table, foldl (+) 0 (map snd table)))"

text \<open>\<^verbatim>\<open>speedup_train.py\<close>: \<^verbatim>\<open>read_gen_best_json\<close> reads the workload of the line a best record carries.\<close>

definition read_gen_best_json :: "(string \<times> rat) list \<Rightarrow> (string, rat) dict" where
  "read_gen_best_json rcs =
     fold (\<lambda>(key, latency) d. AList.update key
             (min (case map_of d key of None \<Rightarrow> no_latency | Some x \<Rightarrow> x) latency) d) rcs []"

definition eval_step :: "tlm_line \<Rightarrow> (string, rat) dict \<Rightarrow> (string, rat) dict py" where
  "eval_step rc d =
     bindE (mean_cost (ln_costs rc)) (\<lambda>latency.
       let m = (case map_of d (ln_workload_key rc) of None \<Rightarrow> no_latency | Some x \<Rightarrow> x) in
         Inr (AList.update (ln_workload_key rc) (min m latency) d))"

definition read_fine_tuning_min :: "tlm_line list \<Rightarrow> (string, rat) dict py" where
  "read_fine_tuning_min lines = foldE eval_step lines []"

record train_stats =
  ts_improve_cnt :: nat
  ts_improve_avg :: rat
  ts_degrade_cnt :: nat
  ts_degrade_avg :: rat
  ts_base_total :: rat
  ts_update_total :: rat

definition train_step :: "(string, rat) dict \<Rightarrow> string \<times> rat \<Rightarrow> train_stats \<Rightarrow> train_stats py" where
  "train_step update kc t = (case map_of update (fst kc) of
     None \<Rightarrow> Inr t
   | Some update_cost \<Rightarrow>
       bindE (py_div (snd kc) update_cost) (\<lambda>speed.
         let t' = t\<lparr>ts_base_total := ts_base_total t + snd kc, ts_update_total := ts_update_total t + update_cost\<rparr> in
         Inr (if speed > 1 then t'\<lparr>ts_improve_cnt := ts_improve_cnt t + 1, ts_improve_avg := ts_improve_avg t + speed\<rparr>
              else if speed < 1 then t'\<lparr>ts_degrade_cnt := ts_degrade_cnt t + 1, ts_degrade_avg := ts_degrade_avg t + speed\<rparr>
              else t')))"

definition train_report :: "(string \<times> rat) list \<Rightarrow> tlm_line list \<Rightarrow> (rat \<times> rat \<times> rat) py" where
  "train_report base_lines update_lines =
     bindE (read_fine_tuning_min update_lines) (\<lambda>update.
     bindE (foldE (train_step update) (read_gen_best_json base_lines)
              \<lparr>ts_improve_cnt = 0, ts_improve_avg = 0, ts_degrade_cnt = 0, ts_degrade_avg = 0, ts_base_total = 0, ts_update_total = 0\<rparr>) (\<lambda>t.
     bindE (py_div (ts_improve_avg t) (of_nat (ts_improve_cnt t))) (\<lambda>improve.
     bindE (py_div (ts_degrade_avg t) (of_nat (ts_degrade_cnt t))) (\<lambda>degrade.
     bindE (py_div (ts_base_total t) (ts_update_total t)) (\<lambda>improvement.
       Inr (improve, degrade, improvement))))))"

section \<open>Every program once\<close>

text \<open>The elements whose image under \<open>f\<close> has not occurred before.\<close>

fun first_by :: "('a \<Rightarrow> 'b) \<Rightarrow> 'b list \<Rightarrow> 'a list \<Rightarrow> 'a list" where
  "first_by f seen [] = []"
| "first_by f seen (x # xs) =
     (if f x \<in> set seen then first_by f seen xs else x # first_by f (seen @ [f x]) xs)"

lemma first_by_snoc:
  "first_by f seen (xs @ [x]) = first_by f seen xs @ (if f x \<in> set seen \<union> f ` set xs then [] else [x])"
  by (induction xs arbitrary: seen) auto

lemma first_by_subset: "set (first_by f seen xs) \<subseteq> set xs"
  by (induction f seen xs rule: first_by.induct) auto

lemma set_first_by: "f ` set (first_by f seen xs) = f ` set xs - set seen"
proof (induction xs arbitrary: seen)
  case (Cons x xs)
  then show ?case by auto
qed simp

lemma distinct_first_by: "distinct (map f (first_by f seen xs))"
proof (induction xs arbitrary: seen)
  case (Cons x xs)
  have "f x \<notin> f ` set (first_by f (seen @ [f x]) xs)" by (simp add: set_first_by)
  with Cons show ?case by simp
qed simp

definition post_inv :: "tlm_line list \<Rightarrow> post_state \<Rightarrow> bool" where
  "post_inv L s \<longleftrightarrow> po_measured s = map program_of (first_by program_of [] L) \<and>
     (\<forall>k. map_of (po_records s) k = (if k \<in> ln_workload_key ` set L
        then Some (filter (\<lambda>rc. ln_workload_key rc = k) (first_by program_of [] L)) else None))"

lemma post_line_inv:
  assumes "post_inv L s"
  shows "post_inv (L @ [rc]) (post_line rc s)"
proof -
  let ?k = "ln_workload_key rc"
  define recs where "recs = (if ?k \<in> fst ` set (po_records s) then po_records s else AList.update ?k [] (po_records s))"
  have keys: "fst ` set (po_records s) = ln_workload_key ` set L"
  proof -
    have "dom (map_of (po_records s)) = ln_workload_key ` set L"
      using assms unfolding post_inv_def by (auto simp: dom_def split: if_splits)
    then show ?thesis by (simp add: dom_map_of_conv_image_fst)
  qed
  have seen: "set (po_measured s) = program_of ` set L" using assms by (simp add: post_inv_def set_first_by)
  let ?f = "\<lambda>k. filter (\<lambda>rc. ln_workload_key rc = k) (first_by program_of [] L)"
  have none: "?f ?k = []" if "?k \<notin> ln_workload_key ` set L"
    unfolding filter_empty_conv using that first_by_subset[of program_of "[]" L] by (metis image_eqI subsetD)
  have recs: "map_of recs k = (if k \<in> insert ?k (ln_workload_key ` set L) then Some (?f k) else None)" for k
    using assms none by (auto simp: recs_def post_inv_def update_conv' keys)
  show ?thesis
  proof (cases "program_of rc \<in> set (po_measured s)")
    case True
    then have "post_line rc s = s\<lparr>po_records := recs\<rparr>" by (simp add: post_line_def recs_def[symmetric] Let_def)
    with True assms recs show ?thesis by (auto simp: post_inv_def first_by_snoc seen)
  next
    case False
    then have "post_line rc s = s\<lparr>po_records := AList.update ?k (?f ?k @ [rc]) recs, po_measured := po_measured s @ [program_of rc]\<rparr>"
      using recs[of ?k] by (simp add: post_line_def recs_def[symmetric] Let_def)
    with False assms recs show ?thesis by (auto simp: post_inv_def first_by_snoc seen update_conv')
  qed
qed

lemma post_read_inv: "post_inv (concat files) (post_read files)"
proof -
  have "post_inv L (fold post_line L \<lparr>po_records = [], po_measured = []\<rparr>)" for L
    by (induction L rule: rev_induct) (simp_all add: post_line_inv, simp add: post_inv_def)
  then show ?thesis by (simp add: post_read_def)
qed

lemma check_measured_iff: "check_measured (po_measured (post_read files)) i \<longleftrightarrow> i \<in> program_of ` set (concat files)"
  using post_read_inv[of files] by (simp add: post_inv_def check_measured_def set_first_by)


section \<open>Measured files\<close>

lemma concat_batches: "0 < n \<Longrightarrow> concat (batches n xs) = xs"
  by (induction n xs rule: batches.induct) (subst batches.simps, simp)

definition grouped :: "tlm_line list \<Rightarrow> (string, tlm_line list) dict \<Rightarrow> bool" where
  "grouped L d \<longleftrightarrow> distinct (map fst d) \<and> mset (concat (map snd d)) = mset L \<and>
     (\<forall>e \<in> set d. snd e \<noteq> [] \<and> (\<forall>rc \<in> set (snd e). ln_workload_key rc = fst e))"

lemma mset_update:
  "distinct (map fst d) \<Longrightarrow> mset (concat (map snd (AList.update k (l @ [x]) d))) + mset (case map_of d k of Some l' \<Rightarrow> l' | None \<Rightarrow> [])
     = mset (concat (map snd d)) + mset (l @ [x])"
proof (induction d)
  case (Cons e d)
  then show ?case by (cases "fst e = k") (auto simp: map_of_eq_None_iff[THEN iffD2] add_ac split: option.splits)
qed simp

lemma group_inputs_grouped: "grouped L (group_inputs L)"
proof (induction L rule: rev_induct)
  case (snoc rc L)
  let ?k = "ln_workload_key rc" and ?d = "group_inputs L"
  define l where "l = (case map_of ?d ?k of Some l \<Rightarrow> l | None \<Rightarrow> [])"
  have run: "group_inputs (L @ [rc]) = AList.update ?k (l @ [rc]) ?d" by (simp add: group_inputs_def l_def)
  have d: "distinct (map fst ?d)" "mset (concat (map snd ?d)) = mset L"
    "\<forall>e \<in> set ?d. snd e \<noteq> [] \<and> (\<forall>rc \<in> set (snd e). ln_workload_key rc = fst e)" using snoc by (simp_all add: grouped_def)
  have l: "\<forall>r \<in> set l. ln_workload_key r = ?k"
  proof (cases "map_of ?d ?k")
    case (Some l')
    then show ?thesis using d(3) map_of_SomeD[OF Some] by (force simp: l_def)
  qed (simp add: l_def)
  have "mset (concat (map snd (AList.update ?k (l @ [rc]) ?d))) + mset l = mset L + mset (l @ [rc])"
    using mset_update[OF d(1), of ?k l rc] d(2) by (simp only: l_def[symmetric])
  then have "mset (concat (map snd (AList.update ?k (l @ [rc]) ?d))) = mset (L @ [rc])" by simp
  moreover have "snd e \<noteq> [] \<and> (\<forall>rc \<in> set (snd e). ln_workload_key rc = fst e)" if "e \<in> set (AList.update ?k (l @ [rc]) ?d)" for e
  proof -
    have "e = (?k, l @ [rc]) \<or> e \<in> set ?d" using subsetD[OF set_alist_update that] by simp
    then show ?thesis using d(3) l by auto
  qed
  ultimately show ?case using d(1) by (simp add: grouped_def run distinct_update)
qed (simp add: grouped_def group_inputs_def)

definition kwargs_of :: "string \<Rightarrow> (string \<Rightarrow> rat) \<Rightarrow> tlm_line \<Rightarrow> measurer_kwargs" where
  "kwargs_of kind flop_ct rc = (case measurer_args kind (flop_ct (ln_workload_key rc)) of Inr kw \<Rightarrow> kw)"

lemma measurer_args_known: "kind \<in> {''llvm'', ''cuda''} \<Longrightarrow> \<exists>kw. measurer_args kind x = Inr kw"
  by (auto simp: measurer_args_def)

lemma measure_groups:
  assumes "\<And>kw xs. run kw xs = map (meas kw) xs" "0 < n" "kind \<in> {''llvm'', ''cuda''}"
    "\<forall>e \<in> set d. snd e \<noteq> [] \<and> (\<forall>rc \<in> set (snd e). ln_workload_key rc = fst e)"
  shows "foldE (\<lambda>(key, records) log_file. bindE (measurer_args kind (flop_ct key)) (\<lambda>kw.
        remeasure_file run n kw records log_file)) d out
     = Inr (out @ map (\<lambda>rc. meas (kwargs_of kind flop_ct rc) rc) (concat (map snd d)))"
  using assms(4)
proof (induction d arbitrary: out)
  case (Cons e d)
  obtain k l where e: "e = (k, l)" by (cases e)
  obtain kw where kw: "measurer_args kind (flop_ct k) = Inr kw" using measurer_args_known[OF assms(3)] by blast
  have l: "l \<noteq> []" "\<forall>rc \<in> set l. kwargs_of kind flop_ct rc = kw" using Cons.prems kw by (auto simp: e kwargs_of_def)
  have "run kw = map (meas kw)" by (rule ext) (rule assms(1))
  then have "concat (map (run kw) (batches n l)) = concat (map (map (meas kw)) (batches n l))" by simp
  also have "\<dots> = map (meas kw) l"
    using concat_batches[OF assms(2), of l] by (metis map_concat)
  also have "\<dots> = map (\<lambda>rc. meas (kwargs_of kind flop_ct rc) rc) l" using l(2) by simp
  finally have "remeasure_file run n kw l out = Inr (out @ map (\<lambda>rc. meas (kwargs_of kind flop_ct rc) rc) l)"
    using l(1) assms(2) by (simp add: remeasure_file_def py_nth_def)
  with Cons kw show ?case by (simp add: e)
qed simp

text \<open>C25: one run of \<^verbatim>\<open>measure_programs.py\<close>. The measurer returns one record per input. With a positive batch size and a
  known target it ends normally, and afterwards the measured file holds exactly one record for each program of the
  input file that the measured file did not hold before, whatever the batches.\<close>

theorem measure_main_measures_new:
  assumes "\<And>kw xs. run kw xs = map (meas kw) xs" "0 < n" "kind \<in> {''llvm'', ''cuda''}" "before \<noteq> Some []"
  shows "\<exists>out. measure_main run flop_ct kind n to_measure before = (Some out, Inr ()) \<and>
     mset out = image_mset (\<lambda>rc. meas (kwargs_of kind flop_ct rc) rc)
       (mset (filter (\<lambda>rc. program_of rc \<notin> program_of ` set (case before of Some l \<Rightarrow> l | None \<Rightarrow> [])) to_measure))"
proof -
  have rd: "read_measured before = Inr (map program_of (case before of Some l \<Rightarrow> l | None \<Rightarrow> []))"
    using assms(4) by (auto simp: read_measured_def split: option.split)
  define new where "new = filter (\<lambda>rc. program_of rc \<notin> program_of ` set (case before of Some l \<Rightarrow> l | None \<Rightarrow> [])) to_measure"
  have g: "mset (concat (map snd (group_inputs new))) = mset new"
    "\<forall>e \<in> set (group_inputs new). snd e \<noteq> [] \<and> (\<forall>rc \<in> set (snd e). ln_workload_key rc = fst e)"
    using group_inputs_grouped[of new] by (simp_all add: grouped_def)
  let ?out = "map (\<lambda>rc. meas (kwargs_of kind flop_ct rc) rc) (concat (map snd (group_inputs new)))"
  have "measure_main run flop_ct kind n to_measure before = (Some ?out, Inr ())"
    using measure_groups[where run = run and meas = meas and flop_ct = flop_ct and out = "[]", OF assms(1-3) g(2)]
    by (simp add: measure_main_def rd new_def bindS_def Let_def)
  moreover have "mset ?out = image_mset (\<lambda>rc. meas (kwargs_of kind flop_ct rc) rc) (mset new)" using g(1) by simp
  ultimately show ?thesis unfolding new_def by blast
qed

theorem measure_main_measures_new_witness:
  "\<exists>out. measure_main (\<lambda>kw. map (\<lambda>rc. rc\<lparr>ln_costs := [1]\<rparr>)) (\<lambda>k. 1) ''llvm'' 64 [demo_line ''a'' [0], demo_line ''b'' [0]]
     (Some [demo_line ''a'' [2]]) = (Some out, Inr ()) \<and> mset out = {#(demo_line ''b'' [0])\<lparr>ln_costs := [1]\<rparr>#}"
  using measure_main_measures_new[of "\<lambda>kw. map (\<lambda>rc. rc\<lparr>ln_costs := [1]\<rparr>)" "\<lambda>kw rc. rc\<lparr>ln_costs := [1]\<rparr>" 64 "''llvm''"
      "Some [demo_line ''a'' [2]]" "\<lambda>k. 1" "[demo_line ''a'' [0], demo_line ''b'' [0]]"]
  by (simp add: program_of_def demo_line_def)

text \<open>Results are lost on a second run. If the measured file already holds every program of the input file, the run
  measures nothing and leaves the measured file empty; the run after that one fails on the empty file.\<close>

theorem remeasure_discards_results:
  assumes "before \<noteq> []" "program_of ` set to_measure \<subseteq> program_of ` set before"
  shows "measure_main run flop_ct kind n to_measure (Some before) = (Some [], Inr ()) \<and>
     measure_main run flop_ct kind n to_measure (fst (measure_main run flop_ct kind n to_measure (Some before))) = (Some [], Inl ValueError)"
proof -
  have "filter (\<lambda>rc. program_of rc \<notin> program_of ` set before) to_measure = []"
    using assms(2) by (auto simp: filter_empty_conv)
  then have 1: "measure_main run flop_ct kind n to_measure (Some before) = (Some [], Inr ())"
    using assms(1) by (simp add: measure_main_def read_measured_def bindS_def group_inputs_def Let_def)
  have "measure_main run flop_ct kind n to_measure (Some []) = (Some [], Inl ValueError)"
    by (simp add: measure_main_def read_measured_def bindS_def)
  with 1 show ?thesis by simp
qed

theorem remeasure_discards_results_witness:
  "measure_main (\<lambda>kw xs. xs) (\<lambda>k. 1) ''llvm'' 64 [demo_line ''a'' [0]] (Some [demo_line ''a'' [2]]) = (Some [], Inr ())"
  using remeasure_discards_results[of "[demo_line ''a'' [2]]" "[demo_line ''a'' [0]]" "\<lambda>kw xs. xs" "\<lambda>k. 1" "''llvm''" 64]
  by (simp add: program_of_def demo_line_def)

section \<open>Report of the training\<close>

lemma train_no_degrade:
  assumes "\<forall>kc \<in> set base. \<forall>u. map_of update (fst kc) = Some u \<longrightarrow> 0 < u \<and> u \<le> snd kc"
  shows "\<exists>t'. foldE (train_step update) base t = Inr t' \<and> ts_degrade_cnt t' = ts_degrade_cnt t"
  using assms
proof (induction base arbitrary: t)
  case (Cons kc base)
  have "\<exists>t1. train_step update kc t = Inr t1 \<and> ts_degrade_cnt t1 = ts_degrade_cnt t"
  proof (cases "map_of update (fst kc)")
    case (Some u)
    then have u: "0 < u" "1 \<le> snd kc / u" using Cons.prems by auto
    then show ?thesis using Some by (simp add: train_step_def py_div_def Let_def)
  qed (simp add: train_step_def)
  with Cons show ?case by force
qed simp

text \<open>The report of \<^verbatim>\<open>speedup_train.py\<close> divides by the number of degraded workloads: when no workload has
  become slower it fails with a division by zero instead of printing the improvement.\<close>

theorem all_improved_report_raises:
  assumes "read_fine_tuning_min update_lines = Inr update"
    "\<forall>kc \<in> set (read_gen_best_json base_lines). \<forall>u. map_of update (fst kc) = Some u \<longrightarrow> 0 < u \<and> u \<le> snd kc"
  shows "train_report base_lines update_lines = Inl ZeroDivisionError"
proof -
  obtain t where t: "foldE (train_step update) (read_gen_best_json base_lines)
      \<lparr>ts_improve_cnt = 0, ts_improve_avg = 0, ts_degrade_cnt = 0, ts_degrade_avg = 0, ts_base_total = 0, ts_update_total = 0\<rparr> = Inr t"
    "ts_degrade_cnt t = 0"
    using train_no_degrade[OF assms(2)] by fastforce
  then show ?thesis using assms(1) by (cases "ts_improve_cnt t = 0") (simp_all add: train_report_def py_div_def)
qed

theorem all_improved_report_raises_witness:
  "train_report [(''a'', 4)] [demo_line ''a'' [2]] = Inl ZeroDivisionError"
proof -
  have u: "read_fine_tuning_min [demo_line ''a'' [2]] = Inr [(''a'', 2)]"
    by (simp add: read_fine_tuning_min_def eval_step_def mean_cost_def py_div_def demo_line_def no_latency_def)
  show ?thesis by (rule all_improved_report_raises[OF u]) (simp add: read_gen_best_json_def no_latency_def)
qed

section \<open>Report of the evaluation\<close>

lemma network_latency_sum:
  "network_latency d tws = (\<Sum>tw \<leftarrow> tws. case map_of d (tk_workload_key (fst tw)) of None \<Rightarrow> 0 | Some x \<Rightarrow> x * snd tw)"
proof -
  have "foldl (\<lambda>lat tw. case map_of d (tk_workload_key (fst tw)) of None \<Rightarrow> lat | Some x \<Rightarrow> lat + x * snd tw) a tws
      = a + (\<Sum>tw \<leftarrow> tws. case map_of d (tk_workload_key (fst tw)) of None \<Rightarrow> 0 | Some x \<Rightarrow> x * snd tw)" for a
    by (induction tws arbitrary: a) (auto split: option.split)
  then show ?thesis by (simp add: network_latency_def)
qed

text \<open>The printed total is the weighted sum of the best latencies of all measured tasks of the networks.\<close>

lemma speedup_eval_total:
  assumes "distinct (map fst workloads)"
  shows "snd (speedup_eval lines workloads) =
     (\<Sum>nt \<leftarrow> workloads. \<Sum>tw \<leftarrow> snd nt. case map_of (fold eval_best lines []) (tk_workload_key (fst tw)) of None \<Rightarrow> 0 | Some x \<Rightarrow> x * snd tw)"
proof -
  let ?d = "fold eval_best lines []"
  have table: "fold (\<lambda>(name, tws) d. AList.update name
      ((case map_of d name of None \<Rightarrow> 0 | Some v \<Rightarrow> v) + network_latency ?d tws) d) workloads []
    = map (\<lambda>nt. (fst nt, network_latency ?d (snd nt))) workloads"
    using assms
  proof (induction workloads rule: rev_induct)
    case (snoc nt workloads)
    have new: "fst nt \<notin> fst ` set (map (\<lambda>nt. (fst nt, network_latency ?d (snd nt))) workloads)" using snoc.prems by (auto simp: image_image)
    then have "map_of (map (\<lambda>nt. (fst nt, network_latency ?d (snd nt))) workloads) (fst nt) = None" by (simp add: map_of_eq_None_iff)
    with snoc new show ?case by (simp add: case_prod_unfold update_new)
  qed simp
  have "foldl (+) a xs = a + sum_list xs" for a :: rat and xs by (induction xs arbitrary: a) (auto simp: add_ac)
  then show ?thesis unfolding network_latency_sum[symmetric] by (simp add: speedup_eval_def table comp_def Let_def)
qed

end
