(* ===== verification/TLM_Generate.thy ===== *)
theory TLM_Generate
  imports TLM_Records
begin

text \<open>
  The generation of programs: \<^verbatim>\<open>gen/dump_programs.py\<close> samples random programs of every task until it
  has enough different ones, \<^verbatim>\<open>gen/gen_state.py\<close> lets the language model complete sketches, drops
  repeated, measured and broken programs, keeps a bounded number per workload and distributes the
  workloads over the GPUs. The search policy, the model, the builder and \<^verbatim>\<open>random.sample\<close> are
  arguments; a state is of any type \<open>'s\<close> with its printed form.
\<close>

section \<open>Random programs\<close>

definition add_states :: "('s \<Rightarrow> string) \<Rightarrow> 's list \<Rightarrow> 's list \<Rightarrow> 's list" where
  "add_states str states all = fold (\<lambda>s all. if str s \<in> str ` set all then all else all @ [s]) states all"

lemma add_states_extends: "\<exists>new. add_states str states all = all @ new \<and> set new \<subseteq> set states \<and>
    str ` set states \<subseteq> str ` set (add_states str states all)"
proof (induction states arbitrary: all)
  case (Cons s states)
  let ?all = "if str s \<in> str ` set all then all else all @ [s]"
  obtain new where new: "add_states str states ?all = ?all @ new" "set new \<subseteq> set states"
    "str ` set states \<subseteq> str ` set (add_states str states ?all)" using Cons by blast
  have run: "add_states str (s # states) all = add_states str states ?all" by (simp add: add_states_def)
  show ?case unfolding run using new by (cases "str s \<in> str ` set all") auto
qed (simp add: add_states_def)

lemma length_add_states: "length all \<le> length (add_states str states all)"
  using add_states_extends[of str states all] by auto

function dump_loop :: "('s \<Rightarrow> string) \<Rightarrow> (nat \<Rightarrow> 's list) \<Rightarrow> nat \<Rightarrow> nat \<Rightarrow> nat \<Rightarrow> nat \<Rightarrow> 's list \<Rightarrow> 's list" where
  "dump_loop str sample want max_retry_iter i retry_ct all =
     (if length all < want \<and> retry_ct < max_retry_iter then
        let all' = add_states str (sample i) all in
        if length all' \<ge> want then all'
        else if length all = length all' then dump_loop str sample want max_retry_iter (Suc i) (Suc retry_ct) all'
        else dump_loop str sample want max_retry_iter (Suc i) 0 all'
      else all)"
  by pat_completeness auto

termination
proof (relation "measures [\<lambda>(str, sample, want, m, i, r, all). want - length all, \<lambda>(str, sample, want, m, i, r, all). m - r]")
  fix str :: "'s \<Rightarrow> string" and sample :: "nat \<Rightarrow> 's list" and want m i r :: nat and all x :: "'s list"
  assume "length all < want \<and> r < m" "x = add_states str (sample i) all" "\<not> length x \<ge> want" "length all \<noteq> length x"
  moreover from this length_add_states[of all str "sample i"] have "want - length x < want - length all" by simp
  ultimately show "((str, sample, want, m, Suc i, 0, x), str, sample, want, m, i, r, all)
      \<in> measures [\<lambda>(str, sample, want, m, i, r, all). want - length all, \<lambda>(str, sample, want, m, i, r, all). m - r]"
    by simp
qed (simp_all, linarith)

declare dump_loop.simps [simp del]

text \<open>One task: the programs are written once, an existing file is left alone.\<close>

definition dump_program ::
    "data_paths \<Rightarrow> ('s \<Rightarrow> string) \<Rightarrow> (nat \<Rightarrow> 's list) \<Rightarrow> nat \<Rightarrow> search_task \<Rightarrow> ((string, 's list) dict, unit) st" where
  "dump_program p str sample want task =
     bindS (liftS (get_to_measure_filename p task)) (\<lambda>filename.
     bindS (getS (\<lambda>d. filename \<in> fst ` set d)) (\<lambda>exists.
       if exists then returnS ()
       else modifyS (AList.update filename (dump_loop str sample want 5 0 0 []))))"

section \<open>Completed sketches\<close>

definition gen_func :: "('t list \<Rightarrow> 'r list) \<Rightarrow> ('s list \<Rightarrow> 't list py) \<Rightarrow> 's list \<Rightarrow> 'r list py" where
  "gen_func generate to_tokens states =
     (if states = [] then Inr []
      else bindE (to_tokens states) (\<lambda>tokens. Inr (concat (map generate (batches 64 tokens)))))"

text \<open>What the worker calls: \<^verbatim>\<open>policy.gen_states\<close> in a round, \<^verbatim>\<open>to_json\<close>, the builder and \<^verbatim>\<open>random.sample\<close>.\<close>

record 's worker_env =
  we_gen :: "string \<Rightarrow> 's list \<Rightarrow> nat \<Rightarrow> 's list py"
  we_json :: "'s \<Rightarrow> program_key"
  we_measured :: "program_key list"
  we_build :: "'s \<Rightarrow> bool"
  we_sample :: "nat \<Rightarrow> 's list \<Rightarrow> 's list"
  we_allow_repeat :: bool
  we_is_build :: bool
  we_keep_cnt :: nat

definition new_inputs :: "('s, 'm) worker_env_scheme \<Rightarrow> 's list \<Rightarrow> program_key list \<Rightarrow> 's list \<times> program_key list" where
  "new_inputs env states input_set =
     fold (\<lambda>s (tmp, seen).
             if we_json env s \<in> set seen then (tmp, seen)
             else if \<not> we_allow_repeat env \<and> check_measured (we_measured env) (we_json env s) then (tmp, seen)
             else (tmp @ [s], seen @ [we_json env s])) states ([], input_set)"

fun gen_loop ::
    "('s, 'm) worker_env_scheme \<Rightarrow> string \<Rightarrow> 's list \<Rightarrow> nat \<Rightarrow> nat \<Rightarrow> program_key list \<Rightarrow> 's list \<Rightarrow> 's list py" where
  "gen_loop env key inputs retry_i 0 input_set measure_inputs = Inr measure_inputs"
| "gen_loop env key inputs retry_i (Suc n) input_set measure_inputs =
     bindE (we_gen env key inputs retry_i) (\<lambda>all_state_list.
     let (tmp, input_set') = new_inputs env all_state_list input_set;
         measure_inputs' = measure_inputs @ (if we_is_build env then filter (we_build env) tmp else tmp) in
       if length measure_inputs' \<ge> we_keep_cnt env then Inr measure_inputs'
       else gen_loop env key inputs (Suc retry_i) n input_set' measure_inputs')"

definition gen_workload :: "('s, 'm) worker_env_scheme \<Rightarrow> string \<times> 's list \<Rightarrow> 's list py" where
  "gen_workload env ki =
     bindE (py_nth (snd ki) 0) (\<lambda>_.
     bindE (gen_loop env (fst ki) (snd ki) 0 5 [] []) (\<lambda>measure_inputs.
       Inr (if length measure_inputs > we_keep_cnt env then we_sample env (we_keep_cnt env) measure_inputs
            else measure_inputs)))"

definition gen_worker :: "('s, 'm) worker_env_scheme \<Rightarrow> (string \<times> 's list) list \<Rightarrow> 's list py" where
  "gen_worker env kis = bindE (mapE (gen_workload env) kis) (\<lambda>outs. Inr (concat outs))"

text \<open>The parts \<^verbatim>\<open>xs[i * per_len : (i + 1) * per_len]\<close> with \<^verbatim>\<open>per_len = math.ceil(len(xs) / n)\<close>.\<close>

definition slices :: "nat \<Rightarrow> 'a list \<Rightarrow> 'a list list" where
  "slices n xs = (let per_len = (length xs + n - 1) div n in map (\<lambda>i. take per_len (drop (i * per_len) xs)) [0..<n])"

text \<open>The inputs grouped by workload, distributed over the GPUs; an exception of a worker is raised again. The
  parts are joined in the order of their names.\<close>

definition group_sketches :: "('s \<Rightarrow> string) \<Rightarrow> 's list \<Rightarrow> (string, 's list) dict" where
  "group_sketches workload_key inputs =
     fold (\<lambda>s d. AList.update (workload_key s) ((case map_of d (workload_key s) of Some l \<Rightarrow> l | None \<Rightarrow> []) @ [s]) d) inputs []"

definition gen_state_main ::
    "('s, 'm) worker_env_scheme \<Rightarrow> (string \<Rightarrow> 'k::linorder) \<Rightarrow> ('s \<Rightarrow> string) \<Rightarrow> nat \<Rightarrow> 's list \<Rightarrow> 's list py" where
  "gen_state_main env collate workload_key num_gpus inputs =
     (if num_gpus = 0 then Inl ZeroDivisionError
      else bindE (mapE (gen_worker env) (slices num_gpus (group_sketches workload_key inputs))) (\<lambda>parts.
        Inr (concat (map snd (sort_key (collate \<circ> fst) (zip (part_names num_gpus) parts))))))"

section \<open>Sampled programs\<close>

lemma distinct_add_states: "distinct (map str all) \<Longrightarrow> distinct (map str (add_states str states all))"
proof (induction states arbitrary: all)
  case (Cons s states)
  have "distinct (map str (if str s \<in> str ` set all then all else all @ [s]))" using Cons.prems by auto
  from Cons.IH[OF this] show ?case by (simp add: add_states_def)
qed (simp add: add_states_def)

definition dump_inv :: "('s \<Rightarrow> string) \<Rightarrow> (nat \<Rightarrow> 's list) \<Rightarrow> nat \<Rightarrow> nat \<Rightarrow> 's list \<Rightarrow> bool" where
  "dump_inv str sample i retry all \<longleftrightarrow> distinct (map str all) \<and> set all \<subseteq> (\<Union>j. set (sample j)) \<and> retry \<le> i \<and>
     (\<forall>j \<in> {i - retry..<i}. str ` set (sample j) \<subseteq> str ` set all)"

lemma dump_loop_result:
  "dump_inv str sample i retry all \<Longrightarrow> retry \<le> m \<Longrightarrow>
   \<exists>i' r'. dump_inv str sample i' r' (dump_loop str sample want m i retry all) \<and>
     (want \<le> length (dump_loop str sample want m i retry all) \<or> r' = m)"
proof (induction str sample want m i retry all rule: dump_loop.induct)
  case (1 str sample want m i retry all)
  define all' where "all' = add_states str (sample i) all"
  obtain new where new: "all' = all @ new" "set new \<subseteq> set (sample i)" "str ` set (sample i) \<subseteq> str ` set all'"
    using add_states_extends[of str "sample i" all] by (auto simp: all'_def)
  have d: "distinct (map str all')" using 1(3) by (simp add: all'_def dump_inv_def distinct_add_states)
  have sub: "set all' \<subseteq> (\<Union>j. set (sample j))" using 1(3) new by (auto simp: dump_inv_def)
  show ?case
  proof (cases "length all < want \<and> retry < m")
    case False
    then show ?thesis using 1(3,4) by (intro exI[of _ i] exI[of _ retry]) (auto simp: dump_loop.simps)
  next
    case run: True
    show ?thesis
    proof (cases "want \<le> length all'")
      case True
      then have "dump_loop str sample want m i retry all = all'"
        using run by (simp add: dump_loop.simps[of str sample want m i] all'_def Let_def)
      moreover have "dump_inv str sample i 0 all'" using d sub by (simp add: dump_inv_def)
      ultimately show ?thesis using True by metis
    next
      case False
      show ?thesis
      proof (cases "length all = length all'")
        case True
        then have same: "all' = all" using new by simp
        have "{Suc i - Suc retry..<Suc i} = insert i {i - retry..<i}" using 1(3) by (auto simp: dump_inv_def)
        then have "dump_inv str sample (Suc i) (Suc retry) all'"
          using 1(3) new(3) same unfolding dump_inv_def by (simp only: ball_simps) simp
        from 1(1)[OF run all'_def False True this] run
        have "\<exists>i' r'. dump_inv str sample i' r' (dump_loop str sample want m (Suc i) (Suc retry) all') \<and>
            (want \<le> length (dump_loop str sample want m (Suc i) (Suc retry) all') \<or> r' = m)" by simp
        then show ?thesis using run False True
          by (simp add: dump_loop.simps[of str sample want m i retry] all'_def[symmetric] Let_def)
      next
        case longer: False
        have "dump_inv str sample (Suc i) 0 all'" using d sub by (simp add: dump_inv_def)
        from 1(2)[OF run all'_def False longer this]
        have "\<exists>i' r'. dump_inv str sample i' r' (dump_loop str sample want m (Suc i) 0 all') \<and>
            (want \<le> length (dump_loop str sample want m (Suc i) 0 all') \<or> r' = m)" by simp
        then show ?thesis using run False longer
          by (simp add: dump_loop.simps[of str sample want m i retry] all'_def[symmetric] Let_def)
      qed
    qed
  qed
qed

text \<open>C31: the loop of \<^verbatim>\<open>dump_program\<close> ends for every sampler, and leaves sampled programs of different printed form: as
  many as wanted, or all the last five samples offered. A file that exists is not written again.\<close>

theorem dump_programs_unique:
  "let all = dump_loop str sample want 5 0 0 [] in
     distinct (map str all) \<and> set all \<subseteq> (\<Union>i. set (sample i)) \<and>
     (want \<le> length all \<or> (\<exists>i. \<forall>j \<in> {i..<i + 5}. str ` set (sample j) \<subseteq> str ` set all)) \<and>
     (\<forall>p task filename d. get_to_measure_filename p task = Inr filename \<longrightarrow>
        dump_program p str sample want task d =
          (if filename \<in> fst ` set d then d else AList.update filename all d, Inr ()))"
proof -
  let ?all = "dump_loop str sample want 5 0 0 []"
  have "dump_inv str sample 0 0 []" by (simp add: dump_inv_def)
  then obtain i r where r: "dump_inv str sample i r ?all" "want \<le> length ?all \<or> r = 5"
    using dump_loop_result[of str sample 0 0 "[]" 5 want] by auto
  have "\<exists>i. \<forall>j \<in> {i..<i + 5}. str ` set (sample j) \<subseteq> str ` set ?all" if "r = 5"
    using r(1) that by (intro exI[of _ "i - 5"]) (auto simp: dump_inv_def)
  with r show ?thesis by (auto simp: Let_def dump_inv_def dump_program_def bindS_def)
qed

theorem dump_programs_unique_witness:
  "dump_program (no_paths\<lparr>dp_to_measure := Some ''d''\<rparr>) id (\<lambda>i. [''x'', ''y'', ''x'']) 1
     \<lparr>tk_workload_key = ''k'', tk_target_kind = ''llvm''\<rparr> [] = ([(''d/(k,llvm).json'', [''x'', ''y''])], Inr ())"
proof -
  let ?p = "no_paths\<lparr>dp_to_measure := Some ''d''\<rparr>" and ?t = "\<lparr>tk_workload_key = ''k'', tk_target_kind = ''llvm''\<rparr>"
  have name: "get_to_measure_filename ?p ?t = Inr ''d/(k,llvm).json''"
    by (simp add: get_to_measure_filename_def the_folder_def task_key_def clean_name_filter repr_string_def repr_char_def Let_def)
  have all: "dump_loop id (\<lambda>i. [''x'', ''y'', ''x'']) 1 5 0 0 [] = [''x'', ''y'']"
    by (simp add: dump_loop.simps add_states_def Let_def)
  have "\<forall>p task filename d. get_to_measure_filename p task = Inr filename \<longrightarrow>
      dump_program p id (\<lambda>i. [''x'', ''y'', ''x'']) 1 task d =
        (if filename \<in> fst ` set d then d else AList.update filename [''x'', ''y''] d, Inr ())"
    using dump_programs_unique[of id "\<lambda>i. [''x'', ''y'', ''x'']" 1] unfolding Let_def all by (elim conjE)
  with name show ?thesis by simp
qed

section \<open>Generated programs\<close>

lemma concat_take_drop: "concat (map (\<lambda>i. take p (drop (i * p) xs)) [0..<k]) = take (k * p) xs"
proof (induction k)
  case (Suc k)
  have "concat (map (\<lambda>i. take p (drop (i * p) xs)) [0..<Suc k]) = take (k * p) xs @ take p (drop (k * p) xs)" using Suc by simp
  also have "\<dots> = take (k * p + p) xs" by (simp add: take_add)
  finally show ?case by (simp add: add.commute)
qed simp

lemma concat_slices: "0 < n \<Longrightarrow> concat (slices n xs) = xs"
proof -
  assume n: "0 < n"
  have "length xs \<le> n * ((length xs + n - 1) div n)"
  proof -
    have "length xs + n - 1 = n * ((length xs + n - 1) div n) + (length xs + n - 1) mod n" by simp
    moreover have "(length xs + n - 1) mod n < n" using n by simp
    ultimately show ?thesis by linarith
  qed
  then show ?thesis unfolding slices_def Let_def concat_take_drop by simp
qed

lemma length_slices [simp]: "length (slices n xs) = n"
  by (simp add: slices_def Let_def)

text \<open>A collected program: not repeated, not measured unless that is allowed.\<close>

definition fresh :: "('s, 'm) worker_env_scheme \<Rightarrow> 's \<Rightarrow> bool" where
  "fresh env s \<longleftrightarrow> we_allow_repeat env \<or> we_json env s \<notin> set (we_measured env)"

lemma new_inputs_spec:
  assumes "new_inputs env states seen = (tmp, seen')"
  shows "seen' = seen @ map (we_json env) tmp \<and> distinct (map (we_json env) tmp) \<and>
     set (map (we_json env) tmp) \<inter> set seen = {} \<and> list_all (fresh env) tmp"
proof -
  let ?f = "\<lambda>s (tmp, seen).
     if we_json env s \<in> set seen then (tmp, seen)
     else if \<not> we_allow_repeat env \<and> check_measured (we_measured env) (we_json env s) then (tmp, seen)
     else (tmp @ [s], seen @ [we_json env s])"
  have "case fold ?f states ([], seen) of (tmp, seen') \<Rightarrow> seen' = seen @ map (we_json env) tmp \<and> distinct (map (we_json env) tmp) \<and>
     set (map (we_json env) tmp) \<inter> set seen = {} \<and> list_all (fresh env) tmp"
  proof (induction states rule: rev_induct)
    case (snoc s states)
    obtain t z where tz: "fold ?f states ([], seen) = (t, z)" by (cases "fold ?f states ([], seen)")
    have "fold ?f (states @ [s]) ([], seen) = ?f s (t, z)" by (simp add: tz)
    then show ?case using snoc tz by (auto simp: fresh_def check_measured_def)
  qed simp
  with assms show ?thesis by (simp add: new_inputs_def)
qed

definition programs_ok :: "('s, 'm) worker_env_scheme \<Rightarrow> 's list \<Rightarrow> bool" where
  "programs_ok env out \<longleftrightarrow> distinct (map (we_json env) out) \<and> list_all (fresh env) out \<and>
     (we_is_build env \<longrightarrow> list_all (we_build env) out)"

lemma gen_loop_ok:
  assumes "\<And>k ins i. \<exists>ss. we_gen env k ins i = Inr ss"
  shows "programs_ok env acc \<Longrightarrow> we_json env ` set acc \<subseteq> set seen \<Longrightarrow>
     \<exists>out. gen_loop env key inputs r n seen acc = Inr out \<and> programs_ok env out"
proof (induction n arbitrary: r seen acc)
  case (Suc n)
  obtain ss where ss: "we_gen env key inputs r = Inr ss" using assms by blast
  obtain tmp seen' where t: "new_inputs env ss seen = (tmp, seen')" by (cases "new_inputs env ss seen")
  have spec: "seen' = seen @ map (we_json env) tmp" "distinct (map (we_json env) tmp)"
    "set (map (we_json env) tmp) \<inter> set seen = {}" "list_all (fresh env) tmp" using new_inputs_spec[OF t] by auto
  define new where "new = (if we_is_build env then filter (we_build env) tmp else tmp)"
  have new: "distinct (map (we_json env) new)" "we_json env ` set new \<subseteq> set (map (we_json env) tmp)"
    "list_all (fresh env) new" "we_is_build env \<longrightarrow> list_all (we_build env) new"
    using spec(2,4) by (auto simp: new_def list_all_iff distinct_map_filter)
  have "we_json env ` set acc \<inter> we_json env ` set new = {}" using Suc.prems(2) spec(3) new(2) by blast
  then have ok: "programs_ok env (acc @ new)" using Suc.prems(1) new by (auto simp: programs_ok_def)
  have "we_json env ` set (acc @ new) \<subseteq> set seen'" using Suc.prems(2) new(2) spec(1) by (simp add: image_Un) blast
  from Suc.IH[OF ok this] ok show ?case using ss t by (simp add: new_def[symmetric] Let_def)
qed simp

text \<open>\<^verbatim>\<open>random.sample\<close> returns the elements at different positions.\<close>

definition samples :: "(nat \<Rightarrow> 's list \<Rightarrow> 's list) \<Rightarrow> bool" where
  "samples f \<longleftrightarrow> (\<forall>k xs. k \<le> length xs \<longrightarrow>
     (\<exists>is. distinct is \<and> set is \<subseteq> {..<length xs} \<and> length is = k \<and> f k xs = map ((!) xs) is))"

lemma programs_ok_sample:
  assumes "samples f" "programs_ok env xs" "k \<le> length xs"
  shows "programs_ok env (f k xs)" "length (f k xs) = k"
proof -
  obtain ps where ps: "distinct ps" "set ps \<subseteq> {..<length xs}" "length ps = k" "f k xs = map ((!) xs) ps"
    using assms(1,3) unfolding samples_def by blast
  have d: "distinct (map (we_json env) xs)" using assms(2) by (simp add: programs_ok_def)
  have "inj_on (\<lambda>i. we_json env (xs ! i)) (set ps)"
  proof (rule inj_onI)
    fix i j assume "i \<in> set ps" "j \<in> set ps" "we_json env (xs ! i) = we_json env (xs ! j)"
    moreover have "i < length xs" "j < length xs" using calculation(1,2) ps(2) by auto
    ultimately show "i = j" using nth_eq_iff_index_eq[OF d, of i j] by simp
  qed
  then have "distinct (map (we_json env) (f k xs))" using ps(1,4) by (simp add: distinct_map comp_def)
  moreover have "set (f k xs) \<subseteq> set xs" using ps(2,4) by auto
  ultimately show "programs_ok env (f k xs)" using assms(2) by (auto simp: programs_ok_def list_all_iff)
  show "length (f k xs) = k" using ps(3,4) by simp
qed

lemma gen_workload_ok:
  assumes "\<And>k ins i. \<exists>ss. we_gen env k ins i = Inr ss" "samples (we_sample env)" "snd ki \<noteq> []"
  obtains out where "gen_workload env ki = Inr out" "programs_ok env out" "length out \<le> we_keep_cnt env"
proof -
  obtain out where out: "gen_loop env (fst ki) (snd ki) 0 5 [] [] = Inr out" "programs_ok env out"
    using gen_loop_ok[OF assms(1), of "[]" "[]" "fst ki" "snd ki" 0 5] by (auto simp: programs_ok_def)
  show thesis
  proof (cases "length out > we_keep_cnt env")
    case True
    with programs_ok_sample[OF assms(2) out(2), of "we_keep_cnt env"] out(1) assms(3) show thesis
      by (intro that[of "we_sample env (we_keep_cnt env) out"]) (simp_all add: gen_workload_def py_nth_def)
  next
    case False
    with out assms(3) show thesis by (intro that[of out]) (simp_all add: gen_workload_def py_nth_def)
  qed
qed

lemma group_sketches_nonempty: "\<forall>e \<in> set (group_sketches wk inputs). snd e \<noteq> []"
proof (induction inputs rule: rev_induct)
  case (snoc s inputs)
  let ?d = "group_sketches wk inputs"
  let ?l = "(case map_of ?d (wk s) of Some l \<Rightarrow> l | None \<Rightarrow> []) @ [s]"
  have "snd e \<noteq> []" if "e \<in> set (AList.update (wk s) ?l ?d)" for e
    using subsetD[OF set_alist_update that] snoc by auto
  then show ?case by (simp add: group_sketches_def)
qed (simp add: group_sketches_def)



text \<open>A model that completes each prompt on its own gives the same answers in batches.\<close>

lemma gen_func_batches:
  assumes "\<And>ts. generate ts = map g ts" "states \<noteq> []" "to_tokens states = Inr tokens"
  shows "gen_func generate to_tokens states = Inr (map g tokens)"
proof -
  have "generate = map g" by (rule ext) (rule assms(1))
  then have "concat (map generate (batches 64 tokens)) = map g (concat (batches 64 tokens))" by (simp add: map_concat)
  then show ?thesis using assms(2,3) by (simp add: gen_func_def concat_batches)
qed

end
