(* ===== verification/TLM_Workers.thy ===== *)
theory TLM_Workers
  imports TLM_Generate
begin

text \<open>
  The measuring server \<^verbatim>\<open>gen/run_measure.py\<close>: a process that divides arriving files into six parts, one
  process per GPU that measures parts with \<^verbatim>\<open>measure_programs.py\<close>, and a process that merges measured
  parts. They communicate through folders only. The state holds the folders as maps and the place
  where each process is; every shell command and every file written is one step, and the steps of the
  processes interleave freely. The measurement of a program is a parameter.
\<close>

section \<open>State\<close>

type_synonym lines = "tlm_line list"
type_synonym part = "string \<times> nat"

datatype divide_pc = DivideIdle | Dividing string lines nat

datatype worker_pc = WorkerIdle | Picked part | Moved part | Measuring part lines | Measured part | Removed part

record server =
  sv_arrived :: "string \<rightharpoonup> lines"
  sv_to_measure :: "string \<rightharpoonup> lines"
  sv_bak :: "string \<rightharpoonup> lines"
  sv_parts :: "part \<rightharpoonup> lines"
  sv_gpu :: "nat \<Rightarrow> part \<rightharpoonup> lines"
  sv_tmp :: "part \<rightharpoonup> lines"
  sv_measured_part :: "part \<rightharpoonup> lines"
  sv_measured :: "string \<rightharpoonup> lines"
  sv_divide :: divide_pc
  sv_worker :: "nat \<Rightarrow> worker_pc"

definition server_init :: server where
  "server_init = \<lparr>sv_arrived = Map.empty, sv_to_measure = Map.empty, sv_bak = Map.empty, sv_parts = Map.empty,
     sv_gpu = (\<lambda>g. Map.empty), sv_tmp = Map.empty, sv_measured_part = Map.empty, sv_measured = Map.empty,
     sv_divide = DivideIdle, sv_worker = (\<lambda>g. WorkerIdle)\<rparr>"

definition n_part :: nat where
  "n_part = 6"

definition part_name :: "part \<Rightarrow> string" where
  "part_name p = fst p @ ''_part_'' @ show_nat (snd p)"

section \<open>Dividing and merging\<close>

text \<open>A file arrives under a new name (\<^verbatim>\<open>rsync\<close> of \<^verbatim>\<open>run.py\<close>); \<open>sv_arrived\<close> remembers it.
  The name ends in \<^verbatim>\<open>.json\<close> and does not contain \<^verbatim>\<open>_part_\<close>.\<close>

inductive divide_step :: "server \<Rightarrow> server \<Rightarrow> bool" where
  div_arrive: "f \<notin> dom (sv_arrived s) \<Longrightarrow>
    divide_step s (s\<lparr>sv_arrived := (sv_arrived s)(f \<mapsto> l), sv_to_measure := (sv_to_measure s)(f \<mapsto> l)\<rparr>)"
| div_pick: "sv_divide s = DivideIdle \<Longrightarrow> sv_to_measure s f = Some l \<Longrightarrow> \<forall>f' \<in> dom (sv_to_measure s). f \<le> f' \<Longrightarrow>
    divide_step s (s\<lparr>sv_divide := Dividing f l 0\<rparr>)"
| div_write: "sv_divide s = Dividing f l i \<Longrightarrow> i < n_part \<Longrightarrow>
    divide_step s (s\<lparr>sv_parts := (sv_parts s)((f, i) \<mapsto> slices n_part l ! i), sv_divide := Dividing f l (Suc i)\<rparr>)"
| div_finish: "sv_divide s = Dividing f l n_part \<Longrightarrow>
    divide_step s (s\<lparr>sv_bak := (sv_bak s)(f \<mapsto> l), sv_to_measure := (sv_to_measure s)(f := None), sv_divide := DivideIdle\<rparr>)"

inductive merge_step :: "server \<Rightarrow> server \<Rightarrow> bool" where
  merge: "\<forall>i < n_part. (f, i) \<in> dom (sv_measured_part s) \<Longrightarrow>
    merge_step s (s\<lparr>sv_measured := (sv_measured s)(f \<mapsto> concat (map (\<lambda>i. the (sv_measured_part s (f, i))) [0..<n_part])),
      sv_measured_part := (\<lambda>p. if fst p = f \<and> snd p < n_part then None else sv_measured_part s p)\<rparr>)"

section \<open>Measuring\<close>

text \<open>The order in which \<^verbatim>\<open>measure_programs.py\<close> measures the lines of a file.\<close>

definition arranged :: "lines \<Rightarrow> lines" where
  "arranged l = concat (map snd (group_inputs l))"

text \<open>
  One GPU. A command that fails is reported, and the worker goes on. The measuring script stops if the
  file of measured records is empty or the input file is missing, and otherwise empties the former and
  appends the records of one batch after the other.
\<close>

inductive worker_step :: "(tlm_line \<Rightarrow> tlm_line) \<Rightarrow> nat \<Rightarrow> server \<Rightarrow> server \<Rightarrow> bool" for meas g where
  wk_pick: "sv_worker s g = WorkerIdle \<Longrightarrow> p \<in> dom (sv_parts s) \<Longrightarrow> \<forall>q \<in> dom (sv_parts s). part_name p \<le> part_name q \<Longrightarrow>
    worker_step meas g s (s\<lparr>sv_worker := (sv_worker s)(g := Picked p)\<rparr>)"
| wk_move: "sv_worker s g = Picked p \<Longrightarrow> sv_parts s p = Some l \<Longrightarrow>
    worker_step meas g s (s\<lparr>sv_parts := (sv_parts s)(p := None), sv_gpu := (sv_gpu s)(g := (sv_gpu s g)(p \<mapsto> l)),
      sv_worker := (sv_worker s)(g := Moved p)\<rparr>)"
| wk_move_fails: "sv_worker s g = Picked p \<Longrightarrow> sv_parts s p = None \<Longrightarrow>
    worker_step meas g s (s\<lparr>sv_worker := (sv_worker s)(g := Moved p)\<rparr>)"
| wk_start: "sv_worker s g = Moved p \<Longrightarrow> read_measured (sv_tmp s p) = Inr old \<Longrightarrow> sv_gpu s g p = Some l \<Longrightarrow>
    worker_step meas g s (s\<lparr>sv_tmp := (sv_tmp s)(p \<mapsto> []),
      sv_worker := (sv_worker s)(g := Measuring p (arranged (filter (\<lambda>rc. program_of rc \<notin> set old) l)))\<rparr>)"
| wk_start_fails: "sv_worker s g = Moved p \<Longrightarrow> read_measured (sv_tmp s p) = Inl e \<or> sv_gpu s g p = None \<Longrightarrow>
    worker_step meas g s (s\<lparr>sv_worker := (sv_worker s)(g := Measured p)\<rparr>)"
| wk_batch: "sv_worker s g = Measuring p (a @ rest) \<Longrightarrow> a \<noteq> [] \<Longrightarrow>
    worker_step meas g s (s\<lparr>sv_tmp := (sv_tmp s)(p \<mapsto> (case sv_tmp s p of Some l \<Rightarrow> l | None \<Rightarrow> []) @ map meas a),
      sv_worker := (sv_worker s)(g := Measuring p rest)\<rparr>)"
| wk_finish: "sv_worker s g = Measuring p [] \<Longrightarrow>
    worker_step meas g s (s\<lparr>sv_worker := (sv_worker s)(g := Measured p)\<rparr>)"
| wk_remove: "sv_worker s g = Measured p \<Longrightarrow>
    worker_step meas g s (s\<lparr>sv_gpu := (sv_gpu s)(g := (sv_gpu s g)(p := None)), sv_worker := (sv_worker s)(g := Removed p)\<rparr>)"
| wk_publish: "sv_worker s g = Removed p \<Longrightarrow> sv_tmp s p = Some l \<Longrightarrow>
    worker_step meas g s (s\<lparr>sv_measured_part := (sv_measured_part s)(p \<mapsto> l), sv_tmp := (sv_tmp s)(p := None),
      sv_worker := (sv_worker s)(g := WorkerIdle)\<rparr>)"
| wk_publish_fails: "sv_worker s g = Removed p \<Longrightarrow> sv_tmp s p = None \<Longrightarrow>
    worker_step meas g s (s\<lparr>sv_worker := (sv_worker s)(g := WorkerIdle)\<rparr>)"

text \<open>The processes together, and the start of the server after a crash: parts go back, the rest stays.\<close>

definition available_ids :: "nat list" where
  "available_ids = [3, 2, 1]"

inductive server_step :: "(tlm_line \<Rightarrow> tlm_line) \<Rightarrow> server \<Rightarrow> server \<Rightarrow> bool" for meas where
  divides: "divide_step s s' \<Longrightarrow> server_step meas s s'"
| merges: "merge_step s s' \<Longrightarrow> server_step meas s s'"
| works: "g \<in> set available_ids \<Longrightarrow> worker_step meas g s s' \<Longrightarrow> server_step meas s s'"

definition server_restart :: "server \<Rightarrow> server" where
  "server_restart s = s\<lparr>sv_parts := (\<lambda>p. case find (\<lambda>g. sv_gpu s g p \<noteq> None) available_ids of
       Some g \<Rightarrow> sv_gpu s g p | None \<Rightarrow> sv_parts s p),
     sv_gpu := (\<lambda>g. if g \<in> set available_ids then Map.empty else sv_gpu s g), sv_divide := DivideIdle, sv_worker := (\<lambda>g. WorkerIdle)\<rparr>"

section \<open>Runs in which no two workers hold the same part\<close>

fun held :: "worker_pc \<Rightarrow> part option" where
  "held WorkerIdle = None"
| "held (Picked p) = Some p"
| "held (Moved p) = Some p"
| "held (Measuring p rest) = Some p"
| "held (Measured p) = Some p"
| "held (Removed p) = Some p"

definition exclusive :: "server \<Rightarrow> bool" where
  "exclusive s \<longleftrightarrow> (\<forall>g g' p. held (sv_worker s g) = Some p \<longrightarrow> held (sv_worker s g') = Some p \<longrightarrow> g = g')"

inductive exclusive_run :: "(tlm_line \<Rightarrow> tlm_line) \<Rightarrow> server \<Rightarrow> bool" for meas where
  run_init: "exclusive_run meas server_init"
| run_step: "exclusive_run meas s \<Longrightarrow> server_step meas s s' \<Longrightarrow> exclusive s' \<Longrightarrow> exclusive_run meas s'"

definition known :: "server \<Rightarrow> part \<Rightarrow> bool" where
  "known s p \<longleftrightarrow> fst p \<in> dom (sv_arrived s) \<and> snd p < n_part"

definition part_lines :: "server \<Rightarrow> part \<Rightarrow> lines" where
  "part_lines s p = slices n_part (the (sv_arrived s (fst p))) ! snd p"

definition part_result :: "(tlm_line \<Rightarrow> tlm_line) \<Rightarrow> server \<Rightarrow> part \<Rightarrow> lines" where
  "part_result meas s p = map meas (arranged (part_lines s p))"

fun worker_ok :: "(tlm_line \<Rightarrow> tlm_line) \<Rightarrow> server \<Rightarrow> nat \<Rightarrow> worker_pc \<Rightarrow> bool" where
  "worker_ok meas s g WorkerIdle = True"
| "worker_ok meas s g (Picked p) = (known s p \<and> sv_parts s p = Some (part_lines s p))"
| "worker_ok meas s g (Moved p) = (known s p \<and> sv_gpu s g p = Some (part_lines s p))"
| "worker_ok meas s g (Measuring p rest) = (known s p \<and> (\<exists>c. sv_tmp s p = Some c \<and> c @ map meas rest = part_result meas s p))"
| "worker_ok meas s g (Measured p) = (known s p \<and> sv_tmp s p = Some (part_result meas s p))"
| "worker_ok meas s g (Removed p) = (known s p \<and> sv_tmp s p = Some (part_result meas s p))"

fun writes_tmp :: "worker_pc \<Rightarrow> part option" where
  "writes_tmp (Measuring p rest) = Some p"
| "writes_tmp (Measured p) = Some p"
| "writes_tmp (Removed p) = Some p"
| "writes_tmp _ = None"

definition server_inv :: "(tlm_line \<Rightarrow> tlm_line) \<Rightarrow> server \<Rightarrow> bool" where
  "server_inv meas s \<longleftrightarrow>
     (\<forall>f l. sv_to_measure s f = Some l \<longrightarrow> sv_arrived s f = Some l) \<and>
     (\<forall>f l i. sv_divide s = Dividing f l i \<longrightarrow> sv_arrived s f = Some l) \<and>
     (\<forall>p c. sv_parts s p = Some c \<longrightarrow> known s p \<and> c = part_lines s p) \<and>
     (\<forall>g. worker_ok meas s g (sv_worker s g)) \<and>
     (\<forall>p. sv_tmp s p \<noteq> None \<longrightarrow> (\<exists>g. writes_tmp (sv_worker s g) = Some p)) \<and>
     (\<forall>p c. sv_measured_part s p = Some c \<longrightarrow> known s p \<and> c = part_result meas s p) \<and>
     (\<forall>f out. sv_measured s f = Some out \<longrightarrow> f \<in> dom (sv_arrived s) \<and>
        out = concat (map (\<lambda>i. part_result meas s (f, i)) [0..<n_part]))"

lemma writes_held: "writes_tmp pc = Some p \<Longrightarrow> held pc = Some p"
  by (cases pc) auto

lemma worker_ok_frame:
  assumes "worker_ok meas s g pc" "\<And>p. held pc = Some p \<Longrightarrow>
     (known s p \<longrightarrow> known s' p \<and> part_lines s' p = part_lines s p) \<and> sv_gpu s' g p = sv_gpu s g p \<and> sv_tmp s' p = sv_tmp s p \<and>
     (sv_parts s p = Some (part_lines s p) \<longrightarrow> sv_parts s' p = Some (part_lines s p))"
  shows "worker_ok meas s' g pc"
  using assms by (cases pc) (auto simp: part_result_def)

lemma mset_arranged: "mset (arranged l) = mset l"
  using group_inputs_grouped[of l] by (simp add: arranged_def grouped_def)

lemma arranged_all: "arranged (filter (\<lambda>rc. program_of rc \<notin> set []) l) = arranged l"
  by simp

subsection \<open>Preservation\<close>

lemma same_parts:
  assumes "sv_arrived s' = sv_arrived s"
  shows "known s' = known s" "part_lines s' = part_lines s" "part_result meas s' = part_result meas s"
  by (rule ext, simp add: known_def part_lines_def part_result_def assms)+

lemma inv_parts: "server_inv meas s \<Longrightarrow> sv_parts s p = Some c \<Longrightarrow> known s p \<and> c = part_lines s p"
  unfolding server_inv_def by blast

lemma inv_mparts: "server_inv meas s \<Longrightarrow> sv_measured_part s p = Some c \<Longrightarrow> known s p \<and> c = part_result meas s p"
  unfolding server_inv_def by blast

lemma inv_tmp: "server_inv meas s \<Longrightarrow> sv_tmp s p \<noteq> None \<Longrightarrow> \<exists>g. writes_tmp (sv_worker s g) = Some p"
  unfolding server_inv_def by blast

lemma inv_worker: "server_inv meas s \<Longrightarrow> sv_worker s g = pc \<Longrightarrow> worker_ok meas s g pc"
  unfolding server_inv_def by blast

lemma frame_inv:
  assumes inv: "server_inv meas s" and same: "sv_arrived s' = sv_arrived s" "sv_gpu s' = sv_gpu s" "sv_tmp s' = sv_tmp s"
      "sv_measured_part s' = sv_measured_part s" "sv_measured s' = sv_measured s" "sv_worker s' = sv_worker s"
    and files: "\<And>f l. sv_to_measure s' f = Some l \<Longrightarrow> sv_arrived s f = Some l"
      "\<And>f l i. sv_divide s' = Dividing f l i \<Longrightarrow> sv_arrived s f = Some l"
    and parts: "\<And>p c. sv_parts s' p = Some c \<Longrightarrow> known s p \<and> c = part_lines s p"
      "\<And>p. p \<in> dom (sv_parts s) \<Longrightarrow> p \<in> dom (sv_parts s')"
  shows "server_inv meas s'"
proof -
  have eqs: "known s' = known s" "part_lines s' = part_lines s" "part_result meas s' = part_result meas s"
    using same(1) by (rule same_parts)+
  have "sv_parts s p = Some (part_lines s p) \<Longrightarrow> sv_parts s' p = Some (part_lines s p)" for p
    using parts(1)[of p] parts(2)[of p] by auto
  then have "worker_ok meas s' g (sv_worker s g)" for g
    by (intro worker_ok_frame[OF inv_worker[OF inv refl]]) (use same eqs in simp)
  with inv files parts(1) show ?thesis unfolding server_inv_def eqs same by blast
qed

lemma divide_inv:
  assumes "divide_step s s'" "server_inv meas s"
  shows "server_inv meas s'"
  using assms(1)
proof cases
  case (div_arrive f l)
  have same: "known s' p \<and> part_lines s' p = part_lines s p \<and> part_result meas s' p = part_result meas s p" if "known s p" for p
    using that div_arrive by (auto simp: known_def part_lines_def part_result_def)
  have "worker_ok meas s' g (sv_worker s' g)" for g
  proof -
    have "worker_ok meas s g (sv_worker s g)" using assms(2) by (simp add: server_inv_def)
    then have "worker_ok meas s' g (sv_worker s g)"
      by (rule worker_ok_frame) (use same div_arrive in auto)
    then show ?thesis using div_arrive by simp
  qed
  moreover have "part_result meas s' (f', i) = part_result meas s (f', i)" if "f' \<in> dom (sv_arrived s)" for f' i
    using that div_arrive by (auto simp: part_lines_def part_result_def)
  then have "concat (map (\<lambda>i. part_result meas s' (f', i)) [0..<n_part]) = concat (map (\<lambda>i. part_result meas s (f', i)) [0..<n_part])"
    if "f' \<in> dom (sv_arrived s)" for f' using that by simp
  ultimately show ?thesis using assms(2) same div_arrive unfolding server_inv_def
    by (auto simp del: map_eq_conv)
next
  case (div_pick f l)
  have "sv_arrived s f = Some l" using assms(2) div_pick unfolding server_inv_def by blast
  with div_pick show ?thesis
    by (intro frame_inv[OF assms(2)]) (auto dest: inv_parts[OF assms(2)] simp: assms(2)[unfolded server_inv_def])
next
  case (div_write f l i)
  have "sv_arrived s f = Some l" using assms(2) div_write unfolding server_inv_def by blast
  with div_write show ?thesis
    by (intro frame_inv[OF assms(2)])
      (auto dest: inv_parts[OF assms(2)] simp: assms(2)[unfolded server_inv_def] known_def part_lines_def split: if_splits)
next
  case (div_finish f l)
  then show ?thesis
    by (intro frame_inv[OF assms(2)])
      (auto dest: inv_parts[OF assms(2)] simp: assms(2)[unfolded server_inv_def] split: if_splits)
qed

lemma merge_inv:
  assumes "merge_step s s'" "server_inv meas s"
  shows "server_inv meas s'"
  using assms(1)
proof cases
  case (merge f)
  have eqs: "known s' = known s" "part_lines s' = part_lines s" "part_result meas s' = part_result meas s"
    using merge by (intro same_parts, simp)+
  have mp: "known s p \<and> c = part_result meas s p" if "sv_measured_part s p = Some c" for p c
    using inv_mparts[OF assms(2) that] .
  have "worker_ok meas s' g (sv_worker s g)" for g
    by (intro worker_ok_frame[OF inv_worker[OF assms(2) refl]]) (use merge eqs in simp)
  moreover have "the (sv_measured_part s (f, i)) = part_result meas s (f, i)" if "i < n_part" for i
    using merge(2) mp that by fastforce
  then have "concat (map (\<lambda>i. the (sv_measured_part s (f, i))) [0..<n_part]) = concat (map (\<lambda>i. part_result meas s (f, i)) [0..<n_part])"
    by (intro arg_cong[of _ _ concat] map_cong) auto
  moreover have "f \<in> dom (sv_arrived s)"
  proof -
    have "(f, 0) \<in> dom (sv_measured_part s)" using merge(2) by (simp add: n_part_def)
    then obtain c where "sv_measured_part s (f, 0) = Some c" by blast
    then have "known s (f, 0)" using mp by blast
    then show ?thesis by (simp add: known_def)
  qed
  ultimately show ?thesis using assms(2) merge(1) mp unfolding server_inv_def eqs by (auto split: if_splits)
qed

lemma worker_frame:
  assumes inv: "server_inv meas s" and others: "\<And>g'. g' \<noteq> g \<Longrightarrow> held (sv_worker s g') \<noteq> Some p"
    and own: "held (sv_worker s g) = None \<or> held (sv_worker s g) = Some p"
    and same: "sv_arrived s' = sv_arrived s" "sv_to_measure s' = sv_to_measure s" "sv_divide s' = sv_divide s"
      "sv_measured s' = sv_measured s" "sv_worker s' = (sv_worker s)(g := pc')"
      "\<And>q. q \<noteq> p \<Longrightarrow> sv_parts s' q = sv_parts s q \<and> sv_tmp s' q = sv_tmp s q \<and> sv_measured_part s' q = sv_measured_part s q"
      "\<And>g'. g' \<noteq> g \<Longrightarrow> sv_gpu s' g' = sv_gpu s g'"
    and new: "worker_ok meas s' g pc'" "\<And>c. sv_parts s' p = Some c \<Longrightarrow> sv_parts s p = Some c"
      "\<And>c. sv_measured_part s' p = Some c \<Longrightarrow> known s p \<and> c = part_result meas s p"
      "sv_tmp s' p \<noteq> None \<Longrightarrow> writes_tmp pc' = Some p"
  shows "server_inv meas s'"
proof -
  have eqs: "known s' = known s" "part_lines s' = part_lines s" "part_result meas s' = part_result meas s"
    using same(1) by (rule same_parts)+
  have parts: "known s q \<and> c = part_lines s q" if "sv_parts s' q = Some c" for q c
    using that same(6)[of q] new(2) inv_parts[OF inv] by (cases "q = p") auto
  have mparts: "known s q \<and> c = part_result meas s q" if "sv_measured_part s' q = Some c" for q c
    using that same(6)[of q] new(3) inv_mparts[OF inv] by (cases "q = p") auto
  have work: "worker_ok meas s' g' (sv_worker s' g')" for g'
  proof (cases "g' = g")
    case False
    have "worker_ok meas s' g' (sv_worker s g')"
    proof (rule worker_ok_frame[OF inv_worker[OF inv refl]])
      fix q assume "held (sv_worker s g') = Some q"
      then have "q \<noteq> p" using others[OF False] by auto
      then show "(known s q \<longrightarrow> known s' q \<and> part_lines s' q = part_lines s q) \<and> sv_gpu s' g' q = sv_gpu s g' q \<and> sv_tmp s' q = sv_tmp s q \<and>
          (sv_parts s q = Some (part_lines s q) \<longrightarrow> sv_parts s' q = Some (part_lines s q))"
        using same(6)[of q] same(7)[OF False] eqs by simp
    qed
    then show ?thesis using same(5) False by simp
  qed (use new(1) same(5) in simp)
  have tmp: "\<exists>g'. writes_tmp (sv_worker s' g') = Some q" if "sv_tmp s' q \<noteq> None" for q
  proof (cases "q = p")
    case True
    then show ?thesis using new(4) that same(5) by (intro exI[of _ g]) simp
  next
    case False
    then have "sv_tmp s q \<noteq> None" using that same(6) by simp
    then obtain g' where g': "writes_tmp (sv_worker s g') = Some q" using inv_tmp[OF inv] by blast
    have "g' \<noteq> g" using own writes_held[OF g'] False by auto
    with g' same(5) show ?thesis by (intro exI[of _ g']) simp
  qed
  from inv show ?thesis unfolding server_inv_def eqs same(1-4) using parts mparts work tmp by blast
qed

lemma worker_inv:
  assumes "worker_step meas g s s'" "server_inv meas s" "exclusive s" "exclusive s'"
  shows "server_inv meas s'"
proof -
  have only: "held (sv_worker s g') \<noteq> Some p" if "held (sv_worker s g) = Some p" "g' \<noteq> g" for g' p
    using assms(3) that unfolding exclusive_def by metis
  have no_tmp: "sv_tmp s p = None" if "held (sv_worker s g) = Some p" "writes_tmp (sv_worker s g) = None" for p
  proof (rule ccontr)
    assume "sv_tmp s p \<noteq> None"
    then obtain g' where g': "writes_tmp (sv_worker s g') = Some p" using inv_tmp[OF assms(2)] by blast
    then have "g' = g" using only[of p g'] that(1) writes_held[OF g'] by auto
    with g' that(2) show False by simp
  qed
  have mparts: "known s q \<and> c = part_result meas s q" if "sv_measured_part s q = Some c" for q c
    using inv_mparts[OF assms(2) that] .
  from assms(1) show ?thesis
  proof cases
    case (wk_pick p)
    have "held (sv_worker s g') \<noteq> Some p" if "g' \<noteq> g" for g'
    proof
      assume "held (sv_worker s g') = Some p"
      then have "held (sv_worker s' g') = Some p" "held (sv_worker s' g) = Some p" using wk_pick that by simp_all
      then show False using assms(4) that unfolding exclusive_def by metis
    qed
    moreover have "known s p \<and> sv_parts s p = Some (part_lines s p)" using wk_pick(3) inv_parts[OF assms(2)] by blast
    moreover have "sv_tmp s p = None"
    proof (rule ccontr)
      assume "sv_tmp s p \<noteq> None"
      then obtain g' where g': "writes_tmp (sv_worker s g') = Some p" using inv_tmp[OF assms(2)] by blast
      then have "g' \<noteq> g" using wk_pick(2) by auto
      with calculation(1) writes_held[OF g'] show False by blast
    qed
    ultimately show ?thesis
      by (intro worker_frame[OF assms(2), where g = g and p = p and pc' = "Picked p"]) (use wk_pick mparts in \<open>auto simp: known_def part_lines_def\<close>)
  next
    case (wk_move p l)
    have "known s p" "l = part_lines s p" using inv_worker[OF assms(2) wk_move(2)] wk_move(3) by simp_all
    with wk_move only no_tmp[of p] mparts show ?thesis
      by (intro worker_frame[OF assms(2), where g = g and p = p and pc' = "Moved p"]) (auto simp: known_def part_lines_def)
  next
    case (wk_move_fails p)
    then show ?thesis using inv_worker[OF assms(2), of g "Picked p"] by simp
  next
    case (wk_start p old l)
    have "known s p" "l = part_lines s p" using inv_worker[OF assms(2) wk_start(2)] wk_start(4) by simp_all
    moreover have "old = []" using wk_start(3) no_tmp[of p] wk_start(2) by (simp add: read_measured_def)
    ultimately show ?thesis using wk_start only mparts
      by (intro worker_frame[OF assms(2), where g = g and p = p and pc' = "Measuring p (arranged l)"])
        (auto simp: known_def part_lines_def part_result_def)
  next
    case (wk_start_fails p e)
    then show ?thesis using inv_worker[OF assms(2), of g "Moved p"] no_tmp[of p] by (simp add: read_measured_def)
  next
    case (wk_batch p a rest)
    obtain c where "known s p" "sv_tmp s p = Some c" "c @ map meas (a @ rest) = part_result meas s p"
      using inv_worker[OF assms(2) wk_batch(2)] by auto
    with wk_batch only mparts show ?thesis
      by (intro worker_frame[OF assms(2), where g = g and p = p and pc' = "Measuring p rest"])
        (auto simp: known_def part_lines_def part_result_def)
  next
    case (wk_finish p)
    then show ?thesis using only mparts inv_worker[OF assms(2) wk_finish(2)]
      by (intro worker_frame[OF assms(2), where g = g and p = p and pc' = "Measured p"])
        (auto simp: known_def part_lines_def part_result_def)
  next
    case (wk_remove p)
    then show ?thesis using only mparts inv_worker[OF assms(2) wk_remove(2)]
      by (intro worker_frame[OF assms(2), where g = g and p = p and pc' = "Removed p"])
        (auto simp: known_def part_lines_def part_result_def)
  next
    case (wk_publish p l)
    then show ?thesis using only mparts inv_worker[OF assms(2) wk_publish(2)]
      by (intro worker_frame[OF assms(2), where g = g and p = p and pc' = WorkerIdle])
        (auto simp: known_def part_lines_def part_result_def)
  next
    case (wk_publish_fails p)
    then show ?thesis using inv_worker[OF assms(2), of g "Removed p"] by simp
  qed
qed

lemma run_inv: "exclusive_run meas s \<Longrightarrow> server_inv meas s \<and> exclusive s"
proof (induction rule: exclusive_run.induct)
  case run_init
  show ?case by (simp add: server_inv_def server_init_def exclusive_def)
next
  case (run_step s s')
  from run_step.hyps(2) have "server_inv meas s'"
  proof cases
    case divides
    then show ?thesis using divide_inv run_step.IH by blast
  next
    case merges
    then show ?thesis using merge_inv run_step.IH by blast
  next
    case (works g)
    then show ?thesis using worker_inv run_step.IH run_step.hyps(3) by blast
  qed
  with run_step.hyps(3) show ?case by simp
qed

lemma result_of_parts:
  "mset (concat (map (\<lambda>i. map meas (arranged (slices n_part l ! i))) [0..<n_part])) = image_mset meas (mset l)"
proof -
  have "mset (concat (map (\<lambda>i. map meas (arranged (xs ! i))) [0..<length xs])) = image_mset meas (mset (concat xs))" for xs
  proof -
    have "map (\<lambda>i. map meas (arranged (xs ! i))) [0..<length xs] = map (\<lambda>x. map meas (arranged x)) xs"
      by (intro nth_equalityI) simp_all
    moreover have "mset (concat (map (\<lambda>x. map meas (arranged x)) xs)) = image_mset meas (mset (concat xs))"
      by (induction xs) (simp_all add: mset_arranged)
    ultimately show ?thesis by simp
  qed
  from this[of "slices n_part l"] show ?thesis by (simp add: concat_slices n_part_def)
qed

section \<open>Whole runs\<close>

lemma exclusive_one: "sv_worker s = (\<lambda>g. WorkerIdle)(g := pc) \<Longrightarrow> exclusive s"
  by (auto simp: exclusive_def)

lemma exclusive_idle: "sv_worker s = (\<lambda>g. WorkerIdle) \<Longrightarrow> exclusive s"
  by (simp add: exclusive_def)

lemma run_work:
  assumes "exclusive_run meas s" "g \<in> set available_ids" "worker_step meas g s s'" "sv_worker s' = (\<lambda>g. WorkerIdle)(g := pc)"
  shows "exclusive_run meas s'"
  using assms exclusive_one by (blast intro: exclusive_run.intros server_step.intros)

lemma run_divide:
  assumes "exclusive_run meas s" "divide_step s s'" "sv_worker s' = (\<lambda>g. WorkerIdle)"
  shows "exclusive_run meas s'"
  using assms exclusive_idle by (blast intro: exclusive_run.intros server_step.intros)

text \<open>One worker measures one part while the others are idle.\<close>

lemma worker_round:
  assumes run: "exclusive_run meas s" and g: "g \<in> set available_ids" and idle: "sv_worker s = (\<lambda>g. WorkerIdle)"
    and p: "sv_parts s p = Some l" "\<forall>q \<in> dom (sv_parts s). part_name p \<le> part_name q" "sv_tmp s p = None"
  shows "exclusive_run meas (s\<lparr>sv_parts := (sv_parts s)(p := None), sv_gpu := (sv_gpu s)(g := (sv_gpu s g)(p := None)),
     sv_measured_part := (sv_measured_part s)(p \<mapsto> map meas (arranged l)), sv_worker := (\<lambda>g. WorkerIdle)\<rparr>)"
proof -
  define s2 where "s2 = s\<lparr>sv_parts := (sv_parts s)(p := None), sv_gpu := (sv_gpu s)(g := (sv_gpu s g)(p \<mapsto> l))\<rparr>"
  define sat where "sat = (\<lambda>pc c. s2\<lparr>sv_tmp := (sv_tmp s)(p := c), sv_worker := (\<lambda>g. WorkerIdle)(g := pc)\<rparr>)"
  have "exclusive_run meas (s\<lparr>sv_worker := (\<lambda>g. WorkerIdle)(g := Picked p)\<rparr>)"
    using worker_step.wk_pick[of s g p meas] idle p by (intro run_work[OF run g]) auto
  then have "exclusive_run meas (sat (Moved p) None)"
    by (rule run_work[OF _ g]) (use worker_step.wk_move[of "s\<lparr>sv_worker := (\<lambda>g. WorkerIdle)(g := Picked p)\<rparr>" g p l meas] p(1,3) in
        \<open>simp_all add: sat_def s2_def fun_upd_idem\<close>)
  then have "exclusive_run meas (sat (Measuring p (arranged l)) (Some []))"
    by (rule run_work[OF _ g]) (use worker_step.wk_start[of "sat (Moved p) None" g p "[]" l meas] in
        \<open>simp_all add: sat_def s2_def read_measured_def\<close>)
  then have "exclusive_run meas (sat (Measuring p []) (Some (map meas (arranged l))))"
  proof (cases "arranged l = []")
    case False
    assume "exclusive_run meas (sat (Measuring p (arranged l)) (Some []))"
    then show ?thesis
      by (rule run_work[OF _ g]) (use False worker_step.wk_batch[of "sat (Measuring p (arranged l)) (Some [])" g p "arranged l" "[]" meas] in
          \<open>simp_all add: sat_def\<close>)
  qed simp
  then have "exclusive_run meas (sat (Measured p) (Some (map meas (arranged l))))"
    by (rule run_work[OF _ g]) (use worker_step.wk_finish[of "sat (Measuring p []) (Some (map meas (arranged l)))" g p meas] in
        \<open>simp_all add: sat_def\<close>)
  then have "exclusive_run meas (s2\<lparr>sv_tmp := (sv_tmp s)(p \<mapsto> map meas (arranged l)),
      sv_gpu := (sv_gpu s)(g := (sv_gpu s g)(p := None)), sv_worker := (\<lambda>g. WorkerIdle)(g := Removed p)\<rparr>)"
    by (rule run_work[OF _ g]) (use worker_step.wk_remove[of "sat (Measured p) (Some (map meas (arranged l)))" g p meas] in
        \<open>simp_all add: sat_def s2_def\<close>)
  then show ?thesis
    by (rule run_work[OF _ g, where pc = WorkerIdle])
      (use worker_step.wk_publish[of "s2\<lparr>sv_tmp := (sv_tmp s)(p \<mapsto> map meas (arranged l)),
      sv_gpu := (sv_gpu s)(g := (sv_gpu s g)(p := None)), sv_worker := (\<lambda>g. WorkerIdle)(g := Removed p)\<rparr>" g p
            "map meas (arranged l)" meas] idle p(3) in \<open>simp_all add: sat_def s2_def fun_upd_idem\<close>)
qed

lemma append_mono_le: "(xs @ ys \<le> xs @ zs) = (ys \<le> (zs :: string))"
  by (induction xs) simp_all

lemma part_name_mono: "i \<le> j \<Longrightarrow> j < n_part \<Longrightarrow> part_name (f, i) \<le> part_name (f, j)"
proof -
  assume ij: "i \<le> j" "j < n_part"
  have digit: "show_nat k = [char_of (48 + k)]" if "k < n_part" for k using that by (simp add: show_nat.simps n_part_def)
  have "(of_char (char_of (48 + i) :: char) :: nat) \<le> of_char (char_of (48 + j) :: char)" using ij by (simp add: n_part_def)
  then have "(char_of (48 + i) :: char) \<le> char_of (48 + j)" by (simp only: less_eq_char_def)
  moreover have "a \<le> b \<Longrightarrow> [a] \<le> [b]" for a b :: char by auto
  ultimately have "[char_of (48 + i) :: char] \<le> [char_of (48 + j)]" by blast
  with ij show ?thesis by (simp only: part_name_def fst_conv snd_conv append_mono_le digit)
qed

definition stage :: "(tlm_line \<Rightarrow> tlm_line) \<Rightarrow> string \<Rightarrow> lines \<Rightarrow> nat \<Rightarrow> server" where
  "stage meas f l k = server_init\<lparr>sv_arrived := [f \<mapsto> l], sv_bak := [f \<mapsto> l],
     sv_parts := (\<lambda>p. if fst p = f \<and> k \<le> snd p \<and> snd p < n_part then Some (slices n_part l ! snd p) else None),
     sv_measured_part := (\<lambda>p. if fst p = f \<and> snd p < k then Some (map meas (arranged (slices n_part l ! snd p))) else None)\<rparr>"

definition division :: "string \<Rightarrow> lines \<Rightarrow> nat \<Rightarrow> server" where
  "division f l i = server_init\<lparr>sv_arrived := [f \<mapsto> l], sv_to_measure := [f \<mapsto> l],
     sv_parts := (\<lambda>p. if fst p = f \<and> snd p < i then Some (slices n_part l ! snd p) else None), sv_divide := Dividing f l i\<rparr>"

lemma run_division: "i \<le> n_part \<Longrightarrow> exclusive_run meas (division f l i)"
proof (induction i)
  case 0
  let ?a = "server_init\<lparr>sv_arrived := [f \<mapsto> l], sv_to_measure := [f \<mapsto> l]\<rparr>"
  have "divide_step server_init ?a" using divide_step.div_arrive[of f server_init l] by (simp add: server_init_def)
  then have "exclusive_run meas ?a" by (rule run_divide[OF exclusive_run.run_init]) (simp add: server_init_def)
  moreover have "divide_step ?a (division f l 0)"
    using divide_step.div_pick[of ?a f l] by (simp add: server_init_def division_def)
  ultimately show ?case by (rule run_divide) (simp add: division_def server_init_def)
next
  case (Suc i)
  have "divide_step (division f l i) (division f l (Suc i))"
  proof -
    have parts: "(sv_parts (division f l i))((f, i) \<mapsto> slices n_part l ! i) = sv_parts (division f l (Suc i))"
      by (rule ext) (auto simp: division_def less_Suc_eq)
    have "divide_step (division f l i) ((division f l i)\<lparr>sv_parts := sv_parts (division f l (Suc i)), sv_divide := Dividing f l (Suc i)\<rparr>)"
      unfolding parts[symmetric] using Suc.prems by (intro divide_step.div_write) (simp_all add: division_def)
    then show ?thesis by (simp add: division_def)
  qed
  with Suc show ?case using run_divide[of meas "division f l i" "division f l (Suc i)"] by (simp add: division_def[of f l "Suc i"] server_init_def)
qed

lemma run_stage: "k \<le> n_part \<Longrightarrow> exclusive_run meas (stage meas f l k)"
proof (induction k)
  case 0
  have "divide_step (division f l n_part) (stage meas f l 0)"
    using divide_step.div_finish[of "division f l n_part" f l] by (simp add: division_def stage_def server_init_def)
  then show ?case by (rule run_divide[OF run_division[OF order_refl]]) (simp add: stage_def server_init_def)
next
  case (Suc k)
  let ?s = "stage meas f l k"
  have parts: "(sv_parts ?s)((f, k) := None) = sv_parts (stage meas f l (Suc k))"
    by (rule ext) (auto simp: stage_def)
  have mparts: "(sv_measured_part ?s)((f, k) \<mapsto> map meas (arranged (slices n_part l ! k))) = sv_measured_part (stage meas f l (Suc k))"
    by (rule ext) (auto simp: stage_def less_Suc_eq)
  have gpus: "(sv_gpu ?s)(3 := (sv_gpu ?s 3)((f, k) := None)) = sv_gpu (stage meas f l (Suc k))"
    by (rule ext) (auto simp: stage_def server_init_def)
  have "\<forall>q \<in> dom (sv_parts ?s). part_name (f, k) \<le> part_name q"
  proof
    fix q assume "q \<in> dom (sv_parts ?s)"
    then have "fst q = f" "k \<le> snd q" "snd q < n_part" by (auto simp: stage_def split: if_splits)
    then show "part_name (f, k) \<le> part_name q" using part_name_mono[of k "snd q" f] by (cases q) simp
  qed
  with worker_round[of meas ?s 3 "(f, k)" "slices n_part l ! k"] Suc show ?case
    unfolding parts mparts gpus by (simp add: stage_def server_init_def available_ids_def)
qed

lemma server_completes: "\<exists>s out. exclusive_run meas s \<and> sv_arrived s = [f \<mapsto> l] \<and> sv_measured s f = Some out"
proof -
  let ?s = "stage meas f l n_part"
  have "\<forall>i < n_part. (f, i) \<in> dom (sv_measured_part ?s)" by (auto simp: stage_def)
  from merge_step.merge[OF this] obtain s' where s': "merge_step ?s s'" "sv_arrived s' = sv_arrived ?s" "sv_worker s' = sv_worker ?s"
    "sv_measured s' f \<noteq> None" by fastforce
  have "exclusive_run meas s'"
    by (rule exclusive_run.run_step[OF run_stage[OF order_refl] server_step.merges[OF s'(1)]])
      (rule exclusive_idle, simp add: s'(3) stage_def server_init_def)
  with s' show ?thesis by (auto simp: stage_def server_init_def)
qed

lemma published_complete:
  assumes "exclusive_run meas s" "sv_measured s f = Some out"
  shows "\<exists>l. sv_arrived s f = Some l \<and> mset out = image_mset meas (mset l)"
proof -
  have "f \<in> dom (sv_arrived s)" "out = concat (map (\<lambda>i. part_result meas s (f, i)) [0..<n_part])"
    using run_inv[OF assms(1)] assms(2) unfolding server_inv_def by blast+
  then show ?thesis by (auto simp: part_result_def part_lines_def result_of_parts)
qed

text \<open>C32: In every run of the measuring server in which no two GPU workers hold the same part at the same time, a published file of measured records holds exactly one measured record for every line of the file that arrived under its name (in some order), whatever the interleaving of the divide, worker and merge processes and of the batches.\<close>

theorem measured_files_complete:
  assumes "exclusive_run meas s" "sv_measured s f = Some out"
  shows "\<exists>l. sv_arrived s f = Some l \<and> mset out = image_mset meas (mset l)"
  using assms by (rule published_complete)

theorem measured_files_complete_witness:
  "\<exists>s out. exclusive_run (\<lambda>rc. rc) s \<and> sv_measured s ''a.json'' = Some out \<and> sv_arrived s ''a.json'' = Some [demo_line ''w'' [1]] \<and>
     mset out = {#demo_line ''w'' [1]#}"
proof -
  obtain s out where s: "exclusive_run (\<lambda>rc. rc) s" "sv_arrived s = [''a.json'' \<mapsto> [demo_line ''w'' [1]]]" "sv_measured s ''a.json'' = Some out"
    using server_completes[of "\<lambda>rc. rc" "''a.json''" "[demo_line ''w'' [1]]"] by blast
  with measured_files_complete[OF s(1,3)] show ?thesis by auto
qed

section \<open>Two workers and one part\<close>

lemma first_slice_nonempty: "l \<noteq> [] \<Longrightarrow> slices n_part l ! 0 \<noteq> []"
  by (cases l) (simp_all add: slices_def n_part_def)

lemma run_reachable: "exclusive_run meas s \<Longrightarrow> (server_step meas)\<^sup>*\<^sup>* server_init s"
  by (induction rule: exclusive_run.induct) (auto intro: rtranclp.rtrancl_into_rtrancl)

lemma run_worker: "(server_step meas)\<^sup>*\<^sup>* a s \<Longrightarrow> g \<in> set available_ids \<Longrightarrow> worker_step meas g s s' \<Longrightarrow> (server_step meas)\<^sup>*\<^sup>* a s'"
  by (blast intro: rtranclp.rtrancl_into_rtrancl server_step.works)

text \<open>C33: Nothing keeps two workers from choosing the same part: both list the folder before either moves the file. The second worker's move fails, its measuring script stops on the emptied file of records of the first, and it then publishes that file: for every non-empty file there is an interleaving after which the published result of a non-empty part is empty.\<close>

theorem race_publishes_empty:
  assumes "l \<noteq> []"
  shows "\<exists>s. (server_step meas)\<^sup>*\<^sup>* server_init s \<and> sv_arrived s f = Some l \<and> sv_measured_part s (f, 0) = Some [] \<and> part_result meas s (f, 0) \<noteq> []"
proof -
  let ?p = "(f, 0)" and ?c = "slices n_part l ! 0"
  define W where "W = (\<lambda>a b. (\<lambda>g :: nat. WorkerIdle)(3 := a, 2 := b))"
  define G where "G = (\<lambda>gp. (\<lambda>g :: nat. Map.empty :: part \<rightharpoonup> lines)(3 := gp))"
  define st where "st = (\<lambda>a b pt gp tm mp. \<lparr>sv_arrived = [f \<mapsto> l], sv_to_measure = [f \<mapsto> l], sv_bak = Map.empty, sv_parts = pt,
    sv_gpu = G gp, sv_tmp = tm, sv_measured_part = mp, sv_measured = Map.empty, sv_divide = Dividing f l 1, sv_worker = W a b\<rparr>)"
  let ?P = "[?p \<mapsto> ?c]" and ?E = "Map.empty" and ?todo = "Measuring ?p (arranged ?c)"
  have wg: "(W a b)(3 := c) = W c b" "(W a b)(2 := c) = W a c" "W a b 3 = a" "W a b 2 = b"
    "(G x)(3 := y) = G y" "(G x)(2 := Map.empty) = G x" "G x 3 = x" "G x 2 = Map.empty" for a b c x y
    by (auto simp: W_def G_def)
  note steps = run_worker[where meas = meas] and upds = st_def wg available_ids_def
  have "(server_step meas)\<^sup>*\<^sup>* server_init (division f l 1)" by (intro run_reachable run_division) (simp add: n_part_def)
  moreover have "division f l 1 = st WorkerIdle WorkerIdle ?P ?E ?E ?E" by (auto simp: division_def server_init_def st_def W_def G_def fun_eq_iff)
  ultimately have "(server_step meas)\<^sup>*\<^sup>* server_init (st WorkerIdle WorkerIdle ?P ?E ?E ?E)" by simp
  then have "(server_step meas)\<^sup>*\<^sup>* server_init (st (Picked ?p) WorkerIdle ?P ?E ?E ?E)"
    by (rule steps[of _ _ 3]) (use worker_step.wk_pick[of "st WorkerIdle WorkerIdle ?P ?E ?E ?E" 3 ?p meas] in \<open>auto simp: upds\<close>)
  then have "(server_step meas)\<^sup>*\<^sup>* server_init (st (Picked ?p) (Picked ?p) ?P ?E ?E ?E)"
    by (rule steps[of _ _ 2]) (use worker_step.wk_pick[of "st (Picked ?p) WorkerIdle ?P ?E ?E ?E" 2 ?p meas] in \<open>auto simp: upds\<close>)
  then have "(server_step meas)\<^sup>*\<^sup>* server_init (st (Moved ?p) (Picked ?p) ?E ?P ?E ?E)"
    by (rule steps[of _ _ 3]) (use worker_step.wk_move[of "st (Picked ?p) (Picked ?p) ?P ?E ?E ?E" 3 ?p ?c meas] in \<open>auto simp: upds\<close>)
  then have "(server_step meas)\<^sup>*\<^sup>* server_init (st ?todo (Picked ?p) ?E ?P [?p \<mapsto> []] ?E)"
    by (rule steps[of _ _ 3]) (use worker_step.wk_start[of "st (Moved ?p) (Picked ?p) ?E ?P ?E ?E" 3 ?p "[]" ?c meas] in
        \<open>auto simp: upds read_measured_def\<close>)
  then have "(server_step meas)\<^sup>*\<^sup>* server_init (st ?todo (Moved ?p) ?E ?P [?p \<mapsto> []] ?E)"
    by (rule steps[of _ _ 2]) (use worker_step.wk_move_fails[of "st ?todo (Picked ?p) ?E ?P [?p \<mapsto> []] ?E" 2 ?p meas] in \<open>auto simp: upds\<close>)
  then have "(server_step meas)\<^sup>*\<^sup>* server_init (st ?todo (Measured ?p) ?E ?P [?p \<mapsto> []] ?E)"
    by (rule steps[of _ _ 2]) (use worker_step.wk_start_fails[of "st ?todo (Moved ?p) ?E ?P [?p \<mapsto> []] ?E" 2 ?p ValueError meas] in \<open>auto simp: upds\<close>)
  then have "(server_step meas)\<^sup>*\<^sup>* server_init (st ?todo (Removed ?p) ?E ?P [?p \<mapsto> []] ?E)"
    by (rule steps[of _ _ 2]) (use worker_step.wk_remove[of "st ?todo (Measured ?p) ?E ?P [?p \<mapsto> []] ?E" 2 ?p meas] in \<open>auto simp: upds\<close>)
  then have "(server_step meas)\<^sup>*\<^sup>* server_init (st ?todo WorkerIdle ?E ?P ?E [?p \<mapsto> []])"
    by (rule steps[of _ _ 2]) (use worker_step.wk_publish[of "st ?todo (Removed ?p) ?E ?P [?p \<mapsto> []] ?E" 2 ?p "[]" meas] in \<open>auto simp: upds\<close>)
  moreover have "part_result meas (st ?todo WorkerIdle ?E ?P ?E [?p \<mapsto> []]) ?p \<noteq> []"
    using mset_arranged[of ?c] first_slice_nonempty[OF assms] by (auto simp: part_result_def part_lines_def st_def)
  ultimately show ?thesis by (intro exI[of _ "st ?todo WorkerIdle ?E ?P ?E [?p \<mapsto> []]"]) (simp add: st_def)
qed

theorem race_publishes_empty_witness:
  "\<exists>s. (server_step (\<lambda>rc. rc))\<^sup>*\<^sup>* server_init s \<and> sv_arrived s ''a.json'' = Some [demo_line ''w'' [1]] \<and>
     sv_measured_part s (''a.json'', 0) = Some [] \<and> part_result (\<lambda>rc. rc) s (''a.json'', 0) \<noteq> []"
  by (rule race_publishes_empty) simp

section \<open>Starting again after a crash\<close>

text \<open>
  The parts of all GPUs go back to the folder of parts. The file of records measured so far stays, and the
  next worker that measures the part leaves out the programs it finds there and empties the file: the
  records measured before the crash are in no folder any more.
\<close>

lemma restart_returns_parts:
  assumes "g \<in> set available_ids" "sv_gpu s g p \<noteq> None"
  shows "p \<in> dom (sv_parts (server_restart s))" "sv_gpu (server_restart s) g p = None" "sv_tmp (server_restart s) = sv_tmp s"
proof -
  obtain g' where g': "find (\<lambda>g. sv_gpu s g p \<noteq> None) available_ids = Some g'"
    using assms by (cases "find (\<lambda>g. sv_gpu s g p \<noteq> None) available_ids") (auto simp: find_None_iff)
  then have "sv_gpu s g' p \<noteq> None" by (auto simp: find_Some_iff)
  with g' assms show "p \<in> dom (sv_parts (server_restart s))" "sv_gpu (server_restart s) g p = None" "sv_tmp (server_restart s) = sv_tmp s"
    by (auto simp: server_restart_def)
qed

inductive_cases started: "worker_step meas g s s'"

lemma started_skips_measured:
  assumes "worker_step meas g s s'" "sv_worker s g = Moved p" "sv_gpu s g p = Some l" "sv_tmp s p = Some c" "c \<noteq> []"
  shows "sv_tmp s' p = Some [] \<and> sv_worker s' g = Measuring p (arranged (filter (\<lambda>rc. program_of rc \<notin> program_of ` set c) l))"
  using assms by (auto elim!: started simp: read_measured_def)

end
