(* ===== verification/TLM_Run.thy ===== *)
theory TLM_Run
  imports TLM_Generate
begin

text \<open>
  The driver \<^verbatim>\<open>gen/run.py\<close>. It sends generated programs to the measuring machine, fetches measured files one
  by one, trains on them and generates the next programs. A command of the driver is a value; the state
  holds the commands run so far, the index of the next file, and the lists of \<^verbatim>\<open>utils.json\<close>. A failing
  command is reported by mail and ignored, so its result has no influence. What the loop reads of the world
  is an argument: the listing of the folder of measured files, and the tasks the task scheduler has stored.
  Waiting (for the lock, for the training session, between rounds) is left out.
\<close>

section \<open>Python's \<open>int\<close> on strings\<close>

definition is_digit :: "char \<Rightarrow> bool" where
  "is_digit c \<longleftrightarrow> 48 \<le> (of_char c :: nat) \<and> (of_char c :: nat) \<le> 57"

definition is_space :: "char \<Rightarrow> bool" where
  "is_space c \<longleftrightarrow> (of_char c :: nat) \<in> {9, 10, 11, 12, 13, 28, 29, 30, 31, 32}"

text \<open>Digits with single underscores between them; the flag says that the last character was a digit.\<close>

fun int_digits :: "nat \<Rightarrow> bool \<Rightarrow> string \<Rightarrow> nat option" where
  "int_digits acc after_digit [] = (if after_digit then Some acc else None)"
| "int_digits acc after_digit (c # cs) =
     (if c = CHR ''_'' then (if after_digit then int_digits acc False cs else None)
      else if is_digit c then int_digits (10 * acc + (of_char c - 48)) True cs
      else None)"

definition py_int :: "string \<Rightarrow> int py" where
  "py_int s =
     (let t = rev (dropWhile is_space (rev (dropWhile is_space s)));
          signed = (\<lambda>k r. case int_digits 0 False r of None \<Rightarrow> Inl ValueError | Some n \<Rightarrow> Inr (k * int n)) in
      case t of [] \<Rightarrow> Inl ValueError
      | c # r \<Rightarrow> if c = CHR ''-'' then signed (- 1) r else if c = CHR ''+'' then signed 1 r else signed 1 t)"

section \<open>Commands\<close>

record make_dataset_args =
  ma_for_type :: for_type
  ma_target :: string
  ma_dataset_path :: string
  ma_tokenizer_path :: string
  ma_save_path :: string
  ma_keep_cnt :: "nat option"
  ma_test_file_idx :: "int option"
  ma_schedule_file_path :: "string option"

record gen_state_args =
  ga_model_name_or_path :: string
  ga_sketch_path :: string
  ga_save_path :: string
  ga_allow_repeat :: bool
  ga_target :: string
  ga_keep_cnt :: nat

datatype run_cmd =
    MakeDataset make_dataset_args
  | GenState string gen_state_args
  | Upload string string string
  | Download string string string
  | Mv string string
  | Postprocess string
  | TrainBest string
  | TaskScheduler string
  | SpeedupEval string string string
  | Notify string
  | Archive string string

record run_cfg =
  rc_ssh :: string
  rc_model :: string
  rc_target :: string
  rc_kind :: string
  rc_init_times :: nat
  rc_finetuning_times :: int
  rc_testtuning_times :: int

record run_state =
  rn_want_idx :: "int option"
  rn_cmds :: "run_cmd list"
  rn_utils :: utils_state

definition device_id_all :: string where
  "device_id_all = ''6,5,4,3''"

definition execs :: "run_cmd list \<Rightarrow> (run_state, unit) st" where
  "execs cs = modifyS (\<lambda>s. s\<lparr>rn_cmds := rn_cmds s @ cs\<rparr>)"

definition on_utils :: "(utils_state, 'a) st \<Rightarrow> (run_state, 'a) st" where
  "on_utils m s = (case m (rn_utils s) of (u, r) \<Rightarrow> (s\<lparr>rn_utils := u\<rparr>, r))"

definition dataset_cmd :: "run_cfg \<Rightarrow> for_type \<Rightarrow> string \<Rightarrow> string \<Rightarrow> nat option \<Rightarrow> int option \<Rightarrow> string option \<Rightarrow> run_cmd" where
  "dataset_cmd cfg ft folder save keep idx sched =
     MakeDataset \<lparr>ma_for_type = ft, ma_target = rc_target cfg, ma_dataset_path = ''dataset/'' @ folder @ ''/'' @ rc_model cfg,
       ma_tokenizer_path = ''gen_data/gen_tokenizer_'' @ rc_model cfg, ma_save_path = ''gen_data/'' @ rc_model cfg @ save,
       ma_keep_cnt = keep, ma_test_file_idx = idx, ma_schedule_file_path = sched\<rparr>"

definition gen_cmd :: "run_cfg \<Rightarrow> string \<Rightarrow> string \<Rightarrow> string \<Rightarrow> bool \<Rightarrow> nat \<Rightarrow> run_cmd" where
  "gen_cmd cfg clm folder out repeat keep =
     GenState device_id_all \<lparr>ga_model_name_or_path = ''gen_data/'' @ clm @ rc_model cfg,
       ga_sketch_path = ''gen_data/'' @ rc_model cfg @ folder @ ''/0_merge.json'',
       ga_save_path = ''gen_data/'' @ rc_model cfg @ folder @ ''/'' @ out, ga_allow_repeat = repeat, ga_target = rc_target cfg, ga_keep_cnt = keep\<rparr>"

definition indexed_file :: "string \<Rightarrow> int \<Rightarrow> string" where
  "indexed_file prefix i = prefix @ show_int i @ ''.json''"

definition upload_cmd :: "run_cfg \<Rightarrow> string \<Rightarrow> string \<Rightarrow> string \<Rightarrow> run_cmd" where
  "upload_cmd cfg folder out dst = Upload (''gen_data/'' @ rc_model cfg @ folder @ ''/'' @ out) (rc_ssh cfg) dst"

section \<open>First files\<close>

definition finetuning_first :: "run_cfg \<Rightarrow> int \<Rightarrow> run_cmd list" where
  "finetuning_first cfg i =
     [dataset_cmd cfg FOR_GEN_TRAIN_SKETCH ''to_measure_programs'' ''_gen_train'' (Some 48) (Some i) None,
      gen_cmd cfg ''clm_gen_'' ''_gen_train'' ''gen_train.json'' True 16,
      upload_cmd cfg ''_gen_train'' ''gen_train.json'' (indexed_file ''finetuning_'' i)]"

definition testtuning_first :: "run_cfg \<Rightarrow> int \<Rightarrow> run_cmd list" where
  "testtuning_first cfg i =
     [dataset_cmd cfg FOR_GEN_EVALTUNING_SKETCH ''to_measure_programs'' ''_gen_evaltuning'' (Some 64) None None,
      gen_cmd cfg ''clm_gen_best_'' ''_gen_evaltuning'' ''gen_eval.json'' True 32,
      upload_cmd cfg ''_gen_evaltuning'' ''gen_eval.json'' (indexed_file ''testtuning_'' i)]"

datatype tuning_type = FOR_FINETUNING | FOR_TESTTUNING

definition tuning_init :: "tuning_type \<Rightarrow> bool \<Rightarrow> bool \<Rightarrow> run_cfg \<Rightarrow> run_cmd list" where
  "tuning_init ft finetuning_init testtuning_init cfg =
     (if ft = FOR_FINETUNING \<and> finetuning_init then concat (map (\<lambda>i. finetuning_first cfg (int i)) [0..<rc_init_times cfg]) else []) @
     (if ft = FOR_TESTTUNING \<and> testtuning_init then concat (map (\<lambda>i. testtuning_first cfg (int i)) [0..<rc_init_times cfg]) else [])"

section \<open>One round\<close>

datatype round_end = Proceed | Finished

definition local_file :: "run_cfg \<Rightarrow> string \<Rightarrow> string" where
  "local_file cfg f = ''gen_data/measure_data_'' @ rc_model cfg @ ''/'' @ f"

text \<open>The guard on \<^verbatim>\<open>want_idx\<close>: the first index seen is wanted, any other index than the wanted one is not handled.\<close>

definition claim_idx :: "int \<Rightarrow> (run_state, bool) st" where
  "claim_idx idx =
     bindS (modifyS (\<lambda>s. if rn_want_idx s = None then s\<lparr>rn_want_idx := Some idx\<rparr> else s)) (\<lambda>_.
     bindS (getS rn_want_idx) (\<lambda>w.
       if w \<noteq> Some idx then returnS False
       else bindS (modifyS (\<lambda>s. s\<lparr>rn_want_idx := Some (idx + 1)\<rparr>)) (\<lambda>_. returnS True)))"

definition finetuning_round :: "run_cfg \<Rightarrow> string \<Rightarrow> (run_state, round_end) st" where
  "finetuning_round cfg f =
     bindS (execs [Download (rc_ssh cfg) f (''measured/'' @ f)]) (\<lambda>_.
     bindS (liftS (py_int (drop (length ''finetuning_'') (splitext_root f)))) (\<lambda>idx.
     bindS (claim_idx idx) (\<lambda>claimed.
       if \<not> claimed then returnS Proceed
       else
         bindS (execs [Mv (''measured/'' @ f) (local_file cfg f)]) (\<lambda>_.
         bindS (on_utils (add_finetuning_files (Some (rc_model cfg)) (local_file cfg f))) (\<lambda>_.
         bindS (execs
           ([Postprocess (rc_target cfg), dataset_cmd cfg FOR_GEN_BEST ''measure_records'' ''_gen_best'' None None None, TrainBest (rc_model cfg),
             dataset_cmd cfg FOR_GEN_TRAIN_SKETCH
               (if idx + int (rc_init_times cfg) < rc_finetuning_times cfg then ''to_measure_programs'' else ''measure_records'')
               ''_gen_train'' (Some 48) (Some (idx + int (rc_init_times cfg))) None] @
            (if idx mod 4 = 3 then
               [gen_cmd cfg ''clm_gen_best_'' ''_gen_eval'' ''gen_eval.json'' True 32,
                upload_cmd cfg ''_gen_eval'' ''gen_eval.json'' (indexed_file ''0_test_'' idx)] else []) @
            [gen_cmd cfg ''clm_gen_best_'' ''_gen_train'' ''gen_train.json'' False 16,
             upload_cmd cfg ''_gen_train'' ''gen_train.json'' (indexed_file ''finetuning_'' (idx + int (rc_init_times cfg))),
             Archive (rc_ssh cfg) f])) (\<lambda>_. returnS Proceed))))))"

definition test_round :: "run_cfg \<Rightarrow> string \<Rightarrow> (run_state, round_end) st" where
  "test_round cfg f =
     bindS (execs [Download (rc_ssh cfg) f (''measured/'' @ f)]) (\<lambda>_.
     bindS (liftS (py_int (drop (length ''0_test_'') (splitext_root f)))) (\<lambda>idx.
     bindS (execs [Mv (''measured/'' @ f) (local_file cfg f)]) (\<lambda>_.
     bindS (on_utils (add_test_files (Some (rc_model cfg)) (local_file cfg f))) (\<lambda>_.
     bindS (execs [SpeedupEval (rc_target cfg) ''for_test'' (''speedup_eval_'' @ rc_kind cfg @ ''.log''), Notify ''0_test_done'',
       Archive (rc_ssh cfg) f]) (\<lambda>_. returnS Proceed)))))"

text \<open>\<open>stored\<close> is what \<^verbatim>\<open>task_sheduler.py\<close> has stored, read by \<^verbatim>\<open>find_potential_files_len\<close>.\<close>

definition keep_cnt_factor :: "nat \<Rightarrow> nat" where
  "keep_cnt_factor len_tasks = (if len_tasks < 20 then 4 else if len_tasks \<le> 2 then 4 else 1)"

definition testtuning_round :: "run_cfg \<Rightarrow> string list option \<Rightarrow> string \<Rightarrow> (run_state, round_end) st" where
  "testtuning_round cfg stored f =
     bindS (execs [Download (rc_ssh cfg) f (''measured/'' @ f)]) (\<lambda>_.
     bindS (liftS (py_int (drop (length ''testtuning_'') (splitext_root f)))) (\<lambda>idx.
     bindS (claim_idx idx) (\<lambda>claimed.
       if \<not> claimed then returnS Proceed
       else
         bindS (execs [Mv (''measured/'' @ f) (local_file cfg f)]) (\<lambda>_.
         bindS (on_utils (add_testtuning_files (Some (rc_model cfg)) (local_file cfg f))) (\<lambda>_.
         bindS (execs [Postprocess (rc_target cfg), dataset_cmd cfg FOR_GEN_BEST_ALL ''measure_records'' ''_gen_best'' None None None,
           TrainBest (rc_model cfg), TaskScheduler (rc_target cfg)]) (\<lambda>_.
         bindS (liftS (snd (find_potential_files_len stored))) (\<lambda>len_tasks.
           if len_tasks = 0 then returnS Finished
           else
             bindS (execs
               [dataset_cmd cfg FOR_GEN_EVALTUNING_SKETCH
                  (if idx + int (rc_init_times cfg) < rc_testtuning_times cfg then ''to_measure_programs'' else ''measure_records'')
                  ''_gen_evaltuning'' (Some (128 * keep_cnt_factor len_tasks)) None (Some (''task_sheduler_'' @ rc_model cfg @ ''.pkl'')),
                gen_cmd cfg ''clm_gen_best_'' ''_gen_evaltuning'' ''gen_eval.json'' False (64 * keep_cnt_factor len_tasks),
                upload_cmd cfg ''_gen_evaltuning'' ''gen_eval.json'' (indexed_file ''testtuning_'' (idx + int (rc_init_times cfg))),
                SpeedupEval (rc_target cfg) ''for_testtuning'' (''speedup_eval_'' @ rc_kind cfg @ ''_testtuning.log''),
                Archive (rc_ssh cfg) f]) (\<lambda>_. returnS Proceed))))))))"

definition run_round :: "run_cfg \<Rightarrow> string list option \<times> string list \<Rightarrow> (run_state, round_end) st" where
  "run_round cfg inp = (case snd inp of
     [] \<Rightarrow> returnS Proceed
   | f # _ \<Rightarrow>
       if py_in ''finetuning_'' f then finetuning_round cfg f
       else if py_in ''0_test_'' f then test_round cfg f
       else if py_in ''testtuning_'' f then testtuning_round cfg (fst inp) f
       else returnS Proceed)"

primrec run_rounds :: "run_cfg \<Rightarrow> (string list option \<times> string list) list \<Rightarrow> (run_state, round_end) st" where
  "run_rounds cfg [] = returnS Proceed"
| "run_rounds cfg (inp # inps) = bindS (run_round cfg inp) (\<lambda>r. case r of Finished \<Rightarrow> returnS Finished | Proceed \<Rightarrow> run_rounds cfg inps)"

definition run_tuning :: "tuning_type \<Rightarrow> bool \<Rightarrow> bool \<Rightarrow> run_cfg \<Rightarrow> (string list option \<times> string list) list \<Rightarrow> (run_state, round_end) st" where
  "run_tuning ft finetuning_init testtuning_init cfg inps =
     bindS (execs (tuning_init ft finetuning_init testtuning_init cfg)) (\<lambda>_.
     bindS (modifyS (\<lambda>s. s\<lparr>rn_want_idx := None\<rparr>)) (\<lambda>_. run_rounds cfg inps))"

definition platform_cfg :: "string \<Rightarrow> string \<Rightarrow> string \<Rightarrow> run_cfg py" where
  "platform_cfg platform target kind =
     (let c = (\<lambda>ssh. Inr \<lparr>rc_ssh = ssh, rc_model = platform, rc_target = target, rc_kind = kind, rc_init_times = 2,
                  rc_finetuning_times = 10 ^ 10, rc_testtuning_times = 10 ^ 10\<rparr>) in
      if platform = ''i7'' then c ''hw'' else if platform = ''v100'' then c ''zy27''
      else if platform = ''2080'' then c ''zy36'' else Inl AssertionError)"

definition run_main :: "(string \<Rightarrow> string) \<Rightarrow> tuning_type \<Rightarrow> bool \<Rightarrow> bool \<Rightarrow> string \<Rightarrow> (string list option \<times> string list) list \<Rightarrow> (run_state, round_end) st" where
  "run_main target_kind ft finetuning_init testtuning_init target inps =
     (case register_data_path target no_paths of
        (p, Inl e) \<Rightarrow> liftS (Inl e)
      | (p, Inr _) \<Rightarrow>
          bindS (liftS (bindE (the_folder (dp_platform p)) (\<lambda>platform. platform_cfg platform target (target_kind target)))) (\<lambda>cfg.
            run_tuning ft finetuning_init testtuning_init cfg inps))"

section \<open>Indices in file names\<close>

lemma int_digits_all:
  "list_all is_digit xs \<Longrightarrow> xs \<noteq> [] \<or> b \<Longrightarrow> int_digits acc b xs = Some (fold (\<lambda>c a. 10 * a + (of_char c - 48)) xs acc)"
proof (induction xs arbitrary: acc b)
  case (Cons c cs)
  then have "c \<noteq> CHR ''_''" by (auto simp: is_digit_def)
  with Cons show ?case by simp
qed simp

lemma show_nat_digits: "list_all is_digit (show_nat n) \<and> show_nat n \<noteq> [] \<and> fold (\<lambda>c a. 10 * a + (of_char c - 48)) (show_nat n) 0 = n"
proof (induction n rule: show_nat.induct)
  case (1 n)
  show ?case
  proof (cases "n < 10")
    case False
    with 1 show ?thesis unfolding show_nat.simps[of n] by (simp add: is_digit_def)
  qed (simp add: show_nat.simps[of n] is_digit_def)
qed

lemma int_of_show_nat: "int_digits 0 False (show_nat n) = Some n"
  using int_digits_all[of "show_nat n" False 0] show_nat_digits[of n] by simp

lemma digit_not_space: "is_digit c \<Longrightarrow> \<not> is_space c"
  by (auto simp: is_digit_def is_space_def)

lemma dropWhile_ends: "xs \<noteq> [] \<Longrightarrow> \<not> P (hd xs) \<Longrightarrow> dropWhile P xs = xs"
  by (cases xs) simp_all

lemma py_int_show: "py_int (show_int i) = Inr i"
proof -
  have ds: "list_all is_digit (show_nat n)" "show_nat n \<noteq> []" for n using show_nat_digits[of n] by simp_all
  have ends: "\<not> is_space (hd (show_nat n))" "\<not> is_space (List.last (show_nat n))" for n
    using ds[of n] by (auto simp: list_all_iff intro!: digit_not_space)
  have strip: "rev (dropWhile is_space (rev (dropWhile is_space (show_int i)))) = show_int i"
    using ds ends by (simp add: show_int_def dropWhile_ends hd_rev is_space_def[of "CHR ''-''"])
  have first: "show_nat n = c # r \<Longrightarrow> c \<noteq> CHR ''-'' \<and> c \<noteq> CHR ''+''" for n c r
    using ds(1)[of n] by (auto simp: is_digit_def)
  show ?thesis
  proof (cases "i < 0")
    case True
    then show ?thesis unfolding py_int_def strip by (simp add: show_int_def int_of_show_nat)
  next
    case False
    obtain c r where cr: "show_nat (nat i) = c # r" using ds(2)[of "nat i"] by (cases "show_nat (nat i)") auto
    with False int_of_show_nat[of "nat i"] first[OF cr] show ?thesis
      unfolding py_int_def strip by (simp add: show_int_def)
  qed
qed

lemma show_int_inj: "show_int i = show_int j \<longleftrightarrow> i = j"
  by (metis py_int_show sum.inject(2))

lemma indexed_file_inj: "indexed_file p i = indexed_file p j \<longleftrightarrow> i = j"
  by (simp add: indexed_file_def show_int_inj)

lemma indexed_file_idx:
  assumes "\<not> list_all (\<lambda>c. c = CHR ''.'') p"
  shows "py_int (drop (length p) (splitext_root (indexed_file p i))) = Inr i"
proof -
  have "\<not> list_all (\<lambda>c. c = CHR ''.'') (p @ show_int i)" using assms by simp
  from splitext_json[OF this] show ?thesis by (simp add: indexed_file_def py_int_show)
qed

lemma py_in_prefix: "py_in p (p @ x)"
proof -
  have "is_prefix p (p @ x)" by (simp add: is_prefix_def)
  then show ?thesis by (cases "p @ x") simp_all
qed

section \<open>Rounds\<close>

fun uploaded :: "run_cmd \<Rightarrow> string list" where
  "uploaded (Upload src ssh f) = [f]"
| "uploaded _ = []"

definition uploads :: "run_state \<Rightarrow> string list" where
  "uploads s = concat (map uploaded (rn_cmds s))"

lemmas run_defs = execs_def claim_idx_def uploads_def dataset_cmd_def gen_cmd_def upload_cmd_def

definition next_files :: "run_cfg \<Rightarrow> int \<Rightarrow> string list" where
  "next_files cfg i = (if i mod 4 = 3 then [indexed_file ''0_test_'' i] else []) @ [indexed_file ''finetuning_'' (i + int (rc_init_times cfg))]"

text \<open>The round of a wanted file.\<close>

lemma finetuning_step:
  fixes cfg i
  defines "f \<equiv> indexed_file ''finetuning_'' i"
  assumes "rn_want_idx s = None \<or> rn_want_idx s = Some i" "local_file cfg f \<notin> set (file_list (saved (rn_utils s)) (rc_model cfg) ''finetuning_files'')"
  shows "\<exists>s'. run_round cfg (stored, f # fs) s = (s', Inr Proceed) \<and> rn_want_idx s' = Some (i + 1) \<and>
     uploads s' = uploads s @ next_files cfg i \<and>
     file_list (saved (rn_utils s')) (rc_model cfg) ''finetuning_files'' =
       file_list (saved (rn_utils s)) (rc_model cfg) ''finetuning_files'' @ [local_file cfg f]"
proof -
  obtain u where u: "add_file (Some (rc_model cfg)) ''finetuning_files'' (local_file cfg f) (rn_utils s) = (u, Inr ())"
    "file_list (saved u) (rc_model cfg) ''finetuning_files'' =
       file_list (saved (rn_utils s)) (rc_model cfg) ''finetuning_files'' @ [local_file cfg f]"
    using add_file_effect[of "''finetuning_files''" "rc_model cfg" "local_file cfg f" "rn_utils s"] assms(3) by (auto simp: Let_def)
  have idx: "py_int (drop (length ''finetuning_'') (splitext_root f)) = Inr i"
    unfolding f_def by (rule indexed_file_idx) simp
  have "py_in ''finetuning_'' f" unfolding f_def indexed_file_def by (rule py_in_prefix)
  then have "run_round cfg (stored, f # fs) s = finetuning_round cfg f s" by (simp only: run_round_def snd_conv list.case if_True)
  with assms(2) u idx show ?thesis
    by (auto simp: finetuning_round_def run_defs on_utils_def add_finetuning_files_def next_files_def)
qed

lemma finetuning_run:
  assumes "\<forall>k < length inps. \<exists>fs. snd (inps ! k) = indexed_file ''finetuning_'' (i + int k) # fs"
    "rn_want_idx s = None \<or> rn_want_idx s = Some i"
    "\<forall>j \<ge> i. local_file cfg (indexed_file ''finetuning_'' j) \<notin> set (file_list (saved (rn_utils s)) (rc_model cfg) ''finetuning_files'')"
  shows "\<exists>s'. run_rounds cfg inps s = (s', Inr Proceed) \<and> (inps = [] \<or> rn_want_idx s' = Some (i + int (length inps))) \<and>
     uploads s' = uploads s @ concat (map (\<lambda>k. next_files cfg (i + int k)) [0..<length inps]) \<and>
     file_list (saved (rn_utils s')) (rc_model cfg) ''finetuning_files'' =
       file_list (saved (rn_utils s)) (rc_model cfg) ''finetuning_files'' @
         map (\<lambda>k. local_file cfg (indexed_file ''finetuning_'' (i + int k))) [0..<length inps]"
  using assms
proof (induction inps arbitrary: i s)
  case (Cons inp inps)
  obtain stored fs where inp: "inp = (stored, indexed_file ''finetuning_'' i # fs)"
    using Cons.prems(1)[rule_format, of 0] by (cases inp) auto
  obtain s1 where s1: "run_round cfg inp s = (s1, Inr Proceed)" "rn_want_idx s1 = Some (i + 1)" "uploads s1 = uploads s @ next_files cfg i"
    "file_list (saved (rn_utils s1)) (rc_model cfg) ''finetuning_files'' =
       file_list (saved (rn_utils s)) (rc_model cfg) ''finetuning_files'' @ [local_file cfg (indexed_file ''finetuning_'' i)]"
    using finetuning_step[OF Cons.prems(2), where cfg = cfg and stored = stored and fs = fs] Cons.prems(3) unfolding inp by blast
  have "\<forall>k < length inps. \<exists>fs. snd (inps ! k) = indexed_file ''finetuning_'' (i + 1 + int k) # fs"
    using Cons.prems(1) by (auto simp: algebra_simps dest: spec[of _ "Suc _"])
  moreover have "\<forall>j \<ge> i + 1. local_file cfg (indexed_file ''finetuning_'' j) \<notin> set (file_list (saved (rn_utils s1)) (rc_model cfg) ''finetuning_files'')"
    using Cons.prems(3) s1(4) by (auto simp: local_file_def indexed_file_inj)
  ultimately obtain s2 where s2: "run_rounds cfg inps s1 = (s2, Inr Proceed)" "inps = [] \<or> rn_want_idx s2 = Some (i + 1 + int (length inps))"
    "uploads s2 = uploads s1 @ concat (map (\<lambda>k. next_files cfg (i + 1 + int k)) [0..<length inps])"
    "file_list (saved (rn_utils s2)) (rc_model cfg) ''finetuning_files'' =
       file_list (saved (rn_utils s1)) (rc_model cfg) ''finetuning_files'' @
         map (\<lambda>k. local_file cfg (indexed_file ''finetuning_'' (i + 1 + int k))) [0..<length inps]"
    using Cons.IH[of "i + 1" s1] s1(2) by blast
  have "[0..<Suc (length inps)] = 0 # map Suc [0..<length inps]" by (simp add: map_Suc_upt upt_conv_Cons del: upt_Suc)
  with s1 s2 show ?case by (intro exI[of _ s2]) (auto simp: comp_def algebra_simps simp del: upt_Suc)
qed simp

lemma tuning_init_uploads:
  "concat (map uploaded (tuning_init FOR_FINETUNING True tt cfg)) = map (\<lambda>i. indexed_file ''finetuning_'' (int i)) [0..<rc_init_times cfg]"
proof -
  have "concat (map uploaded (concat (map (\<lambda>i. finetuning_first cfg (int i)) is))) = map (\<lambda>i. indexed_file ''finetuning_'' (int i)) is" for "is"
    by (induction "is") (simp_all add: finetuning_first_def run_defs)
  then show ?thesis by (simp add: tuning_init_def)
qed

text \<open>C34: The fine-tuning pipeline. The driver first sends the files 0 to \<^verbatim>\<open>init_times\<close> - 1. When the measured files come back in order, the round of file i sends file i + \<^verbatim>\<open>init_times\<close> (preceded by a test file in every fourth round), so that every index is sent once, in order, and \<^verbatim>\<open>init_times\<close> files are always on their way; every fetched file is recorded once, in order, in the list the training data are made from.\<close>

theorem finetuning_pipeline:
  assumes "\<forall>k < length inps. \<exists>fs. snd (inps ! k) = indexed_file ''finetuning_'' (int k) # fs"
    "file_list (saved u) (rc_model cfg) ''finetuning_files'' = []"
  shows "\<exists>s. run_tuning FOR_FINETUNING True testtuning_init cfg inps \<lparr>rn_want_idx = w, rn_cmds = [], rn_utils = u\<rparr> = (s, Inr Proceed) \<and>
     uploads s = map (\<lambda>i. indexed_file ''finetuning_'' (int i)) [0..<rc_init_times cfg] @
       concat (map (\<lambda>k. (if k mod 4 = 3 then [indexed_file ''0_test_'' (int k)] else []) @
         [indexed_file ''finetuning_'' (int (k + rc_init_times cfg))]) [0..<length inps]) \<and>
     file_list (saved (rn_utils s)) (rc_model cfg) ''finetuning_files'' =
       map (\<lambda>k. local_file cfg (indexed_file ''finetuning_'' (int k))) [0..<length inps]"
proof -
  define s0 where "s0 = \<lparr>rn_want_idx = None, rn_cmds = tuning_init FOR_FINETUNING True testtuning_init cfg, rn_utils = u\<rparr>"
  have "run_tuning FOR_FINETUNING True testtuning_init cfg inps \<lparr>rn_want_idx = w, rn_cmds = [], rn_utils = u\<rparr> = run_rounds cfg inps s0"
    by (simp add: run_tuning_def execs_def s0_def)
  moreover have "uploads s0 = map (\<lambda>i. indexed_file ''finetuning_'' (int i)) [0..<rc_init_times cfg]"
    by (simp add: uploads_def s0_def tuning_init_uploads)
  moreover have "next_files cfg (int k) = (if k mod 4 = 3 then [indexed_file ''0_test_'' (int k)] else []) @
      [indexed_file ''finetuning_'' (int (k + rc_init_times cfg))]" for k
  proof -
    have "int k mod 4 = 3 \<longleftrightarrow> k mod 4 = 3" by presburger
    then show ?thesis by (simp add: next_files_def)
  qed
  ultimately show ?thesis using finetuning_run[of inps 0 s0 cfg] assms by (simp add: s0_def) blast
qed

definition demo_cfg :: run_cfg where
  "demo_cfg = \<lparr>rc_ssh = ''hw'', rc_model = ''i7'', rc_target = ''llvm'', rc_kind = ''llvm'', rc_init_times = 2, rc_finetuning_times = 10 ^ 10,
     rc_testtuning_times = 10 ^ 10\<rparr>"

theorem finetuning_pipeline_witness:
  "\<exists>s. run_tuning FOR_FINETUNING True False demo_cfg [(None, [''finetuning_0.json'']), (None, [''finetuning_1.json'', ''notes''])]
       \<lparr>rn_want_idx = None, rn_cmds = [], rn_utils = \<lparr>us_file = None, us_json = []\<rparr>\<rparr> = (s, Inr Proceed) \<and>
     uploads s = [''finetuning_0.json'', ''finetuning_1.json'', ''finetuning_2.json'', ''finetuning_3.json''] \<and>
     file_list (saved (rn_utils s)) ''i7'' ''finetuning_files'' =
       [''gen_data/measure_data_i7/finetuning_0.json'', ''gen_data/measure_data_i7/finetuning_1.json'']"
proof -
  have names: "indexed_file p 0 = p @ ''0.json''" "indexed_file p 1 = p @ ''1.json''" "indexed_file p 2 = p @ ''2.json''"
    "indexed_file p 3 = p @ ''3.json''" for p
    by (simp_all add: indexed_file_def show_int_def show_nat.simps char_of_def bit_0)
  let ?inps = "[(None, [''finetuning_0.json'']), (None, [''finetuning_1.json'', ''notes''])] :: (string list option \<times> string list) list"
  have "\<forall>k < length ?inps. \<exists>fs. snd (?inps ! k) = indexed_file ''finetuning_'' (int k) # fs"
    by (simp add: less_Suc_eq names)
  from finetuning_pipeline[OF this, of "\<lparr>us_file = None, us_json = []\<rparr>" demo_cfg False None] show ?thesis
    by (simp add: saved_def[of "\<lparr>us_file = None, us_json = []\<rparr>"] file_list_def[of "[]"] demo_cfg_def upt_conv_Cons names local_file_def)
qed

section \<open>Blocked rounds\<close>

lemma claim_other: "rn_want_idx s = Some w \<Longrightarrow> i \<noteq> w \<Longrightarrow> claim_idx i s = (s, Inr False)"
  by (simp add: claim_idx_def)

lemma foreign_round:
  fixes cfg :: run_cfg and s :: run_state
  assumes "py_int (drop 11 (splitext_root f)) = Inr i" "i \<noteq> w" "rn_want_idx s = Some w"
  defines "s1 \<equiv> s\<lparr>rn_cmds := rn_cmds s @ [Download (rc_ssh cfg) f (''measured/'' @ f)]\<rparr>"
  shows "finetuning_round cfg f s = (s1, Inr Proceed)" "testtuning_round cfg stored f s = (s1, Inr Proceed)"
proof -
  have exec: "execs [Download (rc_ssh cfg) f (''measured/'' @ f)] s = (s1, Inr ())" by (simp add: execs_def s1_def)
  have claim: "claim_idx i s1 = (s1, Inr False)" using assms(2,3) by (intro claim_other) (simp_all add: s1_def)
  have len: "length ''finetuning_'' = 11" "length ''testtuning_'' = 11" by simp_all
  have idx: "liftS (py_int (drop 11 (splitext_root f))) s1 = (s1, Inr i)" using assms(1) by simp
  show "finetuning_round cfg f s = (s1, Inr Proceed)" "testtuning_round cfg stored f s = (s1, Inr Proceed)"
    unfolding finetuning_round_def testtuning_round_def bindS_Inr[of "execs _", OF exec] len
      bindS_Inr[of "liftS _", OF idx] bindS_Inr[of "claim_idx i", OF claim] by simp_all
qed

text \<open>C35: A measured file that is not the wanted one blocks the driver. If the listing starts with a tuning file of another index than the wanted one (also one of the other kind of tuning, as both kinds share the wanted index), or with a file of an unknown name, a round fetches it at most and changes nothing else: nothing is sent, recorded or moved away. As the file stays first in the folder, no number of rounds makes progress.\<close>

theorem foreign_file_blocks:
  assumes "\<forall>inp \<in> set inps. \<exists>fs. snd inp = f # fs" "rn_want_idx s = Some w"
    "py_in ''finetuning_'' f \<or> py_in ''testtuning_'' f \<longrightarrow> (\<exists>i. py_int (drop 11 (splitext_root f)) = Inr i \<and> i \<noteq> w)"
    "\<not> py_in ''0_test_'' f"
  shows "\<exists>n. run_rounds cfg inps s = (s\<lparr>rn_cmds := rn_cmds s @ replicate n (Download (rc_ssh cfg) f (''measured/'' @ f))\<rparr>, Inr Proceed)"
  using assms(1,2)
proof (induction inps arbitrary: s)
  case Nil
  show ?case by (intro exI[of _ 0]) simp
next
  case (Cons inp inps)
  obtain stored fs where inp: "inp = (stored, f # fs)" using Cons.prems(1) by (cases inp) auto
  have "\<exists>m. run_round cfg inp s = (s\<lparr>rn_cmds := rn_cmds s @ replicate m (Download (rc_ssh cfg) f (''measured/'' @ f))\<rparr>, Inr Proceed)"
  proof (cases "py_in ''finetuning_'' f \<or> py_in ''testtuning_'' f")
    case True
    then obtain i where "py_int (drop 11 (splitext_root f)) = Inr i" "i \<noteq> w" using assms(3) by blast
    with True Cons.prems(2) assms(4) show ?thesis
      by (intro exI[of _ 1]) (auto simp: inp run_round_def foreign_round)
  next
    case False
    with assms(4) show ?thesis by (intro exI[of _ 0]) (simp add: inp run_round_def)
  qed
  then obtain m where m: "run_round cfg inp s = (s\<lparr>rn_cmds := rn_cmds s @ replicate m (Download (rc_ssh cfg) f (''measured/'' @ f))\<rparr>, Inr Proceed)" by blast
  let ?s = "s\<lparr>rn_cmds := rn_cmds s @ replicate m (Download (rc_ssh cfg) f (''measured/'' @ f))\<rparr>"
  obtain n where "run_rounds cfg inps ?s = (?s\<lparr>rn_cmds := rn_cmds ?s @ replicate n (Download (rc_ssh cfg) f (''measured/'' @ f))\<rparr>, Inr Proceed)"
    using Cons.IH[of ?s] Cons.prems by auto
  with m show ?case by (intro exI[of _ "m + n"]) (simp add: replicate_add)
qed

theorem foreign_file_blocks_witness:
  "\<exists>n. run_rounds demo_cfg (replicate 5 (None, [''testtuning_0.json''])) \<lparr>rn_want_idx = Some 3, rn_cmds = [], rn_utils = \<lparr>us_file = None, us_json = []\<rparr>\<rparr> =
     (\<lparr>rn_want_idx = Some 3, rn_cmds = replicate n (Download ''hw'' ''testtuning_0.json'' ''measured/testtuning_0.json''), rn_utils = \<lparr>us_file = None, us_json = []\<rparr>\<rparr>, Inr Proceed)"
proof -
  have "py_int (drop 11 (splitext_root ''testtuning_0.json'')) = Inr 0"
    by (simp add: splitext_root_def py_int_def is_space_def is_digit_def Let_def)
  then show ?thesis
    using foreign_file_blocks[of "replicate 5 (None, [''testtuning_0.json''])" "''testtuning_0.json''"
        "\<lparr>rn_want_idx = Some 3, rn_cmds = [], rn_utils = \<lparr>us_file = None, us_json = []\<rparr>\<rparr>" 3 demo_cfg] by (simp add: demo_cfg_def is_prefix_def)
qed

section \<open>End and errors\<close>

text \<open>Test tuning ends in the round in which the task scheduler has stored no task; the file of that round stays in the folder.\<close>

lemma testtuning_ends:
  assumes "rn_want_idx s = None \<or> rn_want_idx s = Some i" "py_int (drop (length ''testtuning_'') (splitext_root f)) = Inr i"
  shows "\<exists>s'. testtuning_round cfg (Some []) f s = (s', Inr Finished) \<and> Archive (rc_ssh cfg) f \<notin> set (rn_cmds s') - set (rn_cmds s)"
proof -
  obtain u where "add_file (Some (rc_model cfg)) ''testtuning_files'' (local_file cfg f) (rn_utils s) = (u, Inr ())"
    using add_file_effect[of "''testtuning_files''" "rc_model cfg" "local_file cfg f" "rn_utils s"] by auto
  with assms show ?thesis
    by (auto simp: testtuning_round_def run_defs on_utils_def add_testtuning_files_def find_potential_files_len_def)
qed

text \<open>Without a stored file of tasks the round fails after training has been started.\<close>

lemma testtuning_without_schedule:
  assumes "rn_want_idx s = None \<or> rn_want_idx s = Some i" "py_int (drop (length ''testtuning_'') (splitext_root f)) = Inr i"
  shows "\<exists>s'. testtuning_round cfg None f s = (s', Inl FileNotFoundError) \<and> TrainBest (rc_model cfg) \<in> set (rn_cmds s')"
proof -
  obtain u where "add_file (Some (rc_model cfg)) ''testtuning_files'' (local_file cfg f) (rn_utils s) = (u, Inr ())"
    using add_file_effect[of "''testtuning_files''" "rc_model cfg" "local_file cfg f" "rn_utils s"] by auto
  with assms show ?thesis
    by (auto simp: testtuning_round_def run_defs on_utils_def add_testtuning_files_def find_potential_files_len_def)
qed

text \<open>The platform \<^verbatim>\<open>a100\<close> has data folders, but no configuration of the driver.\<close>

lemma run_main_a100: "run_main kind ft fi ti ''nvidia/nvidia-a100'' inps s = (s, Inl AssertionError)"
  by (simp add: run_main_def register_data_path_def model_list_def is_prefix_def no_paths_def the_folder_def platform_cfg_def Let_def)

lemma keep_cnt_factor_cases: "keep_cnt_factor n = (if n < 20 then 4 else 1)"
  by (simp add: keep_cnt_factor_def)

end
