(* ===== verification/Task_Scheduler.thy ===== *)
theory Task_Scheduler
  imports TLM_Data
begin

text \<open>
  The task scheduler \<^verbatim>\<open>auto_scheduler/task_scheduler.py\<close>, which divides a budget of measurements among the
  tasks of a network. The state is the object of class \<^verbatim>\<open>TaskScheduler\<close>. The search policies are
  parameters: a round of a policy answers with the number of its measured inputs and the costs of
  its results. So are the results of \<^verbatim>\<open>np.random.choice\<close>. Costs are \<^typ>\<open>rat\<close>; a division of a numpy
  value by zero, which yields infinity in Python, does not occur for positive costs and flop counts. The
  callbacks, which print and log, are left out.
\<close>

section \<open>Tasks and options\<close>

record dag_task =
  dt_workload_key :: string
  dt_target :: string
  dt_op_tags :: "string option list"
  dt_flop_ct :: rat

record sched_cfg =
  sc_tasks :: "dag_task list"
  sc_objective :: "rat list \<Rightarrow> rat"
  sc_strategy :: string
  sc_alpha :: rat
  sc_beta :: rat
  sc_window :: int

record tune_option =
  to_num_measure_trials :: int
  to_early_stopping :: int
  to_num_measures_per_round :: int

record sched_state =
  ss_task_cts :: "nat list"
  ss_task_best_cts :: "nat list"
  ss_costs_history :: "rat list list"
  ss_best_costs :: "rat list"
  ss_cur_score :: rat
  ss_ct :: int
  ss_best_ct :: int
  ss_best_score :: rat
  ss_per_round :: int
  ss_early_all :: int
  ss_early_task :: int
  ss_dead_tasks :: "nat list"
  ss_task_tags :: "string option list"
  ss_tag_to_group_id :: "(string, nat) dict"
  ss_group_task_ids :: "nat list list"

abbreviation n_tasks :: "sched_cfg \<Rightarrow> nat" where
  "n_tasks cfg \<equiv> length (sc_tasks cfg)"

text \<open>The objective: a function given by the caller, else the weighted sum, else the sum.\<close>

definition task_objective :: "(rat list \<Rightarrow> rat) option \<Rightarrow> rat list option \<Rightarrow> rat list \<Rightarrow> rat" where
  "task_objective objective_func task_weights = (case objective_func of
     Some f \<Rightarrow> f
   | None \<Rightarrow> (case task_weights of
       Some (w # ws) \<Rightarrow> (\<lambda>costs. sum_list (map (\<lambda>(c, v). c * v) (zip costs (w # ws))))
     | _ \<Rightarrow> sum_list))"

section \<open>Construction\<close>

text \<open>\<^verbatim>\<open>int(math.log(x, 1.618))\<close>.\<close>

function log_floor :: "rat \<Rightarrow> nat" where
  "log_floor x = (if x < 1618 / 1000 then 0 else Suc (log_floor (x / (1618 / 1000))))"
  by pat_completeness auto
termination
proof (relation "measure (\<lambda>x. nat \<lfloor>3 * x\<rfloor>)")
  fix x :: rat assume "\<not> x < 1618 / 1000"
  then have "3 * (x / (1618 / 1000)) + 1 \<le> 3 * x" "0 \<le> 3 * (x / (1618 / 1000))" by simp_all
  then have "\<lfloor>3 * (x / (1618 / 1000))\<rfloor> < \<lfloor>3 * x\<rfloor>" "0 \<le> \<lfloor>3 * (x / (1618 / 1000))\<rfloor>" by linarith+
  then have "nat \<lfloor>3 * (x / (1618 / 1000))\<rfloor> < nat \<lfloor>3 * x\<rfloor>" by (simp only: nat_less_eq_zless)
  then show "(x / (1618 / 1000), x) \<in> measure (\<lambda>x. nat \<lfloor>3 * x\<rfloor>)" by (simp only: in_measure)
qed simp

declare log_floor.simps [simp del]

definition int_log :: "rat \<Rightarrow> int py" where
  "int_log x = (if x \<le> 0 then Inl ValueError else if 1 \<le> x then Inr (int (log_floor x)) else Inr (- int (log_floor (1 / x))))"

definition derive_similarity_tag :: "dag_task \<Rightarrow> string py" where
  "derive_similarity_tag t =
     (let ret = concat (map (\<lambda>tag. case tag of None \<Rightarrow> [] | Some x \<Rightarrow> if x = [] then [] else x @ ''_'') (dt_op_tags t)) in
      if ret = [] then Inr ret
      else bindE (int_log (dt_flop_ct t + 1)) (\<lambda>k. Inr (ret @ show_int k)))"

definition group_step :: "nat \<times> dag_task \<Rightarrow> string option list \<times> (string, nat) dict \<times> nat list list \<Rightarrow>
    (string option list \<times> (string, nat) dict \<times> nat list list) py" where
  "group_step it g = (case (it, g) of ((i, task), (tags, groups, ids)) \<Rightarrow>
     bindE (derive_similarity_tag task) (\<lambda>tag.
       if tag = [] then Inr (tags @ [Some tag], groups, ids)
       else (case map_of groups tag of
         Some gid \<Rightarrow> Inr (tags @ [Some tag], groups, ids[gid := ids ! gid @ [i]])
       | None \<Rightarrow> Inr (tags @ [Some tag], groups @ [(tag, length groups)],
           (ids @ [[]])[length groups := (ids @ [[]]) ! length groups @ [i]]))))"

definition scheduler_init :: "sched_cfg \<Rightarrow> sched_state py" where
  "scheduler_init cfg =
     bindE (assertE (sc_tasks cfg \<noteq> [])) (\<lambda>_.
     bindE (assertE (sc_strategy cfg \<in> {''round-robin'', ''gradient''})) (\<lambda>_.
     let n = n_tasks cfg; best = replicate n (10 ^ 10) in
     bindE (foldE group_step (enumerate 0 (sc_tasks cfg)) ([], [], [])) (\<lambda>(tags, groups, ids).
       Inr \<lparr>ss_task_cts = replicate n 0, ss_task_best_cts = replicate n 0, ss_costs_history = replicate n [], ss_best_costs = best,
            ss_cur_score = sc_objective cfg best, ss_ct = 0, ss_best_ct = 0, ss_best_score = 0, ss_per_round = 0, ss_early_all = 0,
            ss_early_task = 0, ss_dead_tasks = [], ss_task_tags = tags, ss_tag_to_group_id = groups, ss_group_task_ids = ids\<rparr>)))"

section \<open>One round of a task\<close>

definition array_mean :: "rat list \<Rightarrow> rat py" where
  "array_mean arr = py_div (sum_list arr) (of_nat (length arr))"

type_synonym answer = "nat \<times> rat list list"

primrec take_results :: "nat \<Rightarrow> rat list list \<Rightarrow> (sched_state, unit) st" where
  "take_results idx [] = returnS ()"
| "take_results idx (costs # rest) =
     bindS (liftS (array_mean costs)) (\<lambda>cost.
     bindS (modifyS (\<lambda>s. if cost < ss_best_costs s ! idx
         then s\<lparr>ss_task_best_cts := (ss_task_best_cts s)[idx := ss_task_cts s ! idx], ss_best_costs := (ss_best_costs s)[idx := cost]\<rparr> else s)) (\<lambda>_.
       take_results idx rest))"

definition tune_task :: "sched_cfg \<Rightarrow> nat \<Rightarrow> answer \<Rightarrow> (sched_state, unit) st" where
  "tune_task cfg idx ans =
     bindS (liftS (if idx < n_tasks cfg then Inr () else Inl IndexError)) (\<lambda>_.
     bindS (modifyS (\<lambda>s. s\<lparr>ss_task_cts := (ss_task_cts s)[idx := Suc (ss_task_cts s ! idx)]\<rparr>)) (\<lambda>_.
     bindS (take_results idx (snd ans)) (\<lambda>_.
     bindS (modifyS (\<lambda>s.
       if fst ans = 0 \<or> (int (ss_task_cts s ! idx) - int (ss_task_best_cts s ! idx)) * ss_per_round s > ss_early_task s
       then s\<lparr>ss_dead_tasks := List.insert idx (ss_dead_tasks s)\<rparr> else s)) (\<lambda>_.
     bindS (modifyS (\<lambda>s. s\<lparr>ss_costs_history := (ss_costs_history s)[idx := ss_costs_history s ! idx @ [ss_best_costs s ! idx]]\<rparr>)) (\<lambda>_.
       modifyS (\<lambda>s. s\<lparr>ss_ct := ss_ct s + int (fst ans), ss_cur_score := sc_objective cfg (ss_best_costs s)\<rparr>))))))"

section \<open>Choice of a task\<close>

definition group_of :: "sched_state \<Rightarrow> nat \<Rightarrow> nat option" where
  "group_of s i = (case ss_task_tags s ! i of None \<Rightarrow> None | Some tag \<Rightarrow> map_of (ss_tag_to_group_id s) tag)"

definition group_flops :: "sched_cfg \<Rightarrow> sched_state \<Rightarrow> nat list \<Rightarrow> rat" where
  "group_flops cfg s ids = Max ((\<lambda>j. dt_flop_ct (sc_tasks cfg ! j) / ss_best_costs s ! j) ` set ids)"

definition task_gradient :: "sched_cfg \<Rightarrow> sched_state \<Rightarrow> nat \<Rightarrow> rat py" where
  "task_gradient cfg s i =
     (if i \<in> set (ss_dead_tasks s) then Inr 0
      else
        let best = ss_best_costs s; delta = 1 / 10 ^ 4; ct = int (ss_task_cts s ! i); hist = ss_costs_history s ! i;
            chain_grad = (sc_objective cfg best - sc_objective cfg (best[i := best ! i - delta])) / delta in
        bindE (if ct - 1 < int (length hist) \<and> ct - 1 - sc_window cfg \<ge> 0
               then bindE (py_nth hist (ct - 1)) (\<lambda>a. bindE (py_nth hist (ct - 1 - sc_window cfg)) (\<lambda>b. py_div (a - b) (of_int (sc_window cfg))))
               else Inr 0) (\<lambda>backward_grad.
        let g_next_1 = best ! i - best ! i / of_int ct;
            g_next_2 = (case group_of s i of
              Some gid \<Rightarrow> if length (ss_group_task_ids s ! gid) > 1
                then sc_beta cfg * dt_flop_ct (sc_tasks cfg ! i) / group_flops cfg s (ss_group_task_ids s ! gid) else sc_beta cfg * 10 ^ 30
            | None \<Rightarrow> sc_beta cfg * 10 ^ 30);
            forward_grad = min g_next_1 g_next_2 - best ! i;
            grad = chain_grad * (sc_alpha cfg * backward_grad + (1 - sc_alpha cfg) * forward_grad) in
        bindE (assertE (grad \<le> 0)) (\<lambda>_. Inr grad)))"

definition first_min :: "rat list \<Rightarrow> nat" where
  "first_min gs = length (takeWhile (\<lambda>g. g \<noteq> Min (set gs)) gs)"

definition choose_gradient :: "sched_cfg \<Rightarrow> nat \<Rightarrow> sched_state \<Rightarrow> nat py" where
  "choose_gradient cfg rnd s =
     bindE (mapE (task_gradient cfg s) [0..<n_tasks cfg]) (\<lambda>gs.
       Inr (if Max (set gs) = Min (set gs) then rnd else first_min gs))"

text \<open>The loop over dead tasks makes at most as many steps as there are tasks if one of them is alive.\<close>

fun skip_dead :: "nat \<Rightarrow> nat \<Rightarrow> nat list \<Rightarrow> nat \<Rightarrow> nat option" where
  "skip_dead 0 n dead idx = None"
| "skip_dead (Suc fuel) n dead idx = (if idx \<in> set dead then skip_dead fuel n dead ((idx + 1) mod n) else Some idx)"

definition choose_round_robin :: "sched_cfg \<Rightarrow> int \<Rightarrow> sched_state \<Rightarrow> nat option" where
  "choose_round_robin cfg idx s = skip_dead (n_tasks cfg) (n_tasks cfg) (ss_dead_tasks s) (nat ((idx + 1) mod int (n_tasks cfg)))"

definition adjust_similarity_group :: "sched_cfg \<Rightarrow> nat \<Rightarrow> (sched_state, unit) st" where
  "adjust_similarity_group cfg idx s = (case group_of s idx of
     None \<Rightarrow> (s, Inr ())
   | Some gid \<Rightarrow>
       let ids = ss_group_task_ids s ! gid in
       if length ids \<le> 1 then (s, Inr ())
       else if dt_flop_ct (sc_tasks cfg ! idx) / ss_best_costs s ! idx < group_flops cfg s ids / sc_beta cfg
       then (case filter (\<lambda>j. j \<noteq> idx) ids of
         [] \<Rightarrow> (s, Inl ValueError)
       | others \<Rightarrow>
           if ss_task_cts s ! idx > 5 + Max ((\<lambda>j. ss_task_cts s ! j) ` set others)
           then let s1 = s\<lparr>ss_task_tags := (ss_task_tags s)[idx := None]\<rparr> in
             if idx \<in> set ids then (s1\<lparr>ss_group_task_ids := (ss_group_task_ids s)[gid := remove1 idx ids]\<rparr>, Inr ()) else (s1, Inl ValueError)
           else (s, Inr ()))
       else (s, Inr ()))"

section \<open>Tuning\<close>

definition choose_task :: "sched_cfg \<Rightarrow> nat \<Rightarrow> int \<Rightarrow> sched_state \<Rightarrow> nat option py" where
  "choose_task cfg rnd idx s =
     (if sc_strategy cfg = ''round-robin'' then Inr (choose_round_robin cfg idx s)
      else if sc_strategy cfg = ''gradient'' then bindE (choose_gradient cfg rnd s) (\<lambda>i. Inr (Some i))
      else Inl ValueError)"

text \<open>The bookkeeping after a round; \<open>True\<close> stops the loop.\<close>

definition check_improvement :: "(sched_state, bool) st" where
  "check_improvement s =
     (if ss_cur_score s < ss_best_score s then (s\<lparr>ss_best_score := ss_cur_score s, ss_best_ct := ss_ct s\<rparr>, Inr False)
      else (s, Inr (ss_ct s - ss_best_ct s \<ge> ss_early_all s \<and> (\<forall>cost \<in> set (ss_best_costs s). cost < 10 ^ 9))))"

text \<open>
  The main loop. \<open>policy k i\<close> is the answer of the search policy of task \<open>i\<close> in round \<open>k\<close>, \<open>rnd k\<close> the random
  choice. The result is \<open>False\<close> when the fuel does not suffice or the loop over dead tasks does not end.
\<close>

fun sched_loop :: "sched_cfg \<Rightarrow> int \<Rightarrow> (nat \<Rightarrow> nat \<Rightarrow> answer) \<Rightarrow> (nat \<Rightarrow> nat) \<Rightarrow> nat \<Rightarrow> nat \<Rightarrow> int \<Rightarrow> (sched_state, bool) st" where
  "sched_loop cfg trials policy rnd 0 k idx = returnS False"
| "sched_loop cfg trials policy rnd (Suc fuel) k idx =
     bindS (getS id) (\<lambda>s.
       if \<not> (ss_ct s < trials \<and> length (ss_dead_tasks s) < n_tasks cfg) then returnS True
       else
         bindS (liftS (choose_task cfg (rnd k) idx s)) (\<lambda>chosen. case chosen of
           None \<Rightarrow> returnS False
         | Some i \<Rightarrow>
             bindS (tune_task cfg i (policy k i)) (\<lambda>_.
             bindS (adjust_similarity_group cfg i) (\<lambda>_.
             bindS check_improvement (\<lambda>stop.
               if stop then returnS True else sched_loop cfg trials policy rnd fuel (Suc k) (int i))))))"

primrec warm_up :: "sched_cfg \<Rightarrow> (nat \<Rightarrow> answer) \<Rightarrow> nat list \<Rightarrow> (sched_state, unit) st" where
  "warm_up cfg policy [] = returnS ()"
| "warm_up cfg policy (idx # is) =
     bindS (getS (\<lambda>s. ss_task_cts s ! idx)) (\<lambda>c.
     bindS (if c = 0 then tune_task cfg idx (policy idx) else returnS ()) (\<lambda>_. warm_up cfg policy is))"

record log_entry =
  le_target :: string
  le_workload_key :: string
  le_error_no :: nat
  le_costs :: "rat list"

primrec restore_records :: "sched_cfg \<Rightarrow> log_entry list \<Rightarrow> (sched_state, unit) st" where
  "restore_records cfg [] = returnS ()"
| "restore_records cfg (e # es) =
     bindS (case (if le_target e = dt_target (hd (sc_tasks cfg))
              then map_of (rev (zip (map dt_workload_key (sc_tasks cfg)) [0..<n_tasks cfg])) (le_workload_key e) else None) of
         None \<Rightarrow> returnS ()
       | Some idx \<Rightarrow>
           bindS (modifyS (\<lambda>s. s\<lparr>ss_task_cts := (ss_task_cts s)[idx := Suc (ss_task_cts s ! idx)]\<rparr>)) (\<lambda>_.
             if le_error_no e = 0 then take_results idx [le_costs e] else returnS ())) (\<lambda>_.
     restore_records cfg es)"

definition to_rounds :: "int \<Rightarrow> nat \<Rightarrow> nat" where
  "to_rounds per_round c = nat \<lfloor>of_nat c / of_int per_round + 1 / 2 :: rat\<rfloor>"

definition restore_task :: "int \<Rightarrow> nat \<Rightarrow> sched_state \<Rightarrow> sched_state" where
  "restore_task per_round idx s =
     (let s1 = (if int (ss_task_cts s ! idx) - int (ss_task_best_cts s ! idx) > ss_early_task s
                then s\<lparr>ss_dead_tasks := List.insert idx (ss_dead_tasks s)\<rparr> else s) in
      s1\<lparr>ss_task_cts := (ss_task_cts s1)[idx := to_rounds per_round (ss_task_cts s1 ! idx)],
         ss_task_best_cts := (ss_task_best_cts s1)[idx := to_rounds per_round (ss_task_best_cts s1 ! idx)],
         ss_costs_history := (ss_costs_history s1)[idx := ss_costs_history s1 ! idx @ [ss_best_costs s1 ! idx]]\<rparr>)"

definition restore_status :: "sched_cfg \<Rightarrow> log_entry list \<Rightarrow> int \<Rightarrow> (sched_state, unit) st" where
  "restore_status cfg log_file per_round =
     bindS (restore_records cfg log_file) (\<lambda>_.
     bindS (modifyS (fold (restore_task per_round) [0..<n_tasks cfg])) (\<lambda>_.
       modifyS (\<lambda>s. s\<lparr>ss_cur_score := sc_objective cfg (ss_best_costs s)\<rparr>)))"

text \<open>The names of search policies \<^verbatim>\<open>make_search_policies\<close> accepts.\<close>

definition check_search_policy :: "string \<Rightarrow> unit py" where
  "check_search_policy name = (if name \<in> {''default'', ''sketch.xgb'', ''sketch.random''} then Inr () else Inl ValueError)"

definition sched_tune :: "sched_cfg \<Rightarrow> tune_option \<Rightarrow> string \<Rightarrow> nat option \<Rightarrow> log_entry list option \<Rightarrow> (nat \<Rightarrow> answer) \<Rightarrow> (nat \<Rightarrow> nat \<Rightarrow> answer) \<Rightarrow>
    (nat \<Rightarrow> nat) \<Rightarrow> nat \<Rightarrow> (sched_state, bool) st" where
  "sched_tune cfg opt search_policy per_task_early_stopping load_log_file first policy rnd fuel =
     bindS (modifyS (\<lambda>s. s\<lparr>ss_early_all := (if to_early_stopping opt < 0 then 10 ^ 20 else to_early_stopping opt),
       ss_early_task := (case per_task_early_stopping of None \<Rightarrow> 10 ^ 20 | Some n \<Rightarrow> int n), ss_ct := 0, ss_best_ct := 0,
       ss_per_round := min (to_num_measures_per_round opt) (to_num_measure_trials opt div int (n_tasks cfg))\<rparr>)) (\<lambda>_.
     bindS (getS ss_per_round) (\<lambda>per_round.
     bindS (liftS (if per_round \<le> 0 then Inl ValueError else Inr ())) (\<lambda>_.
     bindS (case load_log_file of None \<Rightarrow> returnS () | Some l \<Rightarrow> restore_status cfg l per_round) (\<lambda>_.
     bindS (liftS (check_search_policy search_policy)) (\<lambda>_.
     bindS (warm_up cfg first [0..<n_tasks cfg]) (\<lambda>_.
     bindS (modifyS (\<lambda>s. s\<lparr>ss_best_ct := ss_ct s, ss_best_score := ss_cur_score s\<rparr>)) (\<lambda>_.
       sched_loop cfg (to_num_measure_trials opt) policy rnd fuel 0 (- 1))))))))"

section \<open>Invariant\<close>

definition groups_ok :: "sched_cfg \<Rightarrow> sched_state \<Rightarrow> bool" where
  "groups_ok cfg s \<longleftrightarrow> (\<forall>i < n_tasks cfg. \<forall>g. group_of s i = Some g \<longrightarrow>
     g < length (ss_group_task_ids s) \<and> i \<in> set (ss_group_task_ids s ! g) \<and> distinct (ss_group_task_ids s ! g))"

definition sched_inv :: "sched_cfg \<Rightarrow> sched_state \<Rightarrow> bool" where
  "sched_inv cfg s \<longleftrightarrow>
     length (ss_task_cts s) = n_tasks cfg \<and> length (ss_task_best_cts s) = n_tasks cfg \<and> length (ss_costs_history s) = n_tasks cfg \<and>
     length (ss_best_costs s) = n_tasks cfg \<and> length (ss_task_tags s) = n_tasks cfg \<and>
     (\<forall>i < n_tasks cfg. 0 < ss_best_costs s ! i \<and> sorted_wrt (\<ge>) (ss_costs_history s ! i @ [ss_best_costs s ! i])) \<and>
     set (ss_dead_tasks s) \<subseteq> {..<n_tasks cfg} \<and> distinct (ss_dead_tasks s) \<and> groups_ok cfg s"

definition answer_ok :: "int \<Rightarrow> answer \<Rightarrow> bool" where
  "answer_ok per_round ans \<longleftrightarrow> int (fst ans) \<le> per_round \<and> (\<forall>costs \<in> set (snd ans). costs \<noteq> [] \<and> 0 < sum_list costs)"

definition mean_of :: "rat list \<Rightarrow> rat" where
  "mean_of costs = sum_list costs / of_nat (length costs)"

lemma array_mean_ok: "costs \<noteq> [] \<Longrightarrow> array_mean costs = Inr (mean_of costs)"
  by (simp add: array_mean_def py_div_def mean_of_def)

lemma mean_pos: "costs \<noteq> [] \<Longrightarrow> 0 < sum_list costs \<Longrightarrow> 0 < mean_of costs"
  by (simp add: mean_of_def)

text \<open>The best cost becomes the least of the old one and the means of the results.\<close>

lemma take_results_best:
  assumes "\<forall>costs \<in> set rs. costs \<noteq> [] \<and> 0 < sum_list costs" "idx < length (ss_best_costs s)" "0 < ss_best_costs s ! idx"
  shows "\<exists>b c. take_results idx rs s = (s\<lparr>ss_task_best_cts := b, ss_best_costs := (ss_best_costs s)[idx := c]\<rparr>, Inr ()) \<and>
     length b = length (ss_task_best_cts s) \<and> 0 < c \<and> c \<le> ss_best_costs s ! idx \<and> (\<forall>costs \<in> set rs. c \<le> mean_of costs) \<and>
     (c = ss_best_costs s ! idx \<or> c \<in> mean_of ` set rs)"
  using assms
proof (induction rs arbitrary: s)
  case Nil
  then show ?case by (intro exI[of _ "ss_task_best_cts s"] exI[of _ "ss_best_costs s ! idx"]) simp
next
  case (Cons costs rs)
  define s1 where "s1 = (if mean_of costs < ss_best_costs s ! idx then s\<lparr>ss_task_best_cts := (ss_task_best_cts s)[idx := ss_task_cts s ! idx],
    ss_best_costs := (ss_best_costs s)[idx := mean_of costs]\<rparr> else s)"
  have s1: "length (ss_best_costs s1) = length (ss_best_costs s)" "0 < ss_best_costs s1 ! idx" "ss_best_costs s1 ! idx \<le> ss_best_costs s ! idx"
    "ss_best_costs s1 ! idx \<le> mean_of costs" "ss_best_costs s1 ! idx = ss_best_costs s ! idx \<or> ss_best_costs s1 ! idx = mean_of costs"
    using Cons.prems mean_pos[of costs] by (auto simp: s1_def)
  obtain b c where bc: "take_results idx rs s1 = (s1\<lparr>ss_task_best_cts := b, ss_best_costs := (ss_best_costs s1)[idx := c]\<rparr>, Inr ())"
    "length b = length (ss_task_best_cts s1)" "0 < c" "c \<le> ss_best_costs s1 ! idx" "\<forall>costs \<in> set rs. c \<le> mean_of costs"
    "c = ss_best_costs s1 ! idx \<or> c \<in> mean_of ` set rs"
    using Cons.IH[of s1] Cons.prems s1 by auto
  have "take_results idx (costs # rs) s = take_results idx rs s1"
    using Cons.prems by (simp add: array_mean_ok s1_def)
  moreover have "s1\<lparr>ss_task_best_cts := b, ss_best_costs := (ss_best_costs s1)[idx := c]\<rparr> =
      s\<lparr>ss_task_best_cts := b, ss_best_costs := (ss_best_costs s)[idx := c]\<rparr>" by (simp add: s1_def)
  moreover have "length b = length (ss_task_best_cts s)" using bc(2) by (simp add: s1_def)
  ultimately show ?case using bc s1(3-5) by (intro exI[of _ b] exI[of _ c]) auto
qed

lemma groups_ok_frame:
  assumes "ss_task_tags s' = ss_task_tags s" "ss_tag_to_group_id s' = ss_tag_to_group_id s" "ss_group_task_ids s' = ss_group_task_ids s"
  shows "groups_ok cfg s' = groups_ok cfg s"
proof -
  have "group_of s' = group_of s" by (rule ext) (simp add: group_of_def assms split: option.split)
  then show ?thesis by (simp add: groups_ok_def assms)
qed

lemma sorted_history: "sorted_wrt (\<ge>) (h @ [b]) \<Longrightarrow> (c :: rat) \<le> b \<Longrightarrow> sorted_wrt (\<ge>) ((h @ [c]) @ [c])"
  by (auto simp: sorted_wrt_append intro: order_trans)

lemma tune_task_effect:
  assumes inv: "sched_inv cfg s" and idx: "idx < n_tasks cfg" and ans: "answer_ok per_round ans"
  shows "\<exists>s'. tune_task cfg idx ans s = (s', Inr ()) \<and> sched_inv cfg s' \<and> ss_ct s' = ss_ct s + int (fst ans) \<and>
     ss_task_cts s' = (ss_task_cts s)[idx := Suc (ss_task_cts s ! idx)] \<and>
     set (ss_dead_tasks s) \<subseteq> set (ss_dead_tasks s') \<and> (fst ans = 0 \<longrightarrow> idx \<in> set (ss_dead_tasks s')) \<and>
     ss_best_costs s' ! idx \<le> ss_best_costs s ! idx \<and> (\<forall>costs \<in> set (snd ans). ss_best_costs s' ! idx \<le> mean_of costs) \<and>
     ss_cur_score s' = sc_objective cfg (ss_best_costs s') \<and> ss_per_round s' = ss_per_round s"
proof -
  define s1 where "s1 = s\<lparr>ss_task_cts := (ss_task_cts s)[idx := Suc (ss_task_cts s ! idx)]\<rparr>"
  have len: "length (ss_best_costs s) = n_tasks cfg" "0 < ss_best_costs s ! idx" using inv idx by (simp_all add: sched_inv_def)
  obtain b c where bc: "take_results idx (snd ans) s1 = (s1\<lparr>ss_task_best_cts := b, ss_best_costs := (ss_best_costs s)[idx := c]\<rparr>, Inr ())"
    "length b = length (ss_task_best_cts s)" "0 < c" "c \<le> ss_best_costs s ! idx" "\<forall>costs \<in> set (snd ans). c \<le> mean_of costs"
    using take_results_best[of "snd ans" idx s1] ans idx len by (auto simp: answer_ok_def s1_def)
  define dd where "dd = (if fst ans = 0 \<or> (int (ss_task_cts s1 ! idx) - int (b ! idx)) * ss_per_round s > ss_early_task s
    then List.insert idx (ss_dead_tasks s) else ss_dead_tasks s)"
  define s' where "s' = s1\<lparr>ss_task_best_cts := b, ss_best_costs := (ss_best_costs s)[idx := c], ss_dead_tasks := dd,
    ss_costs_history := (ss_costs_history s)[idx := ss_costs_history s ! idx @ [c]], ss_ct := ss_ct s + int (fst ans),
    ss_cur_score := sc_objective cfg ((ss_best_costs s)[idx := c])\<rparr>"
  have "tune_task cfg idx ans s = (s', Inr ())"
    using idx bc(1) len by (simp add: tune_task_def s1_def s'_def dd_def)
  moreover have "sched_inv cfg s'"
  proof -
    have "groups_ok cfg s' = groups_ok cfg s" by (rule groups_ok_frame) (simp_all add: s'_def s1_def)
    moreover have "0 < ss_best_costs s' ! i \<and> sorted_wrt (\<ge>) (ss_costs_history s' ! i @ [ss_best_costs s' ! i])" if i: "i < n_tasks cfg" for i
    proof (cases "i = idx")
      case True
      have "sorted_wrt (\<ge>) (ss_costs_history s ! idx @ [ss_best_costs s ! idx])" using inv idx by (simp add: sched_inv_def)
      from sorted_history[OF this bc(4)] show ?thesis using True idx inv bc(3) by (simp add: s'_def sched_inv_def)
    qed (use inv i in \<open>simp add: sched_inv_def s'_def s1_def\<close>)
    moreover have "set dd \<subseteq> {..<n_tasks cfg}" "distinct dd" using inv idx by (auto simp: dd_def sched_inv_def)
    ultimately show ?thesis using inv bc(2) by (simp add: sched_inv_def) (simp add: s'_def s1_def)
  qed
  ultimately show ?thesis using bc(4,5) idx len by (intro exI[of _ s']) (auto simp: s'_def s1_def dd_def)
qed

lemma adjust_effect:
  assumes inv: "sched_inv cfg s" and idx: "idx < n_tasks cfg"
  shows "\<exists>tags ids. adjust_similarity_group cfg idx s = (s\<lparr>ss_task_tags := tags, ss_group_task_ids := ids\<rparr>, Inr ()) \<and>
     sched_inv cfg (s\<lparr>ss_task_tags := tags, ss_group_task_ids := ids\<rparr>)"
proof -
  have same: "\<exists>tags ids. (s, Inr ()) = (s\<lparr>ss_task_tags := tags, ss_group_task_ids := ids\<rparr>, Inr ()) \<and>
     sched_inv cfg (s\<lparr>ss_task_tags := tags, ss_group_task_ids := ids\<rparr>)"
    by (intro exI[of _ "ss_task_tags s"] exI[of _ "ss_group_task_ids s"]) (simp add: inv)
  show ?thesis
  proof (cases "group_of s idx")
    case None
    with same show ?thesis by (simp add: adjust_similarity_group_def)
  next
    case (Some gid)
    let ?ids = "ss_group_task_ids s ! gid"
    have ids: "gid < length (ss_group_task_ids s)" "idx \<in> set ?ids" "distinct ?ids"
      using inv idx Some by (auto simp: sched_inv_def groups_ok_def)
    define s' where "s' = s\<lparr>ss_task_tags := (ss_task_tags s)[idx := None], ss_group_task_ids := (ss_group_task_ids s)[gid := remove1 idx ?ids]\<rparr>"
    have others: "filter (\<lambda>j. j \<noteq> idx) ?ids \<noteq> []" if "\<not> length ?ids \<le> 1"
    proof
      assume "filter (\<lambda>j. j \<noteq> idx) ?ids = []"
      then have "set ?ids \<subseteq> {idx}" by (auto simp: filter_empty_conv)
      then have "card (set ?ids) \<le> 1" using card_mono[of "{idx}"] by simp
      with ids(3) that show False by (simp add: distinct_card)
    qed
    have "adjust_similarity_group cfg idx s \<in> {(s, Inr ()), (s', Inr ())}"
      using Some ids(2) others by (auto simp: adjust_similarity_group_def Let_def s'_def split: list.split)
    moreover have "sched_inv cfg s'"
    proof -
      have "groups_ok cfg s'" unfolding groups_ok_def
      proof (intro allI impI)
        fix i g assume i: "i < n_tasks cfg" "group_of s' i = Some g"
        then have "i \<noteq> idx" using inv idx by (auto simp: group_of_def s'_def sched_inv_def)
        with i have g: "group_of s i = Some g" by (simp add: group_of_def s'_def split: option.splits)
        then have "g < length (ss_group_task_ids s) \<and> i \<in> set (ss_group_task_ids s ! g) \<and> distinct (ss_group_task_ids s ! g)"
          using inv i(1) by (simp add: sched_inv_def groups_ok_def)
        with \<open>i \<noteq> idx\<close> show "g < length (ss_group_task_ids s') \<and> i \<in> set (ss_group_task_ids s' ! g) \<and> distinct (ss_group_task_ids s' ! g)"
          by (cases "g = gid") (simp_all add: s'_def)
      qed
      with inv show ?thesis by (simp add: sched_inv_def) (simp add: s'_def)
    qed
    ultimately consider "adjust_similarity_group cfg idx s = (s, Inr ())" | "adjust_similarity_group cfg idx s = (s', Inr ())" "sched_inv cfg s'" by blast
    then show ?thesis
    proof cases
      case 1
      with same show ?thesis by simp
    next
      case 2
      then show ?thesis unfolding s'_def by blast
    qed
  qed
qed

section \<open>Gradients\<close>

lemma first_position: "x \<in> set xs \<Longrightarrow> length (takeWhile (\<lambda>g. g \<noteq> x) xs) < length xs \<and> xs ! length (takeWhile (\<lambda>g. g \<noteq> x) xs) = x"
  by (induction xs) auto

lemma gradient_dead: "i \<in> set (ss_dead_tasks s) \<Longrightarrow> task_gradient cfg s i = Inr 0"
  by (simp add: task_gradient_def)

text \<open>What the gradient strategy needs of the objective: less cost of any task is better.\<close>

locale objective =
  fixes obj :: "rat list \<Rightarrow> rat" and n :: nat
  assumes decreasing: "length costs = n \<Longrightarrow> i < n \<Longrightarrow> 0 < d \<Longrightarrow> obj (costs[i := costs ! i - d]) < obj costs"
begin

lemma gradient_negative:
  assumes cfg: "sc_objective cfg = obj" "n_tasks cfg = n" "0 \<le> sc_alpha cfg" "sc_alpha cfg < 1" "0 < sc_window cfg"
    and inv: "sched_inv cfg s" and i: "i < n" "i \<notin> set (ss_dead_tasks s)" "0 < ss_task_cts s ! i"
  shows "\<exists>g < 0. task_gradient cfg s i = Inr g"
proof -
  define best where "best = ss_best_costs s"
  define ct where "ct = int (ss_task_cts s ! i)"
  define hist where "hist = ss_costs_history s ! i"
  define chain where "chain = (obj best - obj (best[i := best ! i - 1 / 10 ^ 4])) / (1 / 10 ^ 4)"
  define g2 where "g2 = (case group_of s i of
      Some gid \<Rightarrow> if length (ss_group_task_ids s ! gid) > 1
        then sc_beta cfg * dt_flop_ct (sc_tasks cfg ! i) / group_flops cfg s (ss_group_task_ids s ! gid) else sc_beta cfg * 10 ^ 30
    | None \<Rightarrow> sc_beta cfg * 10 ^ 30)"
  define fwd where "fwd = min (best ! i - best ! i / of_int ct) g2 - best ! i"
  have b: "0 < best ! i" "length best = n" "sorted_wrt (\<ge>) hist" "0 < ct"
    using inv i cfg by (auto simp: sched_inv_def best_def hist_def ct_def sorted_wrt_append)
  have "obj (best[i := best ! i - 1 / 10 ^ 4]) < obj best" using b(2) i(1) by (rule decreasing) simp
  then have chain: "0 < chain" by (simp add: chain_def)
  have "fwd \<le> - (best ! i / of_int ct)" unfolding fwd_def by linarith
  moreover have "0 < best ! i / of_int ct" using b by simp
  ultimately have fwd: "fwd < 0" by linarith
  obtain bw where bw: "(if ct - 1 < int (length hist) \<and> ct - 1 - sc_window cfg \<ge> 0
       then bindE (py_nth hist (ct - 1)) (\<lambda>a. bindE (py_nth hist (ct - 1 - sc_window cfg)) (\<lambda>b. py_div (a - b) (of_int (sc_window cfg))))
       else Inr 0) = Inr bw" "bw \<le> 0"
  proof (cases "ct - 1 < int (length hist) \<and> ct - 1 - sc_window cfg \<ge> 0")
    case True
    let ?a = "hist ! nat (ct - 1)" and ?b = "hist ! nat (ct - 1 - sc_window cfg)"
    have "nat (ct - 1 - sc_window cfg) < nat (ct - 1)" "nat (ct - 1) < length hist" using True cfg(5) by linarith+
    then have "?a \<le> ?b" using b(3) by (simp add: sorted_wrt_iff_nth_less)
    then have "(?a - ?b) / of_int (sc_window cfg) \<le> 0" using cfg(5) by (simp add: divide_nonpos_pos)
    with True cfg(5) b(4) show ?thesis by (intro that) (simp_all add: py_div_def)
  next
    case False
    show ?thesis by (rule that[of 0]) (simp_all only: if_not_P[OF False] order_refl)
  qed
  define grad where "grad = chain * (sc_alpha cfg * bw + (1 - sc_alpha cfg) * fwd)"
  have "sc_alpha cfg * bw \<le> 0" "(1 - sc_alpha cfg) * fwd < 0"
    using cfg bw(2) fwd by (simp_all add: mult_nonneg_nonpos mult_pos_neg)
  then have "grad < 0" using chain unfolding grad_def by (intro mult_pos_neg) linarith+
  moreover have "task_gradient cfg s i = bindE (assertE (grad \<le> 0)) (\<lambda>_. Inr grad)"
    using i(2) unfolding task_gradient_def Let_def cfg(1)
    unfolding best_def[symmetric] ct_def[symmetric] hist_def[symmetric] bw(1) chain_def[symmetric] g2_def[symmetric] fwd_def[symmetric]
    by (simp add: grad_def)
  ultimately show ?thesis by (intro exI[of _ grad]) simp
qed

lemma choose_gradient_live:
  assumes cfg: "sc_objective cfg = obj" "n_tasks cfg = n" "0 \<le> sc_alpha cfg" "sc_alpha cfg < 1" "0 < sc_window cfg"
    and inv: "sched_inv cfg s" and cts: "\<forall>i < n. 0 < ss_task_cts s ! i" and rnd: "rnd < n" and live: "length (ss_dead_tasks s) < n"
  shows "\<exists>i < n. i \<notin> set (ss_dead_tasks s) \<and> choose_gradient cfg rnd s = Inr i"
proof -
  define dead where "dead = set (ss_dead_tasks s)"
  have "\<forall>i \<in> set [0..<n]. \<exists>g. task_gradient cfg s i = Inr g \<and> (if i \<in> dead then g = 0 else g < 0)"
  proof
    fix i assume "i \<in> set [0..<n]"
    then show "\<exists>g. task_gradient cfg s i = Inr g \<and> (if i \<in> dead then g = 0 else g < 0)"
      using gradient_negative[OF cfg inv, of i] cts gradient_dead[of i s cfg] by (cases "i \<in> dead") (auto simp: dead_def)
  qed
  from bchoice[OF this] obtain g where g: "\<forall>i < n. task_gradient cfg s i = Inr (g i) \<and> (if i \<in> dead then g i = 0 else g i < 0)"
    by (elim exE) (simp only: set_upt atLeastLessThan_iff zero_le simp_thms Ball_def)
  define gs where "gs = map g [0..<n]"
  have gs: "mapE (task_gradient cfg s) [0..<n] = Inr gs" unfolding gs_def by (rule mapE_total) (use g in simp)
  have "card dead < n" using live card_length[of "ss_dead_tasks s"] by (simp add: dead_def)
  then have "\<not> {..<n} \<subseteq> dead" using card_mono[of dead "{..<n}"] by (auto simp: dead_def)
  then obtain l where l: "l < n" "l \<notin> dead" by auto
  have setgs: "set gs = g ` {..<n}" by (auto simp: gs_def)
  show ?thesis
  proof (cases "Max (set gs) = Min (set gs)")
    case True
    have all: "g i = Min (set gs)" if "i < n" for i
    proof (rule antisym)
      show "g i \<le> Min (set gs)" unfolding True[symmetric] using that by (intro Max_ge) (auto simp: setgs)
    qed (use that in \<open>auto simp: setgs\<close>)
    have "g i = g l" if "i < n" for i using all[OF that] all[OF l(1)] by simp
    then have "rnd \<notin> dead" using g l rnd by (metis less_irrefl)
    with gs True rnd show ?thesis unfolding choose_gradient_def cfg(2) by (simp add: dead_def)
  next
    case False
    have "Min (set gs) \<in> set gs" using l(1) by (intro Min_in) (auto simp: setgs)
    then have "first_min gs < length gs" "gs ! first_min gs = Min (set gs)" unfolding first_min_def using first_position by metis+
    moreover have "Min (set gs) \<le> g l" using l(1) by (intro Min_le) (auto simp: setgs)
    moreover have "g l < 0" using g l by simp
    ultimately have "first_min gs < n" "first_min gs \<notin> dead" using g by (auto simp: gs_def)
    with gs False show ?thesis unfolding choose_gradient_def cfg(2) by (simp add: dead_def)
  qed
qed

end

text \<open>The sum of costs, and the weighted sum for positive weights.\<close>

lemma sum_list_decreased: "(i :: nat) < length xs \<Longrightarrow> sum_list (xs[i := xs ! i - d]) = sum_list xs - (d :: rat)"
proof (induction xs arbitrary: i)
  case (Cons x xs)
  then show ?case by (cases i) simp_all
qed simp

interpretation plain_sum: objective "task_objective None None" n for n
  by unfold_locales (simp add: task_objective_def sum_list_decreased)

definition positive_weights :: "nat \<Rightarrow> rat list option \<Rightarrow> bool" where
  "positive_weights n ws = (case ws of None \<Rightarrow> True | Some ws \<Rightarrow> length ws = n \<and> (\<forall>w \<in> set ws. 0 < w))"

lemma weighted_objective:
  assumes "0 < n" "positive_weights n ws"
  shows "objective (task_objective None ws) n"
proof (cases ws)
  case None
  show ?thesis unfolding None by (rule plain_sum.objective_axioms)
next
  case (Some l)
  then obtain w r where l: "l = w # r" using assms by (cases l) (auto simp: positive_weights_def)
  show ?thesis
  proof
    fix costs :: "rat list" and i d assume c: "length costs = n" "i < n" "(0 :: rat) < d"
    have len: "length l = n" and pos: "0 < l ! i" using assms Some c(2) by (auto simp: positive_weights_def)
    have "map (\<lambda>(c, v). c * v) (zip (costs[i := costs ! i - d]) l) =
        (map (\<lambda>(c, v). c * v) (zip costs l))[i := map (\<lambda>(c, v). c * v) (zip costs l) ! i - d * l ! i]"
      using c len by (intro nth_equalityI) (auto simp: nth_list_update algebra_simps)
    then have "sum_list (map (\<lambda>(c, v). c * v) (zip (costs[i := costs ! i - d]) l)) = sum_list (map (\<lambda>(c, v). c * v) (zip costs l)) - d * l ! i"
      using sum_list_decreased[of i "map (\<lambda>(c, v). c * v) (zip costs l)" "d * l ! i"] c len by simp
    moreover have "0 < d * l ! i" using c pos by simp
    ultimately show "task_objective None ws (costs[i := costs ! i - d]) < task_objective None ws costs"
      by (simp add: task_objective_def Some l)
  qed
qed

section \<open>Round robin\<close>

lemma skip_dead_finds:
  assumes "(idx + k) mod n \<notin> set dead" "k < fuel" "idx < n"
  shows "\<exists>i < n. skip_dead fuel n dead idx = Some i \<and> i \<notin> set dead"
  using assms
proof (induction k arbitrary: fuel idx)
  case 0
  then show ?case by (cases fuel) auto
next
  case (Suc k)
  then obtain fuel' where fuel: "fuel = Suc fuel'" "k < fuel'" by (cases fuel) auto
  have "((idx + 1) mod n + k) mod n = (idx + Suc k) mod n" by (simp add: mod_add_left_eq)
  moreover have "(idx + 1) mod n < n" using Suc.prems by simp
  ultimately show ?case using Suc.IH[of "(idx + 1) mod n" fuel'] Suc.prems fuel by (cases "idx \<in> set dead") auto
qed

lemma choose_round_robin_live:
  assumes "sched_inv cfg s" "length (ss_dead_tasks s) < n_tasks cfg"
  shows "\<exists>i < n_tasks cfg. choose_round_robin cfg idx s = Some i \<and> i \<notin> set (ss_dead_tasks s)"
proof -
  let ?n = "n_tasks cfg" and ?i = "nat ((idx + 1) mod int (n_tasks cfg))"
  have "\<not> {..<?n} \<subseteq> set (ss_dead_tasks s)"
    using card_mono[of "set (ss_dead_tasks s)" "{..<?n}"] card_length[of "ss_dead_tasks s"] assms(2) by fastforce
  then obtain l where l: "l < ?n" "l \<notin> set (ss_dead_tasks s)" by auto
  have ne: "sc_tasks cfg \<noteq> []" using assms(2) by auto
  have "0 < int ?n" using assms(2) by linarith
  then have "0 \<le> (idx + 1) mod int ?n" "(idx + 1) mod int ?n < int ?n" by (rule pos_mod_sign, rule pos_mod_bound)
  then have i: "?i < ?n" by linarith
  have "(?i + (l + ?n - ?i) mod ?n) mod ?n = l"
  proof -
    have "(?i + (l + ?n - ?i) mod ?n) mod ?n = (?i + (l + ?n - ?i)) mod ?n" by (rule mod_add_right_eq)
    with i l(1) show ?thesis by simp
  qed
  then show ?thesis
    unfolding choose_round_robin_def
    using skip_dead_finds[of ?i "(l + ?n - ?i) mod ?n" ?n "ss_dead_tasks s" ?n] l i ne by auto
qed

section \<open>The loop\<close>

definition sched_cfg_ok :: "sched_cfg \<Rightarrow> bool" where
  "sched_cfg_ok cfg \<longleftrightarrow> sc_strategy cfg = ''round-robin'' \<or> sc_strategy cfg = ''gradient'' \<and> 0 \<le> sc_alpha cfg \<and> sc_alpha cfg < 1 \<and> 0 < sc_window cfg \<and>
     (\<exists>ws. sc_objective cfg = task_objective None ws \<and> positive_weights (n_tasks cfg) ws)"

lemma choose_task_live:
  assumes cfg: "sched_cfg_ok cfg" and inv: "sched_inv cfg s" and cts: "\<forall>i < n_tasks cfg. 0 < ss_task_cts s ! i"
    and rnd: "rnd < n_tasks cfg" and live: "length (ss_dead_tasks s) < n_tasks cfg"
  shows "\<exists>i < n_tasks cfg. i \<notin> set (ss_dead_tasks s) \<and> choose_task cfg rnd idx s = Inr (Some i)"
proof (cases "sc_strategy cfg = ''round-robin''")
  case True
  then show ?thesis using choose_round_robin_live[OF inv live, of idx] by (auto simp: choose_task_def)
next
  case False
  then obtain ws where ws: "sc_strategy cfg = ''gradient''" "0 \<le> sc_alpha cfg" "sc_alpha cfg < 1" "0 < sc_window cfg"
    "sc_objective cfg = task_objective None ws" "positive_weights (n_tasks cfg) ws"
    using cfg unfolding sched_cfg_ok_def by blast
  have "objective (task_objective None ws) (n_tasks cfg)" using rnd ws(6) by (intro weighted_objective) auto
  from objective.choose_gradient_live[OF this ws(5) refl ws(2-4) inv cts rnd live] show ?thesis
    using ws(1) by (auto simp: choose_task_def)
qed

lemma check_improvement_effect:
  "\<exists>b c stop. check_improvement s = (s\<lparr>ss_best_score := b, ss_best_ct := c\<rparr>, Inr stop) \<and>
     (stop \<longrightarrow> ss_ct s - ss_best_ct s \<ge> ss_early_all s \<and> b = ss_best_score s \<and> c = ss_best_ct s)"
proof (cases "ss_cur_score s < ss_best_score s")
  case True
  then show ?thesis by (intro exI[of _ "ss_cur_score s"] exI[of _ "ss_ct s"] exI[of _ False]) (simp add: check_improvement_def)
next
  case False
  then show ?thesis by (intro exI[of _ "ss_best_score s"] exI[of _ "ss_best_ct s"]
      exI[of _ "ss_ct s - ss_best_ct s \<ge> ss_early_all s \<and> (\<forall>cost \<in> set (ss_best_costs s). cost < 10 ^ 9)"]) (simp add: check_improvement_def)
qed

definition warmed :: "sched_cfg \<Rightarrow> sched_state \<Rightarrow> bool" where
  "warmed cfg s \<longleftrightarrow> sched_inv cfg s \<and> (\<forall>i < n_tasks cfg. 0 < ss_task_cts s ! i)"

lemma warmed_scores: "warmed cfg (s\<lparr>ss_best_score := b, ss_best_ct := c\<rparr>) = warmed cfg s"
proof -
  have "groups_ok cfg (s\<lparr>ss_best_score := b, ss_best_ct := c\<rparr>) = groups_ok cfg s" by (rule groups_ok_frame) simp_all
  then show ?thesis by (simp add: warmed_def sched_inv_def)
qed

text \<open>One turn of the loop: it keeps the invariant, and measures something or leaves one task less.\<close>

lemma turn_effect:
  assumes w: "warmed cfg s" and i: "i < n_tasks cfg" "i \<notin> set (ss_dead_tasks s)" and ans: "answer_ok per_round ans"
  shows "\<exists>s1 s2 s3 stop. tune_task cfg i ans s = (s1, Inr ()) \<and> adjust_similarity_group cfg i s1 = (s2, Inr ()) \<and>
     check_improvement s2 = (s3, Inr stop) \<and> warmed cfg s3 \<and> ss_ct s3 = ss_ct s + int (fst ans) \<and>
     length (ss_dead_tasks s) \<le> length (ss_dead_tasks s3) \<and>
     (fst ans = 0 \<longrightarrow> length (ss_dead_tasks s) < length (ss_dead_tasks s3))"
proof -
  obtain s1 where s1: "tune_task cfg i ans s = (s1, Inr ())" "sched_inv cfg s1" "ss_ct s1 = ss_ct s + int (fst ans)"
    "ss_task_cts s1 = (ss_task_cts s)[i := Suc (ss_task_cts s ! i)]" "set (ss_dead_tasks s) \<subseteq> set (ss_dead_tasks s1)"
    "fst ans = 0 \<longrightarrow> i \<in> set (ss_dead_tasks s1)"
    using tune_task_effect[OF _ i(1) ans] w unfolding warmed_def by blast
  obtain tags ids where s2: "adjust_similarity_group cfg i s1 = (s1\<lparr>ss_task_tags := tags, ss_group_task_ids := ids\<rparr>, Inr ())"
    "sched_inv cfg (s1\<lparr>ss_task_tags := tags, ss_group_task_ids := ids\<rparr>)"
    using adjust_effect[OF s1(2) i(1)] by blast
  let ?s2 = "s1\<lparr>ss_task_tags := tags, ss_group_task_ids := ids\<rparr>"
  obtain b c stop where s3: "check_improvement ?s2 = (?s2\<lparr>ss_best_score := b, ss_best_ct := c\<rparr>, Inr stop)"
    using check_improvement_effect[of ?s2] by blast
  have "0 < ss_task_cts s1 ! j" if "j < n_tasks cfg" for j
    using w that unfolding s1(4) by (cases "j = i") (simp_all add: warmed_def sched_inv_def)
  then have "warmed cfg ?s2" using s2(2) by (simp add: warmed_def)
  then have w3: "warmed cfg (?s2\<lparr>ss_best_score := b, ss_best_ct := c\<rparr>)" by (simp only: warmed_scores)
  have cards: "card (set (ss_dead_tasks s)) = length (ss_dead_tasks s)" "card (set (ss_dead_tasks s1)) = length (ss_dead_tasks s1)"
    using w s1(2) by (simp_all add: warmed_def sched_inv_def distinct_card)
  have le: "length (ss_dead_tasks s) \<le> length (ss_dead_tasks s1)" using card_mono[OF _ s1(5)] cards by simp
  have less: "length (ss_dead_tasks s) < length (ss_dead_tasks s1)" if "fst ans = 0"
  proof -
    have "set (ss_dead_tasks s) \<subset> set (ss_dead_tasks s1)" using s1(5,6) i(2) that by blast
    from psubset_card_mono[OF _ this] show ?thesis using cards by simp
  qed
  show ?thesis
    by (rule exI[of _ s1], rule exI[of _ ?s2], rule exI[of _ "?s2\<lparr>ss_best_score := b, ss_best_ct := c\<rparr>"], rule exI[of _ stop])
      (use s1(1,3) s2(1) s3 w3 le less in simp)
qed

lemma sched_loop_ends:
  assumes cfg: "sched_cfg_ok cfg" and w: "warmed cfg s" and ans: "\<And>k i. answer_ok per_round (policy k i)" and rnd: "\<And>k. rnd k < n_tasks cfg"
    and fuel: "nat (trials - ss_ct s) + (n_tasks cfg - length (ss_dead_tasks s)) < fuel"
    and ct: "ss_ct s < trials + per_round"
  shows "\<exists>s'. sched_loop cfg trials policy rnd fuel k idx s = (s', Inr True) \<and> warmed cfg s' \<and> ss_ct s' < trials + per_round"
  using w fuel ct
proof (induction fuel arbitrary: s k idx)
  case (Suc fuel)
  show ?case
  proof (cases "ss_ct s < trials \<and> length (ss_dead_tasks s) < n_tasks cfg")
    case True
    have "sched_inv cfg s" "\<forall>i < n_tasks cfg. 0 < ss_task_cts s ! i" using Suc.prems(1) by (simp_all add: warmed_def)
    from choose_task_live[OF cfg this rnd[of k]] True obtain i where i: "i < n_tasks cfg" "i \<notin> set (ss_dead_tasks s)"
      "choose_task cfg (rnd k) idx s = Inr (Some i)" by blast
    obtain s1 s2 s3 stop where t: "tune_task cfg i (policy k i) s = (s1, Inr ())" "adjust_similarity_group cfg i s1 = (s2, Inr ())"
      "check_improvement s2 = (s3, Inr stop)" "warmed cfg s3" "ss_ct s3 = ss_ct s + int (fst (policy k i))"
      "length (ss_dead_tasks s) \<le> length (ss_dead_tasks s3)" "fst (policy k i) = 0 \<longrightarrow> length (ss_dead_tasks s) < length (ss_dead_tasks s3)"
      using turn_effect[OF Suc.prems(1) i(1,2) ans] by blast
    have ct3: "ss_ct s3 < trials + per_round" using ans[of k i] True t(5) by (simp add: answer_ok_def)
    have run: "sched_loop cfg trials policy rnd (Suc fuel) k idx s =
        (if stop then (s3, Inr True) else sched_loop cfg trials policy rnd fuel (Suc k) (int i) s3)"
      using True i(3) t(1-3) by simp
    have "nat (trials - ss_ct s3) + (n_tasks cfg - length (ss_dead_tasks s3)) < fuel"
    proof (cases "fst (policy k i) = 0")
      case z: True
      then have "length (ss_dead_tasks s) < length (ss_dead_tasks s3)" "ss_ct s3 = ss_ct s" using t(5,7) by simp_all
      then show ?thesis using Suc.prems(2) True by linarith
    next
      case z: False
      then have "ss_ct s < ss_ct s3" using t(5) by simp
      then show ?thesis using Suc.prems(2) True t(6) by linarith
    qed
    from Suc.IH[OF t(4) this ct3, of "Suc k" "int i"] run t(4) ct3 show ?thesis by (cases stop) auto
  next
    case False
    then have "sched_loop cfg trials policy rnd (Suc fuel) k idx s = (s, Inr True)" by simp
    with Suc.prems show ?thesis by blast
  qed
qed simp

section \<open>Start\<close>

definition grouping_ok :: "nat \<Rightarrow> string option list \<times> (string, nat) dict \<times> nat list list \<Rightarrow> bool" where
  "grouping_ok i g = (case g of (tags, groups, ids) \<Rightarrow>
     length tags = i \<and> length ids = length groups \<and> map_of groups [] = None \<and> (\<forall>t g. map_of groups t = Some g \<longrightarrow> g < length ids) \<and>
     (\<forall>j < i. \<exists>t. tags ! j = Some t \<and> (t = [] \<or> (\<exists>g. map_of groups t = Some g \<and> j \<in> set (ids ! g)))) \<and>
     (\<forall>g < length ids. distinct (ids ! g) \<and> (\<forall>x \<in> set (ids ! g). x < i)))"

lemma group_step_ok:
  assumes ok: "grouping_ok i (tags, groups, ids)" and r: "group_step (i, task) (tags, groups, ids) = Inr g'"
  shows "grouping_ok (Suc i) g'"
proof -
  obtain tag where tag: "derive_similarity_tag task = Inr tag" using r by (auto simp: group_step_def)
  note ok' = ok[unfolded grouping_ok_def split]
  consider "tag = []" "g' = (tags @ [Some tag], groups, ids)"
    | gid where "tag \<noteq> []" "map_of groups tag = Some gid" "g' = (tags @ [Some tag], groups, ids[gid := ids ! gid @ [i]])"
    | "tag \<noteq> []" "map_of groups tag = None" "g' = (tags @ [Some tag], groups @ [(tag, length groups)], ids @ [[i]])"
    using r tag ok' by (auto simp: group_step_def nth_append list_update_append split: if_splits option.splits)
  then show ?thesis
  proof cases
    case 1
    then show ?thesis using ok' by (auto simp: grouping_ok_def nth_append less_Suc_eq)
  next
    case 2
    then have "gid < length ids" using ok' by blast
    then show ?thesis using 2 ok' by (fastforce simp: grouping_ok_def nth_append less_Suc_eq nth_list_update)
  next
    case 3
    define m where "m = map_of (groups @ [(tag, length groups)])"
    have new: "m t = (case map_of groups t of Some g \<Rightarrow> Some g | None \<Rightarrow> if t = tag then Some (length ids) else None)" for t
      using ok' by (auto simp: m_def map_of_append map_add_def split: option.splits)
    have "\<exists>t. (tags @ [Some tag]) ! j = Some t \<and> (t = [] \<or> (\<exists>g. m t = Some g \<and> j \<in> set ((ids @ [[i]]) ! g)))"
      if "j < Suc i" for j
    proof (cases "j = i")
      case True
      then show ?thesis using ok' 3(2) by (intro exI[of _ tag]) (simp add: new nth_append)
    next
      case False
      with that obtain t where t: "tags ! j = Some t" "t = [] \<or> (\<exists>g. map_of groups t = Some g \<and> j \<in> set (ids ! g))" using ok' less_Suc_eq by blast
      with ok' have "t = [] \<or> (\<exists>g < length ids. map_of groups t = Some g \<and> j \<in> set (ids ! g))" by blast
      with t(1) that False ok' show ?thesis by (intro exI[of _ t]) (auto simp: new nth_append)
    qed
    moreover have "m t = Some g \<Longrightarrow> g < Suc (length ids)" for t g
    proof (cases "map_of groups t")
      case (Some g')
      then have "g' < length ids" using ok' by blast
      moreover assume "m t = Some g"
      ultimately show ?thesis using Some by (simp add: new)
    qed (simp add: new split: if_splits)
    moreover have "distinct ((ids @ [[i]]) ! g) \<and> (\<forall>x \<in> set ((ids @ [[i]]) ! g). x < Suc i)" if "g < Suc (length ids)" for g
    proof (cases "g < length ids")
      case True
      then have "distinct (ids ! g) \<and> (\<forall>x \<in> set (ids ! g). x < i)" using ok' by blast
      then show ?thesis using True by (simp add: nth_append less_SucI)
    qed (use that in \<open>simp add: nth_append\<close>)
    moreover have "m [] = None" using ok' 3(1) by (simp add: new)
    ultimately show ?thesis using ok' by (simp only: grouping_ok_def 3(3) split m_def) simp
  qed
qed

lemma grouping: "foldE group_step (enumerate i ts) g = Inr g' \<Longrightarrow> grouping_ok i g \<Longrightarrow> grouping_ok (i + length ts) g'"
proof (induction ts arbitrary: i g)
  case (Cons t ts)
  obtain tags groups ids where g: "g = (tags, groups, ids)" by (cases g)
  obtain g1 where g1: "group_step (i, t) g = Inr g1" "foldE group_step (enumerate (Suc i) ts) g1 = Inr g'"
    using Cons.prems(1) by auto
  from Cons.IH[OF g1(2) group_step_ok[OF Cons.prems(2)[unfolded g] g1(1)[unfolded g]]] show ?case by simp
qed simp

lemma scheduler_init_inv:
  assumes "scheduler_init cfg = Inr s"
  shows "sched_inv cfg s \<and> ss_dead_tasks s = [] \<and> (\<forall>i < n_tasks cfg. ss_task_cts s ! i = 0)"
proof -
  obtain tags groups ids where g: "foldE group_step (enumerate 0 (sc_tasks cfg)) ([], [], []) = Inr (tags, groups, ids)" and
    s: "ss_task_cts s = replicate (n_tasks cfg) 0" "ss_task_best_cts s = replicate (n_tasks cfg) 0" "ss_costs_history s = replicate (n_tasks cfg) []"
      "ss_best_costs s = replicate (n_tasks cfg) (10 ^ 10)" "ss_dead_tasks s = []" "ss_task_tags s = tags" "ss_tag_to_group_id s = groups"
      "ss_group_task_ids s = ids"
    using assms by (auto simp: scheduler_init_def Let_def)
  have "grouping_ok 0 ([], [], [])" by (simp add: grouping_ok_def)
  from grouping[OF g this] have "grouping_ok (0 + n_tasks cfg) (tags, groups, ids)" .
  then have g: "length tags = n_tasks cfg" "map_of groups [] = None" "\<forall>t g. map_of groups t = Some g \<longrightarrow> g < length ids"
    "\<forall>j < n_tasks cfg. \<exists>t. tags ! j = Some t \<and> (t = [] \<or> (\<exists>g. map_of groups t = Some g \<and> j \<in> set (ids ! g)))"
    "\<forall>g < length ids. distinct (ids ! g)"
    unfolding grouping_ok_def split add_0 by blast+
  have "groups_ok cfg s" unfolding groups_ok_def
  proof (intro allI impI)
    fix i g' assume "i < n_tasks cfg" "group_of s i = Some g'"
    then show "g' < length (ss_group_task_ids s) \<and> i \<in> set (ss_group_task_ids s ! g') \<and> distinct (ss_group_task_ids s ! g')"
      using g unfolding group_of_def s by (metis option.case(2) option.distinct(1) option.inject)
  qed
  with g(1) show ?thesis by (simp add: sched_inv_def s)
qed

section \<open>Warming up\<close>

lemma warm_up_effect:
  assumes "sched_inv cfg s" "\<forall>i \<in> set is. i < n_tasks cfg" "\<And>i. answer_ok per_round (first i)" "0 \<le> per_round"
  shows "\<exists>s'. warm_up cfg first is s = (s', Inr ()) \<and> sched_inv cfg s' \<and> (\<forall>i \<in> set is. 0 < ss_task_cts s' ! i) \<and>
     (\<forall>i. 0 < ss_task_cts s ! i \<longrightarrow> 0 < ss_task_cts s' ! i) \<and> ss_ct s \<le> ss_ct s' \<and> ss_ct s' \<le> ss_ct s + int (length is) * per_round"
  using assms(1,2)
proof (induction "is" arbitrary: s)
  case (Cons i "is")
  have i: "i < n_tasks cfg" using Cons.prems(2) by simp
  obtain s1 where s1: "(if ss_task_cts s ! i = 0 then tune_task cfg i (first i) else returnS ()) s = (s1, Inr ())" "sched_inv cfg s1"
    "0 < ss_task_cts s1 ! i" "\<forall>j. 0 < ss_task_cts s ! j \<longrightarrow> 0 < ss_task_cts s1 ! j" "ss_ct s \<le> ss_ct s1" "ss_ct s1 \<le> ss_ct s + per_round"
  proof (cases "ss_task_cts s ! i = 0")
    case True
    obtain s1 where t: "tune_task cfg i (first i) s = (s1, Inr ())" "sched_inv cfg s1" "ss_ct s1 = ss_ct s + int (fst (first i))"
      "ss_task_cts s1 = (ss_task_cts s)[i := Suc (ss_task_cts s ! i)]"
      using tune_task_effect[OF Cons.prems(1) i assms(3)] by blast
    have "length (ss_task_cts s) = n_tasks cfg" using Cons.prems(1) by (simp add: sched_inv_def)
    then have "0 < ss_task_cts s1 ! i" "\<forall>j. 0 < ss_task_cts s ! j \<longrightarrow> 0 < ss_task_cts s1 ! j"
      using i by (auto simp: t(4) nth_list_update)
    moreover have "int (fst (first i)) \<le> per_round" using assms(3)[of i] by (simp add: answer_ok_def)
    ultimately show ?thesis using True t(1-3) by (intro that[of s1]) simp_all
  next
    case False
    then show ?thesis using Cons.prems(1) assms(4) by (intro that[of s]) simp_all
  qed
  obtain s2 where s2: "warm_up cfg first is s1 = (s2, Inr ())" "sched_inv cfg s2" "\<forall>i \<in> set is. 0 < ss_task_cts s2 ! i"
    "\<forall>i. 0 < ss_task_cts s1 ! i \<longrightarrow> 0 < ss_task_cts s2 ! i" "ss_ct s1 \<le> ss_ct s2" "ss_ct s2 \<le> ss_ct s1 + int (length is) * per_round"
    using Cons.IH[OF s1(2)] Cons.prems(2) by auto
  have "warm_up cfg first (i # is) s = (s2, Inr ())" using s1(1) s2(1) by (simp split: if_splits)
  with s1 s2 show ?case by (intro exI[of _ s2]) (auto simp: algebra_simps)
qed simp

section \<open>Restoring\<close>

text \<open>Lower costs and other counters keep the invariant.\<close>

lemma inv_lower:
  assumes "sched_inv cfg s" "length b = n_tasks cfg" "idx < n_tasks cfg" "0 < c" "c \<le> ss_best_costs s ! idx"
  shows "sched_inv cfg (s\<lparr>ss_task_best_cts := b, ss_best_costs := (ss_best_costs s)[idx := c]\<rparr>)"
proof -
  let ?s = "s\<lparr>ss_task_best_cts := b, ss_best_costs := (ss_best_costs s)[idx := c]\<rparr>"
  have "groups_ok cfg ?s = groups_ok cfg s" by (rule groups_ok_frame) simp_all
  moreover have "0 < ss_best_costs ?s ! i \<and> sorted_wrt (\<ge>) (ss_costs_history ?s ! i @ [ss_best_costs ?s ! i])" if i: "i < n_tasks cfg" for i
    using assms(1,3-5) i by (cases "i = idx") (auto simp: sched_inv_def sorted_wrt_append intro: order_trans)
  ultimately show ?thesis using assms(1,2) by (simp add: sched_inv_def)
qed

lemma inv_cts: "sched_inv cfg s \<Longrightarrow> length c = n_tasks cfg \<Longrightarrow> sched_inv cfg (s\<lparr>ss_task_cts := c\<rparr>)"
  using groups_ok_frame[of "s\<lparr>ss_task_cts := c\<rparr>" s cfg] by (simp add: sched_inv_def)

definition log_ok :: "log_entry list \<Rightarrow> bool" where
  "log_ok l \<longleftrightarrow> (\<forall>e \<in> set l. le_error_no e = 0 \<longrightarrow> le_costs e \<noteq> [] \<and> 0 < sum_list (le_costs e))"

lemma restore_records_inv:
  assumes "log_ok l" "sched_inv cfg s"
  shows "\<exists>s'. restore_records cfg l s = (s', Inr ()) \<and> sched_inv cfg s' \<and> ss_ct s' = ss_ct s"
  using assms
proof (induction l arbitrary: s)
  case (Cons e l)
  define found where "found = (if le_target e = dt_target (hd (sc_tasks cfg))
      then map_of (rev (zip (map dt_workload_key (sc_tasks cfg)) [0..<n_tasks cfg])) (le_workload_key e) else None)"
  define count where "count = (case found of None \<Rightarrow> returnS ()
     | Some idx \<Rightarrow> bindS (modifyS (\<lambda>s. s\<lparr>ss_task_cts := (ss_task_cts s)[idx := Suc (ss_task_cts s ! idx)]\<rparr>)) (\<lambda>_.
         if le_error_no e = 0 then take_results idx [le_costs e] else returnS ()))"
  have "\<exists>s1. count s = (s1, Inr ()) \<and> sched_inv cfg s1 \<and> ss_ct s1 = ss_ct s"
  proof (cases found)
    case None
    then show ?thesis using Cons.prems by (simp add: count_def)
  next
    case (Some idx)
    then have "(le_workload_key e, idx) \<in> set (zip (map dt_workload_key (sc_tasks cfg)) [0..<n_tasks cfg])"
      by (auto simp: found_def dest!: map_of_SomeD split: if_splits)
    then have idx: "idx < n_tasks cfg" by (auto dest!: set_zip_rightD)
    let ?s = "s\<lparr>ss_task_cts := (ss_task_cts s)[idx := Suc (ss_task_cts s ! idx)]\<rparr>"
    have inv: "sched_inv cfg ?s" using Cons.prems(2) by (intro inv_cts) (simp_all add: sched_inv_def)
    then have s: "idx < length (ss_best_costs ?s)" "0 < ss_best_costs ?s ! idx" "length (ss_task_best_cts ?s) = n_tasks cfg"
      using idx by (simp_all add: sched_inv_def)
    show ?thesis
    proof (cases "le_error_no e = 0")
      case True
      obtain b c where bc: "take_results idx [le_costs e] ?s = (?s\<lparr>ss_task_best_cts := b, ss_best_costs := (ss_best_costs ?s)[idx := c]\<rparr>, Inr ())"
        "length b = length (ss_task_best_cts ?s)" "0 < c" "c \<le> ss_best_costs ?s ! idx"
        using take_results_best[of "[le_costs e]" idx ?s] True Cons.prems(1) s(1,2) by (auto simp: log_ok_def)
      have "sched_inv cfg (?s\<lparr>ss_task_best_cts := b, ss_best_costs := (ss_best_costs ?s)[idx := c]\<rparr>)"
        by (rule inv_lower[OF inv _ idx bc(3,4)]) (simp only: bc(2) s(3))
      moreover have "count s = (?s\<lparr>ss_task_best_cts := b, ss_best_costs := (ss_best_costs ?s)[idx := c]\<rparr>, Inr ())"
        using Some True bc(1) by (simp add: count_def del: take_results.simps)
      ultimately show ?thesis by auto
    next
      case False
      with Some inv show ?thesis by (simp add: count_def)
    qed
  qed
  then obtain s1 where s1: "count s = (s1, Inr ())" "sched_inv cfg s1" "ss_ct s1 = ss_ct s" by blast
  obtain s2 where "restore_records cfg l s1 = (s2, Inr ())" "sched_inv cfg s2" "ss_ct s2 = ss_ct s1"
    using Cons.IH[OF _ s1(2)] Cons.prems(1) by (auto simp: log_ok_def)
  with s1 show ?case by (simp add: count_def[symmetric] found_def[symmetric])
qed simp

lemma restore_task_inv:
  assumes "sched_inv cfg s" "idx < n_tasks cfg"
  shows "sched_inv cfg (restore_task per_round idx s) \<and> ss_ct (restore_task per_round idx s) = ss_ct s"
proof -
  let ?s = "restore_task per_round idx s"
  have fields: "ss_best_costs ?s = ss_best_costs s" "ss_task_tags ?s = ss_task_tags s" "ss_tag_to_group_id ?s = ss_tag_to_group_id s"
    "ss_group_task_ids ?s = ss_group_task_ids s" "length (ss_task_cts ?s) = length (ss_task_cts s)"
    "length (ss_task_best_cts ?s) = length (ss_task_best_cts s)" "ss_ct ?s = ss_ct s"
    "ss_costs_history ?s = (ss_costs_history s)[idx := ss_costs_history s ! idx @ [ss_best_costs s ! idx]]"
    "ss_dead_tasks ?s = ss_dead_tasks s \<or> ss_dead_tasks ?s = List.insert idx (ss_dead_tasks s)"
    by (auto simp: restore_task_def Let_def)
  have "groups_ok cfg ?s = groups_ok cfg s" by (rule groups_ok_frame) (simp_all only: fields)
  moreover have "sorted_wrt (\<ge>) (ss_costs_history ?s ! i @ [ss_best_costs s ! i])" if "i < n_tasks cfg" for i
    using assms that sorted_history[of "ss_costs_history s ! idx" "ss_best_costs s ! idx" "ss_best_costs s ! idx"]
    by (cases "i = idx") (simp_all add: fields(8) sched_inv_def)
  ultimately show ?thesis using assms fields(9) by (auto simp: sched_inv_def fields(1-8))
qed

lemma restore_status_inv:
  assumes "log_ok l" "sched_inv cfg s"
  shows "\<exists>s'. restore_status cfg l per_round s = (s', Inr ()) \<and> sched_inv cfg s' \<and> ss_ct s' = ss_ct s"
proof -
  obtain s1 where s1: "restore_records cfg l s = (s1, Inr ())" "sched_inv cfg s1" "ss_ct s1 = ss_ct s"
    using restore_records_inv[OF assms] by blast
  have "\<forall>i \<in> set is. i < n_tasks cfg \<Longrightarrow> sched_inv cfg s1 \<Longrightarrow>
      sched_inv cfg (fold (restore_task per_round) is s1) \<and> ss_ct (fold (restore_task per_round) is s1) = ss_ct s1" for "is" s1
    by (induction "is" arbitrary: s1) (simp_all add: restore_task_inv)
  from this[of "[0..<n_tasks cfg]", OF _ s1(2)] have s2: "sched_inv cfg (fold (restore_task per_round) [0..<n_tasks cfg] s1)"
    "ss_ct (fold (restore_task per_round) [0..<n_tasks cfg] s1) = ss_ct s1" by simp_all
  let ?s = "fold (restore_task per_round) [0..<n_tasks cfg] s1"
  have "sched_inv cfg (?s\<lparr>ss_cur_score := x\<rparr>)" for x
    using s2(1) groups_ok_frame[of "?s\<lparr>ss_cur_score := x\<rparr>" ?s cfg] by (simp add: sched_inv_def)
  with s1 s2(2) show ?thesis by (simp add: restore_status_def)
qed

section \<open>Properties\<close>

text \<open>C37: Once every task has been tuned, the choice of the next task never fails (in particular the assertion that every gradient is at most zero holds, and the loop over dead tasks ends) and never picks a dead task while one is alive: for round robin always, and for the gradient strategy with the sum or a positively weighted sum of costs as objective, whatever the random choice among equal gradients is.\<close>

theorem scheduler_picks_live_task:
  assumes "sched_cfg_ok cfg" "warmed cfg s" "rnd < n_tasks cfg" "length (ss_dead_tasks s) < n_tasks cfg"
  shows "\<exists>i < n_tasks cfg. i \<notin> set (ss_dead_tasks s) \<and> choose_task cfg rnd idx s = Inr (Some i)"
  using assms choose_task_live unfolding warmed_def by blast

definition demo_sched :: sched_cfg where
  "demo_sched = \<lparr>sc_tasks = replicate 2 \<lparr>dt_workload_key = ''k'', dt_target = ''llvm'', dt_op_tags = [], dt_flop_ct = 8\<rparr>,
     sc_objective = task_objective None (Some [1, 2]), sc_strategy = ''gradient'', sc_alpha = 1 / 5, sc_beta = 2, sc_window = 3\<rparr>"

lemma demo_sched_ok: "sched_cfg_ok demo_sched"
  unfolding sched_cfg_ok_def by (intro disjI2 conjI exI[of _ "Some [1, 2]"]) (simp_all add: demo_sched_def positive_weights_def)

definition demo_state :: sched_state where
  "demo_state = \<lparr>ss_task_cts = [1, 1], ss_task_best_cts = [1, 1], ss_costs_history = [[4], [5]], ss_best_costs = [4, 5], ss_cur_score = 14, ss_ct = 4,
     ss_best_ct = 4, ss_best_score = 14, ss_per_round = 2, ss_early_all = 10 ^ 20, ss_early_task = 10 ^ 20, ss_dead_tasks = [1],
     ss_task_tags = [Some [], Some []], ss_tag_to_group_id = [], ss_group_task_ids = []\<rparr>"

theorem scheduler_picks_live_task_witness:
  "choose_task demo_sched 1 0 demo_state = Inr (Some 0)"
proof -
  have "warmed demo_sched demo_state"
    by (auto simp: warmed_def sched_inv_def groups_ok_def group_of_def demo_sched_def demo_state_def less_2_cases_iff split: option.splits)
  from scheduler_picks_live_task[OF demo_sched_ok this, of 1 0] obtain i where
    "i < 2" "i \<noteq> 1" "choose_task demo_sched 1 0 demo_state = Inr (Some i)"
    by (auto simp: demo_sched_def demo_state_def)
  then show ?thesis by (simp add: less_2_cases_iff)
qed

text \<open>C36: Tuning stays within its budget and comes to an end. From a new scheduler, and also after restoring a log, with as much fuel as there are measurements and tasks, tuning returns normally; then every task has been tuned, and the number of measurements exceeds the budget by less than one round. The search policies are only assumed to measure at most as many programs as a round has, and to report positive costs.\<close>

theorem tune_within_budget:
  assumes new: "scheduler_init cfg = Inr s0" and cfg: "sched_cfg_ok cfg" and "check_search_policy name = Inr ()"
    and per_round: "per_round = min (to_num_measures_per_round opt) (to_num_measure_trials opt div int (n_tasks cfg))" "0 < per_round"
    and ans: "\<And>i. answer_ok per_round (first i)" "\<And>k i. answer_ok per_round (policy k i)" and rnd: "\<And>k. rnd k < n_tasks cfg"
    and "\<And>l. log_file = Some l \<Longrightarrow> log_ok l" and fuel: "nat (to_num_measure_trials opt) + n_tasks cfg < fuel"
  shows "\<exists>s. sched_tune cfg opt name early log_file first policy rnd fuel s0 = (s, Inr True) \<and>
     ss_ct s < to_num_measure_trials opt + per_round \<and> (\<forall>i < n_tasks cfg. 0 < ss_task_cts s ! i \<and> 0 < ss_best_costs s ! i)"
proof -
  let ?trials = "to_num_measure_trials opt" and ?n = "n_tasks cfg"
  define ea where "ea = (if to_early_stopping opt < 0 then 10 ^ 20 else to_early_stopping opt)"
  define et where "et = (case early of None \<Rightarrow> 10 ^ 20 | Some n \<Rightarrow> int n)"
  define s1 where "s1 = s0\<lparr>ss_early_all := ea, ss_early_task := et, ss_ct := 0, ss_best_ct := 0, ss_per_round := per_round\<rparr>"
  have "groups_ok cfg s1 = groups_ok cfg s0" by (rule groups_ok_frame) (simp_all add: s1_def)
  then have inv1: "sched_inv cfg s1" using scheduler_init_inv[OF new] by (simp add: sched_inv_def s1_def)
  obtain s2 where s2: "(case log_file of None \<Rightarrow> returnS () | Some l \<Rightarrow> restore_status cfg l per_round) s1 = (s2, Inr ())" "sched_inv cfg s2" "ss_ct s2 = 0"
    using restore_status_inv[OF _ inv1] assms(9) inv1 by (cases log_file) (fastforce simp: s1_def)+
  obtain s3 where s3: "warm_up cfg first [0..<?n] s2 = (s3, Inr ())" "sched_inv cfg s3" "\<forall>i < ?n. 0 < ss_task_cts s3 ! i"
    "0 \<le> ss_ct s3" "ss_ct s3 \<le> int ?n * per_round"
    using warm_up_effect[OF s2(2), of "[0..<?n]" per_round first] ans(1) per_round(2) s2(3) by auto
  define s4 where "s4 = s3\<lparr>ss_best_ct := ss_ct s3, ss_best_score := ss_cur_score s3\<rparr>"
  have w: "warmed cfg s4"
    using s3(2,3) groups_ok_frame[of s4 s3 cfg] by (simp add: warmed_def sched_inv_def s4_def)
  have "int ?n * per_round \<le> int ?n * (?trials div int ?n)" unfolding per_round(1) by (intro mult_left_mono) simp_all
  also have "\<dots> \<le> ?trials"
  proof -
    have "0 < int ?n" using rnd[of 0] by linarith
    then have "0 \<le> ?trials mod int ?n" by (rule pos_mod_sign)
    then show ?thesis by (simp add: minus_mod_eq_mult_div[symmetric])
  qed
  finally have ct: "ss_ct s4 < ?trials + per_round" using s3(5) per_round(2) by (simp add: s4_def)
  have "nat (?trials - ss_ct s4) + (?n - length (ss_dead_tasks s4)) < fuel" using fuel s3(4) by (simp add: s4_def)
  from sched_loop_ends[where policy = policy and rnd = rnd and k = 0 and idx = "- 1", OF cfg w ans(2) rnd this ct] obtain s where
    s: "sched_loop cfg ?trials policy rnd fuel 0 (- 1) s4 = (s, Inr True)" "warmed cfg s" "ss_ct s < ?trials + per_round" by blast
  have "sched_tune cfg opt name early log_file first policy rnd fuel s0 = sched_loop cfg ?trials policy rnd fuel 0 (- 1) s4"
    using per_round(2) assms(3) s2(1) s3(1) unfolding sched_tune_def per_round(1)[symmetric] ea_def[symmetric] et_def[symmetric]
    by (simp add: s1_def s4_def)
  with s show ?thesis by (auto simp: warmed_def sched_inv_def)
qed

theorem tune_within_budget_witness:
  "\<exists>s0 s. scheduler_init demo_sched = Inr s0 \<and>
     sched_tune demo_sched \<lparr>to_num_measure_trials = 9, to_early_stopping = - 1, to_num_measures_per_round = 64\<rparr> ''sketch.random'' None None
       (\<lambda>i. (4, [[3]])) (\<lambda>k i. (4, [[2, 3], [1]])) (\<lambda>k. 0) 12 s0 = (s, Inr True) \<and> ss_ct s < 13 \<and> 0 < ss_task_cts s ! 1"
proof -
  obtain s0 where s0: "scheduler_init demo_sched = Inr s0"
    by (simp add: scheduler_init_def demo_sched_def Let_def group_step_def derive_similarity_tag_def numeral_2_eq_2)
  have n: "n_tasks demo_sched = 2" by (simp add: demo_sched_def)
  let ?opt = "\<lparr>to_num_measure_trials = 9, to_early_stopping = - 1, to_num_measures_per_round = 64\<rparr>"
  have "\<exists>s. sched_tune demo_sched ?opt ''sketch.random'' None None (\<lambda>i. (4, [[3]])) (\<lambda>k i. (4, [[2, 3], [1]])) (\<lambda>k. 0) 12 s0 = (s, Inr True) \<and>
      ss_ct s < to_num_measure_trials ?opt + 4 \<and> (\<forall>i < n_tasks demo_sched. 0 < ss_task_cts s ! i \<and> 0 < ss_best_costs s ! i)"
    by (rule tune_within_budget[OF s0 demo_sched_ok]) (simp_all add: check_search_policy_def answer_ok_def n)
  with s0 show ?thesis by (auto simp: n)
qed

text \<open>A budget smaller than the number of tasks is refused.\<close>

lemma tune_too_few_trials:
  assumes "to_num_measure_trials opt < int (n_tasks cfg)"
  shows "snd (sched_tune cfg opt name early log_file first policy rnd fuel s) = Inl ValueError"
proof -
  have "to_num_measure_trials opt div int (n_tasks cfg) \<le> 0"
  proof (cases "sc_tasks cfg = []")
    case False
    then have "0 < int (n_tasks cfg)" by simp
    then have "\<not> 0 < to_num_measure_trials opt div int (n_tasks cfg)" using assms by (simp add: pos_imp_zdiv_pos_iff)
    then show ?thesis by simp
  qed simp
  then have "min (to_num_measures_per_round opt) (to_num_measure_trials opt div int (n_tasks cfg)) \<le> 0" by (simp add: min_le_iff_disj)
  then show ?thesis by (simp add: sched_tune_def)
qed

text \<open>With weights of zero all gradients are zero, and the random choice is among all tasks, dead ones included.\<close>

lemma zero_weights_pick_dead:
  "choose_gradient (demo_sched\<lparr>sc_objective := task_objective None (Some [0, 0])\<rparr>) 1 demo_state = Inr 1" "1 \<in> set (ss_dead_tasks demo_state)"
  by (simp_all add: choose_gradient_def task_gradient_def demo_sched_def demo_state_def task_objective_def group_of_def Let_def numeral_2_eq_2)

end
