(* ===== verification/Metrics.thy ===== *)
theory Metrics
  imports Prelude
begin

text \<open>
  The curves that judge a cost model (\<^verbatim>\<open>autotvm/tuner/metric.py\<close>) and the ranks they are computed from
  (\<^verbatim>\<open>get_rank\<close> of \<^verbatim>\<open>autotvm/utils.py\<close>). \<^verbatim>\<open>np.argsort\<close> is a parameter, with the property that its result is a
  permutation of the positions in increasing order of the values. The order among equal values is open.
\<close>

section \<open>Curves\<close>

definition max_curve :: "rat list \<Rightarrow> rat list" where
  "max_curve trial_scores =
     snd (fold (\<lambda>score (keep, ret). let keep = (if score > keep then score else keep) in (keep, ret @ [keep])) trial_scores (- (10 ^ 9), []))"

definition mean_curve :: "rat list \<Rightarrow> rat list" where
  "mean_curve trial_scores =
     snd (fold (\<lambda>score (keep, ret). let keep = keep + score in (keep, ret @ [keep / of_nat (length ret + 1)])) trial_scores (0, []))"

definition recall_curve :: "nat list \<Rightarrow> nat option \<Rightarrow> rat list" where
  "recall_curve trial_ranks top_n = (case top_n of
     None \<Rightarrow> map (\<lambda>i. of_nat (length (filter (\<lambda>r. r \<le> i) (take i trial_ranks))) / of_nat (i + 1)) [0..<length trial_ranks]
   | Some t \<Rightarrow> map (\<lambda>i. of_nat (length (filter (\<lambda>r. r < t) (take i trial_ranks))) / of_nat t) [0..<length trial_ranks])"

text \<open>The loop \<^verbatim>\<open>while keep + 1 in cover\<close>; the argument \<open>k\<close> is \<^verbatim>\<open>keep + 1\<close>.\<close>

function extend_cover :: "nat list \<Rightarrow> nat \<Rightarrow> nat" where
  "extend_cover cover k = (if k \<in> set cover then extend_cover cover (Suc k) else k)"
  by pat_completeness auto
termination
proof (relation "measure (\<lambda>(cover, k). card {x \<in> set cover. k \<le> x})")
  fix cover :: "nat list" and k assume k: "k \<in> set cover"
  have "{x \<in> set cover. Suc k \<le> x} \<subseteq> {x \<in> set cover. k \<le> x}" "k \<in> {x \<in> set cover. k \<le> x}" "k \<notin> {x \<in> set cover. Suc k \<le> x}"
    using k by (auto dest: Suc_leD)
  then have "{x \<in> set cover. Suc k \<le> x} \<subset> {x \<in> set cover. k \<le> x}" by blast
  then show "((cover, Suc k), (cover, k)) \<in> measure (\<lambda>(cover, k). card {x \<in> set cover. k \<le> x})"
    by (simp add: psubset_card_mono)
qed simp

declare extend_cover.simps [simp del]

definition cover_curve :: "nat list \<Rightarrow> rat list" where
  "cover_curve trial_ranks =
     map (\<lambda>x. x / of_nat (length trial_ranks))
       (snd (snd (fold (\<lambda>rank (cover, k, ret). let cover = List.insert rank cover; k = extend_cover cover k in (cover, k, ret @ [of_nat k]))
          trial_ranks ([], 0, []))))"

section \<open>Ranks\<close>

definition get_rank :: "(rat list \<Rightarrow> nat list) \<Rightarrow> rat list \<Rightarrow> nat list" where
  "get_rank argsort values =
     (let tmp = argsort (map uminus values) in
      fold (\<lambda>k ranks. ranks[tmp ! k := k]) [0..<length tmp] (replicate (length tmp) 0))"

definition average_recall :: "(rat list \<Rightarrow> nat list) \<Rightarrow> rat list \<Rightarrow> rat list \<Rightarrow> nat \<Rightarrow> rat" where
  "average_recall argsort preds labels N =
     (let trials = rev (argsort preds); ranks = get_rank argsort (map (\<lambda>i. labels ! i) trials) in
      sum_list (take N (recall_curve ranks None)) / of_nat N)"

definition sorts_positions :: "(rat list \<Rightarrow> nat list) \<Rightarrow> bool" where
  "sorts_positions argsort \<longleftrightarrow> (\<forall>xs. mset (argsort xs) = mset [0..<length xs] \<and> sorted (map (\<lambda>i. xs ! i) (argsort xs)))"

section \<open>Values of the curves\<close>

lemma max_curve_nth:
  "length (max_curve xs) = length xs \<and> (\<forall>i < length xs. max_curve xs ! i = Max (insert (- (10 ^ 9)) (set (take (Suc i) xs))))"
proof -
  define step where "step = (\<lambda>score (keep, ret). let keep = (if score > keep then score else keep) in (keep, ret @ [keep :: rat]))"
  define M where "M = (\<lambda>xs :: rat list. Max (insert (- (10 ^ 9)) (set xs)))"
  have M: "M (xs @ [x]) = (if x > M xs then x else M xs)" for x xs
  proof -
    have "M (xs @ [x]) = max x (M xs)" unfolding M_def by (subst Max_insert[symmetric]) (simp_all add: insert_commute)
    then show ?thesis by (simp add: max_def not_less)
  qed
  have "fst (fold step xs (- (10 ^ 9), [])) = M xs \<and> snd (fold step xs (- (10 ^ 9), [])) = map (\<lambda>i. M (take (Suc i) xs)) [0..<length xs]"
  proof (induction xs rule: rev_induct)
    case Nil
    show ?case by (simp add: M_def)
  next
    case (snoc x xs)
    have "fold step (xs @ [x]) (- (10 ^ 9), []) = step x (fold step xs (- (10 ^ 9), []))" by simp
    with snoc M[of xs x] show ?case by (cases "fold step xs (- (10 ^ 9), [])") (simp add: step_def Let_def)
  qed
  then show ?thesis by (simp add: max_curve_def step_def M_def)
qed

lemma mean_curve_nth:
  "length (mean_curve xs) = length xs \<and> (\<forall>i < length xs. mean_curve xs ! i = sum_list (take (Suc i) xs) / of_nat (Suc i))"
proof -
  define step where "step = (\<lambda>score (keep, ret). let keep = keep + score in (keep, ret @ [keep / of_nat (length ret + 1) :: rat]))"
  have "fst (fold step xs (0, [])) = sum_list xs \<and>
      snd (fold step xs (0, [])) = map (\<lambda>i. sum_list (take (Suc i) xs) / of_nat (Suc i)) [0..<length xs]"
  proof (induction xs rule: rev_induct)
    case (snoc x xs)
    have "fold step (xs @ [x]) (0, []) = step x (fold step xs (0, []))" by simp
    with snoc show ?case by (cases "fold step xs (0, [])") (simp add: step_def Let_def)
  qed simp
  then show ?thesis by (simp add: mean_curve_def step_def)
qed

text \<open>Point \<open>i\<close> of the curve uses the first \<open>i\<close> ranks, not the first \<open>i + 1\<close>: a perfect ranking never reaches a recall of one.\<close>

lemma recall_perfect_below_one:
  assumes "i < n"
  shows "recall_curve [0..<n] None ! i = of_nat i / of_nat (i + 1) \<and> recall_curve [0..<n] None ! i < 1"
proof -
  have "filter (\<lambda>r. r \<le> i) (take i [0..<n]) = [0..<i]" using assms by (simp add: take_upt)
  then show ?thesis using assms by (simp add: recall_curve_def)
qed

lemma extend_cover_spec:
  "k \<le> extend_cover cover k \<and> {k..<extend_cover cover k} \<subseteq> set cover \<and> extend_cover cover k \<notin> set cover"
proof (induction cover k rule: extend_cover.induct)
  case (1 cover k)
  show ?case
  proof (cases "k \<in> set cover")
    case True
    let ?e = "extend_cover cover (Suc k)"
    have e: "Suc k \<le> ?e" "{Suc k..<?e} \<subseteq> set cover" "?e \<notin> set cover" using 1[OF True] by simp_all
    then have "{k..<?e} = insert k {Suc k..<?e}" by auto
    with e True show ?thesis unfolding extend_cover.simps[of cover k] by simp
  qed (simp add: extend_cover.simps)
qed

text \<open>Point \<open>i\<close> of the coverage is the share of the best positions that are all among the first \<open>i + 1\<close> trials.\<close>

lemma cover_curve_nth:
  assumes "i < length ranks"
  shows "\<exists>k. cover_curve ranks ! i = of_nat k / of_nat (length ranks) \<and> {..<k} \<subseteq> set (take (Suc i) ranks) \<and> k \<notin> set (take (Suc i) ranks)"
proof -
  define step where "step = (\<lambda>rank (cover, k, ret). let cover = List.insert rank cover; k = extend_cover cover k in (cover, k, ret @ [of_nat k :: rat]))"
  define val where "val = (\<lambda>xs k. {..<k} \<subseteq> set xs \<and> (k :: nat) \<notin> set xs)"
  have "\<exists>cover k ret. fold step xs ([], 0, []) = (cover, k, ret) \<and> set cover = set xs \<and> {..<k} \<subseteq> set xs \<and> length ret = length xs \<and>
      (\<forall>i < length xs. \<exists>k. ret ! i = of_nat k \<and> val (take (Suc i) xs) k)" for xs
  proof (induction xs rule: rev_induct)
    case (snoc x xs)
    then obtain cover k ret where f: "fold step xs ([], 0, []) = (cover, k, ret)" "set cover = set xs" "{..<k} \<subseteq> set xs" "length ret = length xs"
      "\<forall>i < length xs. \<exists>k. ret ! i = of_nat k \<and> val (take (Suc i) xs) k" by blast
    define c where "c = List.insert x cover"
    define k' where "k' = extend_cover c k"
    have c: "set c = set (xs @ [x])" using f(2) by (auto simp: c_def)
    have k': "{..<k'} \<subseteq> set c" "k' \<notin> set c"
    proof -
      have e: "k \<le> k'" "{k..<k'} \<subseteq> set c" "k' \<notin> set c" using extend_cover_spec[of k c] by (simp_all add: k'_def)
      have "{..<k'} = {..<k} \<union> {k..<k'}" using e(1) by auto
      with e f(3) c show "{..<k'} \<subseteq> set c" "k' \<notin> set c" by auto
    qed
    have "fold step (xs @ [x]) ([], 0, []) = (c, k', ret @ [of_nat k'])"
      using f(1) by (simp add: step_def Let_def c_def k'_def)
    moreover have "\<exists>k. (ret @ [of_nat k']) ! i = of_nat k \<and> val (take (Suc i) (xs @ [x])) k" if i: "i < length (xs @ [x])" for i
    proof (cases "i < length xs")
      case True
      with f(4,5) show ?thesis by (auto simp: nth_append)
    next
      case False
      with i k' c f(4) show ?thesis by (intro exI[of _ k']) (auto simp: val_def nth_append)
    qed
    ultimately show ?case using c k' f(4) by auto
  qed (simp add: val_def)
  then obtain cover k ret where f: "fold step ranks ([], 0, []) = (cover, k, ret)" "length ret = length ranks"
    "\<forall>i < length ranks. \<exists>k. ret ! i = of_nat k \<and> val (take (Suc i) ranks) k" by blast
  then obtain k where "ret ! i = of_nat k" "val (take (Suc i) ranks) k" using assms by blast
  with f assms show ?thesis by (intro exI[of _ k]) (simp add: cover_curve_def step_def val_def)
qed

section \<open>Correctness of the ranks\<close>

lemma fold_scatter:
  assumes "distinct tmp" "set tmp \<subseteq> {..<n}" "m \<le> length tmp"
  shows "length (fold (\<lambda>k ranks. ranks[tmp ! k := k]) [0..<m] (replicate n 0)) = n \<and>
    (\<forall>k < m. fold (\<lambda>k ranks. ranks[tmp ! k := k]) [0..<m] (replicate n 0) ! (tmp ! k) = k)"
  using assms(3)
proof (induction m)
  case (Suc m)
  have "tmp ! m < n" "\<forall>k < m. tmp ! k \<noteq> tmp ! m" using Suc.prems assms(1,2) by (auto simp: nth_eq_iff_index_eq subset_eq)
  with Suc show ?case by (auto simp: less_Suc_eq nth_list_update)
qed simp

text \<open>The ranks are a permutation of the positions, and a larger value has a smaller rank.\<close>

lemma get_rank_correct:
  assumes "sorts_positions argsort"
  shows "length (get_rank argsort vs) = length vs \<and>
    (\<forall>i < length vs. \<forall>j < length vs. vs ! j < vs ! i \<longrightarrow> get_rank argsort vs ! i < get_rank argsort vs ! j)"
proof -
  define tmp where "tmp = argsort (map uminus vs)"
  have m: "mset tmp = mset [0..<length vs]" and srt: "sorted (map (\<lambda>i. map uminus vs ! i) tmp)"
    using assms[unfolded sorts_positions_def, rule_format, of "map uminus vs"] by (simp_all add: tmp_def)
  have tmp: "distinct tmp" "set tmp = {..<length vs}" "length tmp = length vs"
    using m mset_eq_imp_distinct_iff[OF m] mset_eq_setD[OF m] mset_eq_length[OF m] by (auto simp: lessThan_atLeast0)
  have ranks: "length (get_rank argsort vs) = length vs" "\<forall>k < length vs. get_rank argsort vs ! (tmp ! k) = k"
    using fold_scatter[OF tmp(1), of "length vs" "length vs"] tmp by (simp_all add: get_rank_def Let_def tmp_def[symmetric])
  have "get_rank argsort vs ! i < get_rank argsort vs ! j" if ij: "i < length vs" "j < length vs" "vs ! j < vs ! i" for i j
  proof -
    obtain a b where ab: "a < length vs" "tmp ! a = i" "b < length vs" "tmp ! b = j"
      using ij(1,2) tmp by (metis in_set_conv_nth lessThan_iff)
    have "a < b"
    proof (rule ccontr)
      assume "\<not> a < b"
      then have "map (\<lambda>i. map uminus vs ! i) tmp ! b \<le> map (\<lambda>i. map uminus vs ! i) tmp ! a"
        using srt ab tmp(3) by (intro sorted_nth_mono) simp_all
      with ab ij tmp(3) show False by simp
    qed
    with ranks(2) ab show ?thesis by auto
  qed
  with ranks(1) show ?thesis by blast
qed

section \<open>Bounds\<close>

lemma recall_bounds:
  assumes "x \<in> set (recall_curve ranks None)"
  shows "0 \<le> x \<and> x < 1"
proof -
  obtain i where i: "i < length ranks" "x = of_nat (length (filter (\<lambda>r. r \<le> i) (take i ranks))) / of_nat (i + 1)"
    using assms by (auto simp: recall_curve_def)
  have "length (filter (\<lambda>r. r \<le> i) (take i ranks)) \<le> i" using length_filter_le[of _ "take i ranks"] i(1) by (metis length_take min.absorb4)
  then have "(of_nat (length (filter (\<lambda>r. r \<le> i) (take i ranks))) :: rat) < of_nat (i + 1)" by simp
  with i(2) show ?thesis by simp
qed

lemma sum_below_length: "\<forall>x \<in> set xs. 0 \<le> x \<and> x < (1 :: rat) \<Longrightarrow> xs \<noteq> [] \<Longrightarrow> sum_list xs < of_nat (length xs)"
proof (induction xs)
  case (Cons x xs)
  then show ?case by (cases "xs = []") (auto simp: add.commute intro: add_strict_mono)
qed simp

text \<open>The average recall lies between zero and one, and one is not reached.\<close>

lemma average_recall_bounds:
  assumes "0 < N"
  shows "0 \<le> average_recall argsort preds labels N \<and> average_recall argsort preds labels N < 1"
proof -
  define c where "c = take N (recall_curve (get_rank argsort (map (\<lambda>i. labels ! i) (rev (argsort preds)))) None)"
  have c: "\<forall>x \<in> set c. 0 \<le> x \<and> x < 1" using recall_bounds by (auto simp: c_def dest: in_set_takeD)
  have "sum_list c < of_nat N"
  proof (cases "c = []")
    case False
    have "(of_nat (length c) :: rat) \<le> of_nat N" by (simp add: c_def)
    with sum_below_length[OF c False] show ?thesis by linarith
  qed (use assms in simp)
  moreover have "0 \<le> sum_list c" using c by (intro sum_list_nonneg) blast
  ultimately show ?thesis using assms by (simp add: average_recall_def Let_def c_def[symmetric])
qed

end
