(* ===== verification/Rpc_Framing.thy ===== *)
theory Rpc_Framing
  imports Prelude "HOL-Library.Word"
begin

text \<open>
  The messages of the RPC tracker: four bytes with the length of a JSON text, then the text. The handler of
  a connection (\<^verbatim>\<open>TCPEventHandler.on_message\<close> of \<^verbatim>\<open>rpc/tracker.py\<close>) gets the bytes of the stream in arbitrary
  pieces and puts the messages together again; \<^verbatim>\<open>sendjson\<close> of \<^verbatim>\<open>rpc/base.py\<close> and \<^verbatim>\<open>ret_value\<close> write
  them. Bytes are 8-bit words and lengths signed 32-bit words.
\<close>

unbundle bit_operations_syntax

section \<open>Lengths\<close>

type_synonym bytes = "8 word list"

text \<open>\<^verbatim>\<open>struct.pack("<i", n)\<close> for a length in range, and \<^verbatim>\<open>struct.unpack("<i", data)[0]\<close>.\<close>

definition pack_i :: "int \<Rightarrow> bytes" where
  "pack_i n = map (\<lambda>k. ucast (drop_bit (8 * k) (word_of_int n :: 32 word))) [0..<4]"

definition unpack_i :: "bytes \<Rightarrow> int" where
  "unpack_i bs = sint (foldr (\<lambda>b w. push_bit 8 w OR ucast b) bs (0 :: 32 word))"

definition RPC_TRACKER_MAGIC :: int where
  "RPC_TRACKER_MAGIC = 0x2F271"

definition sendjson :: "bytes \<Rightarrow> bytes" where
  "sendjson text = pack_i (int (length text)) @ text"

section \<open>Reading\<close>

record conn_stream =
  cn_init_req_nbytes :: nat
  cn_data :: bytes
  cn_msg_size :: int
  cn_open :: bool
  cn_written :: bytes
  cn_handled :: "bytes list"

definition conn_init :: conn_stream where
  "conn_init = \<lparr>cn_init_req_nbytes = 4, cn_data = [], cn_msg_size = 0, cn_open = True, cn_written = [], cn_handled = []\<rparr>"

text \<open>A bound of a Python slice.\<close>

definition slice_bound :: "'a list \<Rightarrow> int \<Rightarrow> nat" where
  "slice_bound xs k = (if k < 0 then nat (int (length xs) + k) else min (nat k) (length xs))"

text \<open>
  The loop of \<^verbatim>\<open>on_message\<close>. The result is the list of texts handed to \<^verbatim>\<open>json.loads\<close>, the new size and data, and
  whether an exception ended the loop: the empty text is no JSON value.
\<close>

function take_messages :: "int \<Rightarrow> bytes \<Rightarrow> bytes list \<times> int \<times> bytes \<times> bool" where
  "take_messages msg_size data =
     (if msg_size = 0 \<and> length data < 4 then ([], 0, data, False)
      else
        let size = (if msg_size = 0 then unpack_i (take 4 data) else msg_size) in
        if size \<noteq> 0 \<and> int (length data) \<ge> size + 4 then
          let msg = drop 4 (take (slice_bound data (4 + size)) data); rest = drop (slice_bound data (4 + size)) data in
          if msg = [] then ([], 0, rest, True)
          else (case take_messages 0 rest of (msgs, s, d, e) \<Rightarrow> (msg # msgs, s, d, e))
        else ([], size, data, False))"
  by pat_completeness auto
termination
  by (relation "measure (\<lambda>(s, d). length d)") (auto simp: Let_def min_def split: if_splits)

declare take_messages.simps [simp del]

text \<open>
  The handshake. A wrong length or a wrong number closes the connection; then unpacking the bytes fails, or
  writing the answer to the closed socket.
\<close>

definition init_conn :: "bytes \<Rightarrow> (conn_stream, unit) st" where
  "init_conn message c =
     (if length message \<noteq> 4 then (c\<lparr>cn_open := False\<rparr>, Inl StructError)
      else if unpack_i message \<noteq> RPC_TRACKER_MAGIC then (c\<lparr>cn_open := False\<rparr>, Inl OSError)
      else (c\<lparr>cn_written := cn_written c @ pack_i RPC_TRACKER_MAGIC, cn_init_req_nbytes := 0\<rparr>, Inr ()))"

definition on_message :: "bytes \<Rightarrow> (conn_stream, unit) st" where
  "on_message message c =
     (if cn_init_req_nbytes c \<noteq> 0 then init_conn message c
      else case take_messages (cn_msg_size c) (cn_data c @ message) of (msgs, s, d, e) \<Rightarrow>
        (c\<lparr>cn_data := d, cn_msg_size := s, cn_handled := cn_handled c @ msgs\<rparr>, if e then Inl ValueError else Inr ()))"

primrec on_messages :: "bytes list \<Rightarrow> (conn_stream, unit) st" where
  "on_messages [] = returnS ()"
| "on_messages (m # ms) = bindS (on_message m) (\<lambda>_. on_messages ms)"

section \<open>Round trip of lengths\<close>

lemma pack_i_bytes:
  "pack_i n = [ucast (word_of_int n :: 32 word), ucast (drop_bit 8 (word_of_int n :: 32 word)),
     ucast (drop_bit 16 (word_of_int n :: 32 word)), ucast (drop_bit 24 (word_of_int n :: 32 word))]"
  by (simp add: pack_i_def upt_rec)

lemma length_pack_i [simp]: "length (pack_i n) = 4"
  by (simp add: pack_i_def)

lemma join_bit: "n < 32 \<Longrightarrow> bit (push_bit 8 a OR ucast (b :: 8 word) :: 32 word) n = (if n < 8 then bit b n else bit a (n - 8))"
  by (auto simp: bit_or_iff bit_push_bit_iff bit_ucast_iff dest: bit_imp_le_length)

lemma byte_bit: "m < 8 \<Longrightarrow> bit (ucast (drop_bit k (w :: 32 word)) :: 8 word) m = bit w (k + m)"
  by (simp add: bit_ucast_iff bit_drop_bit_eq)

lemma join_bytes:
  fixes w :: "32 word"
  defines "b \<equiv> \<lambda>k. ucast (drop_bit k w) :: 8 word"
  shows "push_bit 8 (push_bit 8 (push_bit 8 (push_bit 8 0 OR ucast (b 24)) OR ucast (b 16)) OR ucast (b 8)) OR ucast (b 0) = w"
proof -
  define J where "J = (\<lambda>a (b :: 8 word). push_bit 8 a OR ucast b :: 32 word)"
  have J: "n < 32 \<Longrightarrow> bit (J a b) n = (if n < 8 then bit b n else bit a (n - 8))" for a b n unfolding J_def by (rule join_bit)
  have b: "m < 8 \<Longrightarrow> bit (b k) m = bit w (k + m)" for k m by (simp add: b_def byte_bit)
  have "J (J (J (J 0 (b 24)) (b 16)) (b 8)) (b 0) = w"
    by (rule bit_word_eqI) (auto simp: J b)
  then show ?thesis by (simp only: J_def)
qed

lemma unpack_pack: "- (2 ^ 31) \<le> n \<Longrightarrow> n < 2 ^ 31 \<Longrightarrow> unpack_i (pack_i n) = n"
proof -
  assume n: "- (2 ^ 31) \<le> n" "n < 2 ^ 31"
  let ?w = "word_of_int n :: 32 word"
  have "unpack_i (pack_i n) = sint (push_bit 8 (push_bit 8 (push_bit 8 (push_bit 8 0 OR ucast (ucast (drop_bit 24 ?w) :: 8 word)) OR
      ucast (ucast (drop_bit 16 ?w) :: 8 word)) OR ucast (ucast (drop_bit 8 ?w) :: 8 word)) OR ucast (ucast (drop_bit 0 ?w) :: 8 word) :: 32 word)"
    by (simp only: unpack_i_def pack_i_bytes foldr.simps o_def id_def drop_bit_0)
  also have "\<dots> = sint ?w" by (simp only: join_bytes)
  also have "\<dots> = signed_take_bit 31 n" by (simp add: sint_sbintrunc')
  finally show ?thesis using n by (simp add: signed_take_bit_int_eq_self)
qed

section \<open>Streams of messages\<close>

definition stream_of :: "bytes list \<Rightarrow> bytes" where
  "stream_of msgs = concat (map sendjson msgs)"

definition sendable :: "bytes \<Rightarrow> bool" where
  "sendable text \<longleftrightarrow> text \<noteq> [] \<and> length text < 2 ^ 31"

lemma sendjson_head: "sendable t \<Longrightarrow> unpack_i (take 4 (sendjson t @ d)) = int (length t)"
  by (simp add: sendjson_def unpack_pack sendable_def)

lemma length_sendjson: "length (sendjson t) = 4 + length t"
  by (simp add: sendjson_def)

lemma take_one:
  assumes "sendable t"
  shows "take_messages 0 (sendjson t @ d) = (case take_messages 0 d of (msgs, s, d', e) \<Rightarrow> (t # msgs, s, d', e))"
proof -
  have b: "slice_bound (sendjson t @ d) (4 + int (length t)) = 4 + length t"
    by (simp add: slice_bound_def length_sendjson nat_add_distrib)
  have "drop 4 (take (4 + length t) (sendjson t @ d)) = t" "drop (4 + length t) (sendjson t @ d) = d"
    by (simp_all add: sendjson_def)
  then show ?thesis
    using assms sendjson_head[OF assms, of d] b
    by (subst take_messages.simps) (simp add: Let_def length_sendjson sendable_def)
qed

text \<open>What a connection holds after a part of a stream: the complete messages are out, the rest is waiting.\<close>

definition waiting :: "int \<Rightarrow> bytes \<Rightarrow> bytes list \<Rightarrow> bytes \<Rightarrow> bool" where
  "waiting sz data todo future \<longleftrightarrow> data @ future = stream_of todo \<and>
     (sz = 0 \<and> length data < 4 \<or> (\<exists>t ts. todo = t # ts \<and> sz = int (length t) \<and> 4 \<le> length data \<and> length data < 4 + length t))"

lemma take_prefix:
  assumes "\<forall>t \<in> set msgs. sendable t" "data @ future = stream_of msgs"
  shows "\<exists>fin todo sz rest. msgs = fin @ todo \<and> take_messages 0 data = (fin, sz, rest, False) \<and> waiting sz rest todo future"
  using assms
proof (induction msgs arbitrary: data)
  case Nil
  then show ?case by (auto simp: stream_of_def waiting_def take_messages.simps)
next
  case (Cons t msgs)
  have t: "sendable t" using Cons.prems(1) by simp
  have eq: "data @ future = sendjson t @ stream_of msgs" using Cons.prems(2) by (simp add: stream_of_def)
  consider "4 + length t \<le> length data" | "length data < 4" | "4 \<le> length data" "length data < 4 + length t" by linarith
  then show ?case
  proof cases
    case 1
    have "take (4 + length t) data = sendjson t"
      using 1 arg_cong[OF eq, of "take (4 + length t)"] by (simp add: length_sendjson)
    then have "data = sendjson t @ drop (4 + length t) data" by (metis append_take_drop_id)
    with eq obtain d where d: "data = sendjson t @ d" "d @ future = stream_of msgs" by (metis append.assoc same_append_eq)
    from Cons.IH[OF _ d(2)] Cons.prems(1) obtain fin todo sz rest where
      "msgs = fin @ todo" "take_messages 0 d = (fin, sz, rest, False)" "waiting sz rest todo future" by auto
    then show ?thesis using take_one[OF t, of d] d(1) by (intro exI[of _ "t # fin"] exI[of _ todo] exI[of _ sz] exI[of _ rest]) simp
  next
    case 2
    then have "take_messages 0 data = ([], 0, data, False)" by (simp add: take_messages.simps)
    with 2 Cons.prems(2) show ?thesis by (intro exI[of _ "[]"] exI[of _ "t # msgs"] exI[of _ 0] exI[of _ data]) (simp add: waiting_def)
  next
    case 3
    have "take 4 data = take 4 (data @ future)" using 3 by simp
    also have "\<dots> = take 4 (sendjson t @ stream_of msgs)" by (simp only: eq)
    finally have "unpack_i (take 4 data) = int (length t)" using sendjson_head[OF t] by simp
    then have "take_messages 0 data = ([], int (length t), data, False)"
      using 3 t by (subst take_messages.simps) (simp add: Let_def sendable_def)
    with 3 Cons.prems(2) show ?thesis
      by (intro exI[of _ "[]"] exI[of _ "t # msgs"] exI[of _ "int (length t)"] exI[of _ data]) (simp add: waiting_def)
  qed
qed

text \<open>A size that has been read already makes no difference.\<close>

lemma take_resume:
  assumes "\<forall>t \<in> set todo. sendable t" "waiting sz data todo (m @ future)"
  shows "take_messages sz (data @ m) = take_messages 0 (data @ m)"
proof (cases "sz = 0")
  case False
  then obtain t ts where t: "todo = t # ts" "sz = int (length t)" "4 \<le> length data" using assms(2) by (auto simp: waiting_def)
  have "take 4 (data @ m) = take 4 (data @ m @ future)" using t(3) by simp
  also have "\<dots> = take 4 (sendjson t @ stream_of ts)" using assms(2) t(1) by (simp add: waiting_def stream_of_def)
  finally have "unpack_i (take 4 (data @ m)) = sz" using sendjson_head[of t] assms(1) t by simp
  with False t(3) show ?thesis by (subst (1 2) take_messages.simps) simp
qed simp

lemma on_messages_stream:
  assumes "\<forall>t \<in> set todo. sendable t" "cn_init_req_nbytes c = 0" "waiting (cn_msg_size c) (cn_data c) todo (concat chunks @ future)"
  shows "\<exists>fin rest sz data. todo = fin @ rest \<and> waiting sz data rest future \<and>
    on_messages chunks c = (c\<lparr>cn_data := data, cn_msg_size := sz, cn_handled := cn_handled c @ fin\<rparr>, Inr ())"
  using assms
proof (induction chunks arbitrary: c todo)
  case Nil
  then show ?case by (intro exI[of _ "[]"] exI[of _ todo] exI[of _ "cn_msg_size c"] exI[of _ "cn_data c"]) simp
next
  case (Cons m chunks)
  have w: "waiting (cn_msg_size c) (cn_data c) todo (m @ concat chunks @ future)" using Cons.prems(3) by simp
  have "(cn_data c @ m) @ concat chunks @ future = stream_of todo" using w by (simp add: waiting_def)
  from take_prefix[OF Cons.prems(1) this] obtain fin todo' sz data where
    t: "todo = fin @ todo'" "take_messages 0 (cn_data c @ m) = (fin, sz, data, False)" "waiting sz data todo' (concat chunks @ future)" by blast
  define c1 where "c1 = c\<lparr>cn_data := data, cn_msg_size := sz, cn_handled := cn_handled c @ fin\<rparr>"
  have c1: "on_message m c = (c1, Inr ())"
    using Cons.prems(2) take_resume[OF Cons.prems(1) w] t(2) by (simp add: on_message_def c1_def)
  have "\<forall>t \<in> set todo'. sendable t" "cn_init_req_nbytes c1 = 0" "waiting (cn_msg_size c1) (cn_data c1) todo' (concat chunks @ future)"
    using Cons.prems(1,2) t(1,3) by (simp_all add: c1_def)
  from Cons.IH[OF this] obtain fin' rest sz' data' where r: "todo' = fin' @ rest" "waiting sz' data' rest future"
    "on_messages chunks c1 = (c1\<lparr>cn_data := data', cn_msg_size := sz', cn_handled := cn_handled c1 @ fin'\<rparr>, Inr ())" by blast
  then show ?case using c1 t(1)
    by (intro exI[of _ "fin @ fin'"] exI[of _ rest] exI[of _ sz'] exI[of _ data']) (simp add: c1_def)
qed



section \<open>Streams that are not understood\<close>

text \<open>
  A length of zero stops a connection for good: the size zero also means that no size has been read, so the
  same four bytes are read again and again, and everything after them is kept and never handled.
\<close>

lemma empty_message_blocks:
  assumes "cn_init_req_nbytes c = 0" "cn_msg_size c = 0" "cn_data c = pack_i 0 @ d"
  shows "on_messages chunks c = (c\<lparr>cn_data := pack_i 0 @ d @ concat chunks\<rparr>, Inr ())"
  using assms
proof (induction chunks arbitrary: c d)
  case Nil
  then show ?case by simp
next
  case (Cons m chunks)
  have "take_messages 0 (pack_i 0 @ d @ m) = ([], 0, pack_i 0 @ d @ m, False)"
    by (subst take_messages.simps) (simp add: unpack_pack)
  then have "on_message m c = (c\<lparr>cn_data := pack_i 0 @ d @ m\<rparr>, Inr ())" using Cons.prems by (simp add: on_message_def)
  then show ?case using Cons.IH[of "c\<lparr>cn_data := pack_i 0 @ d @ m\<rparr>" "d @ m"] Cons.prems by simp
qed

text \<open>The handshake must arrive in one piece and alone: otherwise the connection is closed.\<close>

lemma handshake_in_pieces_closes:
  assumes "length m \<noteq> 4"
  shows "on_messages (m # chunks) conn_init = (conn_init\<lparr>cn_open := False\<rparr>, Inl StructError)"
proof -
  have "on_message m conn_init = (conn_init\<lparr>cn_open := False\<rparr>, Inl StructError)"
    using assms by (simp add: on_message_def init_conn_def conn_init_def)
  then show ?thesis by simp
qed

end
