(* ===== verification/Rpc_Tracker.thy ===== *)
theory Rpc_Tracker
  imports Heapq "HOL-Library.Product_Lexorder"
begin

text \<open>
  The RPC tracker (\<^verbatim>\<open>rpc/tracker.py\<close>): servers offer resources under a key, clients request them with a
  priority, and a priority scheduler per key brings them together. The requests are kept with \<^verbatim>\<open>heapq\<close>; the
  counter in an entry makes its first two components different from those of all others, so the heap
  is ordered by them. Whether writing an answer to an open connection succeeds is a parameter.
\<close>

section \<open>The priority scheduler\<close>

record resource =
  rs_conn :: nat
  rs_addr :: string
  rs_port :: int
  rs_matchkey :: string

type_synonym request = "int \<times> nat \<times> nat"

definition request_key :: "request \<Rightarrow> int \<times> nat" where
  "request_key r = (fst r, fst (snd r))"

text \<open>
  The scheduler together with what its callbacks change: the pending match keys of the connections and the
  answers sent, each with the request it answers.
\<close>

record pscheduler =
  ps_request_cnt :: nat
  ps_values :: "resource list"
  ps_requests :: "request list"

record sched_view = pscheduler +
  pv_pending :: "(nat \<times> string) list"
  pv_sent :: "(request \<times> resource) list"

definition scheduler_new :: pscheduler where
  "scheduler_new = \<lparr>ps_request_cnt = 0, ps_values = [], ps_requests = []\<rparr>"

text \<open>One turn of the loop in \<^verbatim>\<open>_schedule\<close>, for a first resource and the remaining ones.\<close>

definition hand_out :: "(nat \<Rightarrow> resource \<Rightarrow> bool) \<Rightarrow> resource \<Rightarrow> resource list \<Rightarrow> (sched_view, unit) st" where
  "hand_out accept v vs s = (case heappop request_key (ps_requests s) of
     Inl e \<Rightarrow> (s\<lparr>ps_values := vs\<rparr>, Inl e)
   | Inr (item, rest) \<Rightarrow>
       if accept (snd (snd item)) v then
         let s1 = s\<lparr>ps_values := vs, ps_requests := rest, pv_sent := pv_sent s @ [(item, v)]\<rparr>; p = (rs_conn v, rs_matchkey v) in
         if p \<in> set (pv_pending s) then (s1\<lparr>pv_pending := removeAll p (pv_pending s)\<rparr>, Inr ()) else (s1, Inl KeyError)
       else (s\<lparr>ps_values := vs @ [v], ps_requests := rest\<rparr>, Inr ()))"

text \<open>Every turn takes a request off the heap, so their number bounds the turns.\<close>

fun schedule_loop :: "(nat \<Rightarrow> resource \<Rightarrow> bool) \<Rightarrow> nat \<Rightarrow> (sched_view, unit) st" where
  "schedule_loop accept 0 = returnS ()"
| "schedule_loop accept (Suc n) =
     bindS (getS id) (\<lambda>s. case ps_values s of
       [] \<Rightarrow> returnS ()
     | v # vs \<Rightarrow> if ps_requests s = [] then returnS () else bindS (hand_out accept v vs) (\<lambda>_. schedule_loop accept n))"

definition schedule :: "(nat \<Rightarrow> resource \<Rightarrow> bool) \<Rightarrow> (sched_view, unit) st" where
  "schedule accept = bindS (getS (\<lambda>s. length (ps_requests s))) (schedule_loop accept)"

definition ps_put :: "(nat \<Rightarrow> resource \<Rightarrow> bool) \<Rightarrow> resource \<Rightarrow> (sched_view, unit) st" where
  "ps_put accept v = bindS (modifyS (\<lambda>s. s\<lparr>ps_values := ps_values s @ [v]\<rparr>)) (\<lambda>_. schedule accept)"

definition ps_request :: "(nat \<Rightarrow> resource \<Rightarrow> bool) \<Rightarrow> int \<Rightarrow> nat \<Rightarrow> (sched_view, unit) st" where
  "ps_request accept priority conn =
     bindS (modifyS (\<lambda>s. s\<lparr>ps_requests := heappush request_key (- priority, ps_request_cnt s, conn) (ps_requests s),
       ps_request_cnt := Suc (ps_request_cnt s)\<rparr>)) (\<lambda>_. schedule accept)"

definition ps_remove :: "(nat \<Rightarrow> resource \<Rightarrow> bool) \<Rightarrow> resource \<Rightarrow> (sched_view, unit) st" where
  "ps_remove accept v =
     bindS (getS ps_values) (\<lambda>vs.
       if v \<in> set vs then bindS (modifyS (\<lambda>s. s\<lparr>ps_values := remove1 v vs\<rparr>)) (\<lambda>_. schedule accept) else returnS ())"

definition ps_summary :: "pscheduler \<Rightarrow> nat \<times> nat" where
  "ps_summary s = (length (ps_values s), length (ps_requests s))"

section \<open>The tracker\<close>

datatype info_value = InfoStr string | InfoAddr "string option" int

datatype tracker_msg =
    TPut string int string "string option"
  | TRequest string string int
  | TPing
  | TGetPendingMatchkeys
  | TStop string
  | TUpdateInfo "(string, info_value) dict"
  | TSummary
  | TUnknown int

datatype tracker_reply =
    ReplySuccess
  | ReplyFail
  | ReplyMatchkeys "string list"
  | ReplySummary "(string \<times> nat \<times> nat) list" "(string, info_value) dict list"

record tracker =
  tk_schedulers :: "(string, pscheduler) dict"
  tk_connections :: "(nat \<times> string) list"
  tk_pending :: "(nat \<times> string) list"
  tk_put_values :: "(nat \<times> resource) list"
  tk_info :: "nat \<Rightarrow> (string, info_value) dict"
  tk_sent :: "(request \<times> resource) list"
  tk_replies :: "(nat \<times> tracker_reply) list"
  tk_stop_key :: string
  tk_stopped :: bool

definition tracker_new :: "string \<Rightarrow> tracker" where
  "tracker_new stop_key = \<lparr>tk_schedulers = [], tk_connections = [], tk_pending = [], tk_put_values = [], tk_info = (\<lambda>c. []), tk_sent = [],
     tk_replies = [], tk_stop_key = stop_key, tk_stopped = False\<rparr>"

definition ret_value :: "nat \<Rightarrow> tracker_reply \<Rightarrow> (tracker, unit) st" where
  "ret_value conn r t = (if conn \<in> fst ` set (tk_connections t) then (t\<lparr>tk_replies := tk_replies t @ [(conn, r)]\<rparr>, Inr ()) else (t, Inl OSError))"

text \<open>The callback of a request: the connection must be open, and writing to it succeed.\<close>

definition callback :: "(nat \<Rightarrow> resource \<Rightarrow> bool) \<Rightarrow> tracker \<Rightarrow> nat \<Rightarrow> resource \<Rightarrow> bool" where
  "callback io_ok t conn v \<longleftrightarrow> conn \<in> fst ` set (tk_connections t) \<and> io_ok conn v"

definition view_of :: "tracker \<Rightarrow> pscheduler \<Rightarrow> sched_view" where
  "view_of t ps = \<lparr>ps_request_cnt = ps_request_cnt ps, ps_values = ps_values ps, ps_requests = ps_requests ps, pv_pending = tk_pending t, pv_sent = tk_sent t\<rparr>"

definition with_scheduler :: "string \<Rightarrow> (sched_view, unit) st \<Rightarrow> (tracker, unit) st" where
  "with_scheduler key m t = (case map_of (tk_schedulers t) key of
     None \<Rightarrow> (t, Inl KeyError)
   | Some ps \<Rightarrow> (case m (view_of t ps) of (s, r) \<Rightarrow>
       (t\<lparr>tk_schedulers := AList.update key \<lparr>ps_request_cnt = ps_request_cnt s, ps_values = ps_values s, ps_requests = ps_requests s\<rparr> (tk_schedulers t),
          tk_pending := pv_pending s, tk_sent := pv_sent s\<rparr>, r)))"

definition ensure_scheduler :: "string \<Rightarrow> (tracker, unit) st" where
  "ensure_scheduler key = modifyS (\<lambda>t. if key \<in> fst ` set (tk_schedulers t) then t
     else t\<lparr>tk_schedulers := AList.update key scheduler_new (tk_schedulers t)\<rparr>)"

definition tracker_put :: "(nat \<Rightarrow> resource \<Rightarrow> bool) \<Rightarrow> string \<Rightarrow> resource \<Rightarrow> (tracker, unit) st" where
  "tracker_put io_ok key v = bindS (ensure_scheduler key) (\<lambda>_. bindS (getS (callback io_ok)) (\<lambda>cb. with_scheduler key (ps_put cb v)))"

definition tracker_request :: "(nat \<Rightarrow> resource \<Rightarrow> bool) \<Rightarrow> string \<Rightarrow> string \<Rightarrow> int \<Rightarrow> nat \<Rightarrow> (tracker, unit) st" where
  "tracker_request io_ok key user priority conn =
     bindS (ensure_scheduler key) (\<lambda>_. bindS (getS (callback io_ok)) (\<lambda>cb. with_scheduler key (ps_request cb priority conn)))"

text \<open>The prefix \<^verbatim>\<open>split_random_key\<close> returns; a key without a colon cannot be unpacked into two parts.\<close>

definition split_random_key :: "string \<Rightarrow> string py" where
  "split_random_key key = (if CHR '':'' \<in> set key then Inr (rev (tl (dropWhile (\<lambda>c. c \<noteq> CHR '':'') (rev key)))) else Inl ValueError)"

primrec withdraw_values :: "(nat \<Rightarrow> resource \<Rightarrow> bool) \<Rightarrow> resource list \<Rightarrow> (tracker, unit) st" where
  "withdraw_values io_ok [] = returnS ()"
| "withdraw_values io_ok (v # vs) =
     bindS (liftS (split_random_key (rs_matchkey v))) (\<lambda>rpc_key.
     bindS (getS (callback io_ok)) (\<lambda>cb.
     bindS (with_scheduler rpc_key (ps_remove cb v)) (\<lambda>_. withdraw_values io_ok vs)))"

definition tracker_close :: "(nat \<Rightarrow> resource \<Rightarrow> bool) \<Rightarrow> nat \<Rightarrow> (tracker, unit) st" where
  "tracker_close io_ok conn =
     bindS (getS (\<lambda>t. conn \<in> fst ` set (tk_connections t))) (\<lambda>known.
     bindS (liftS (if known then Inr () else Inl KeyError)) (\<lambda>_.
     bindS (modifyS (\<lambda>t. t\<lparr>tk_connections := filter (\<lambda>c. fst c \<noteq> conn) (tk_connections t)\<rparr>)) (\<lambda>_.
     bindS (getS (\<lambda>t. if ''key'' \<in> fst ` set (tk_info t conn) then map snd (filter (\<lambda>p. fst p = conn) (tk_put_values t)) else [])) (\<lambda>vs.
       withdraw_values io_ok vs))))"

primrec close_all :: "(nat \<Rightarrow> resource \<Rightarrow> bool) \<Rightarrow> nat list \<Rightarrow> (tracker, unit) st" where
  "close_all io_ok [] = returnS ()"
| "close_all io_ok (c # cs) = bindS (tracker_close io_ok c) (\<lambda>_. close_all io_ok cs)"

definition tracker_stop :: "(nat \<Rightarrow> resource \<Rightarrow> bool) \<Rightarrow> (tracker, unit) st" where
  "tracker_stop io_ok =
     bindS (getS (\<lambda>t. map fst (tk_connections t))) (\<lambda>cs.
     bindS (close_all io_ok cs) (\<lambda>_. modifyS (\<lambda>t. t\<lparr>tk_stopped := True\<rparr>)))"

definition tracker_summary :: "tracker \<Rightarrow> tracker_reply" where
  "tracker_summary t = ReplySummary (map (\<lambda>(k, ps). (k, ps_summary ps)) (tk_schedulers t))
     (filter (\<lambda>info. case map_of info ''key'' of Some (InfoStr k) \<Rightarrow> is_prefix ''server'' k | _ \<Rightarrow> False)
       (map (\<lambda>c. tk_info t (fst c)) (tk_connections t)))"

definition update_info :: "nat \<Rightarrow> string \<Rightarrow> (string, info_value) dict \<Rightarrow> (tracker, unit) st" where
  "update_info conn addr info =
     bindS (liftS (dict_get info ''addr'')) (\<lambda>a.
     bindS (liftS (case a of
         InfoAddr None port \<Rightarrow> Inr (AList.update ''addr'' (InfoAddr (Some addr) port) info)
       | InfoAddr (Some h) port \<Rightarrow> Inr info
       | InfoStr x \<Rightarrow> if x = [] then Inl IndexError else Inr info)) (\<lambda>info.
       modifyS (\<lambda>t. t\<lparr>tk_info := (tk_info t)(conn := fold (\<lambda>(k, v). AList.update k v) info (tk_info t conn))\<rparr>)))"

fun call_handler :: "(nat \<Rightarrow> resource \<Rightarrow> bool) \<Rightarrow> nat \<Rightarrow> string \<Rightarrow> tracker_msg \<Rightarrow> (tracker, unit) st" where
  "call_handler io_ok conn addr (TPut key port matchkey custom) =
     (let value = \<lparr>rs_conn = conn, rs_addr = (case custom of Some a \<Rightarrow> a | None \<Rightarrow> addr), rs_port = port, rs_matchkey = matchkey\<rparr> in
      bindS (modifyS (\<lambda>t. t\<lparr>tk_pending := List.insert (conn, matchkey) (tk_pending t)\<rparr>)) (\<lambda>_.
      bindS (tracker_put io_ok key value) (\<lambda>_.
      bindS (modifyS (\<lambda>t. t\<lparr>tk_put_values := tk_put_values t @ [(conn, value)]\<rparr>)) (\<lambda>_. ret_value conn ReplySuccess))))"
| "call_handler io_ok conn addr (TRequest key user priority) = tracker_request io_ok key user priority conn"
| "call_handler io_ok conn addr TPing = ret_value conn ReplySuccess"
| "call_handler io_ok conn addr TGetPendingMatchkeys =
     bindS (getS (\<lambda>t. map snd (filter (\<lambda>p. fst p = conn) (tk_pending t)))) (\<lambda>ks. ret_value conn (ReplyMatchkeys ks))"
| "call_handler io_ok conn addr (TStop key) =
     bindS (getS (\<lambda>t. tk_stop_key t = key)) (\<lambda>ok.
       if ok then bindS (ret_value conn ReplySuccess) (\<lambda>_. tracker_stop io_ok) else ret_value conn ReplyFail)"
| "call_handler io_ok conn addr (TUpdateInfo info) = bindS (update_info conn addr info) (\<lambda>_. ret_value conn ReplySuccess)"
| "call_handler io_ok conn addr TSummary = bindS (getS tracker_summary) (ret_value conn)"
| "call_handler io_ok conn addr (TUnknown code) = tracker_close io_ok conn"

text \<open>What happens at the sockets: a connection is accepted, a message arrives, a connection ends.\<close>

datatype tracker_event = Connect nat string | Message nat tracker_msg | Disconnect nat

definition run_event :: "(nat \<Rightarrow> resource \<Rightarrow> bool) \<Rightarrow> tracker_event \<Rightarrow> (tracker, unit) st" where
  "run_event io_ok ev = (case ev of
     Connect c addr \<Rightarrow> modifyS (\<lambda>t. t\<lparr>tk_connections := tk_connections t @ [(c, addr)]\<rparr>)
   | Message c m \<Rightarrow>
       bindS (getS (\<lambda>t. map_of (tk_connections t) c)) (\<lambda>a. case a of None \<Rightarrow> returnS () | Some addr \<Rightarrow> call_handler io_ok c addr m)
   | Disconnect c \<Rightarrow> bindS (getS (\<lambda>t. c \<in> fst ` set (tk_connections t))) (\<lambda>known. if known then tracker_close io_ok c else returnS ()))"

primrec run_events :: "(nat \<Rightarrow> nat \<Rightarrow> resource \<Rightarrow> bool) \<Rightarrow> nat \<Rightarrow> tracker_event list \<Rightarrow> (tracker, unit) st" where
  "run_events io_ok k [] = returnS ()"
| "run_events io_ok k (ev # evs) = bindS (run_event (io_ok k) ev) (\<lambda>_. run_events io_ok (Suc k) evs)"

section \<open>Invariant\<close>

definition ps_wf :: "'a pscheduler_scheme \<Rightarrow> bool" where
  "ps_wf s \<longleftrightarrow> is_heap request_key (ps_requests s) \<and> distinct (map (\<lambda>r. fst (snd r)) (ps_requests s)) \<and>
     (\<forall>r \<in> set (ps_requests s). fst (snd r) < ps_request_cnt s)"

text \<open>The best request: none has a higher priority, and none of the same priority came earlier.\<close>

definition best_request :: "request \<Rightarrow> request list \<Rightarrow> bool" where
  "best_request r rs \<longleftrightarrow> r \<in> set rs \<and> (\<forall>q \<in> set rs. fst r < fst q \<or> fst r = fst q \<and> fst (snd r) \<le> fst (snd q))"

lemma hand_out_effect:
  assumes "ps_wf s" "ps_requests s \<noteq> []"
  shows "\<exists>item rest. best_request item (ps_requests s) \<and> mset (ps_requests s) = add_mset item (mset rest) \<and>
    (let (s', r) = hand_out accept v vs s in ps_requests s' = rest \<and> ps_wf s' \<and> ps_request_cnt s' = ps_request_cnt s \<and>
       (if accept (snd (snd item)) v then ps_values s' = vs \<and> pv_sent s' = pv_sent s @ [(item, v)]
        else ps_values s' = vs @ [v] \<and> pv_sent s' = pv_sent s \<and> pv_pending s' = pv_pending s \<and> r = Inr ()))"
proof -
  obtain item rest where h: "heappop request_key (ps_requests s) = Inr (item, rest)" "is_heap request_key rest"
    "mset (ps_requests s) = add_mset item (mset rest)" "\<forall>y \<in> set (ps_requests s). request_key item \<le> request_key y"
    using heappop_correct[of request_key "ps_requests s"] assms by (auto simp: ps_wf_def)
  have "item \<in> set (ps_requests s)" using h(3) by (metis set_mset_mset union_single_eq_member)
  with h(4) have best: "best_request item (ps_requests s)" by (auto simp: best_request_def request_key_def)
  have "set rest \<subseteq> set (ps_requests s)" using h(3) by (metis mset_subset_eq_add_right mset_subset_eqD set_mset_mset subsetI add_mset_add_single mset_subset_eq_add_left)
  moreover have "distinct (map (\<lambda>r. fst (snd r)) rest)"
  proof -
    have "mset (map (\<lambda>r. fst (snd r)) (ps_requests s)) = mset (map (\<lambda>r. fst (snd r)) (item # rest))" using h(3) by (simp add: mset_map)
    then show ?thesis using assms(1) mset_eq_imp_distinct_iff by (fastforce simp: ps_wf_def)
  qed
  ultimately have "ps_wf s'" if "ps_requests s' = rest" "ps_request_cnt s' = ps_request_cnt s" for s' :: sched_view
    using that assms(1) h(2) by (auto simp: ps_wf_def)
  with best h show ?thesis by (intro exI[of _ item] exI[of _ rest]) (auto simp: hand_out_def Let_def split: if_splits)
qed

section \<open>Accounting\<close>

text \<open>What a number of turns does: resources are handed out or kept, requests are answered or dropped.\<close>

definition advances :: "sched_view \<Rightarrow> sched_view \<Rightarrow> bool" where
  "advances s s' \<longleftrightarrow> ps_wf s' \<and> ps_request_cnt s' = ps_request_cnt s \<and>
     (\<exists>hs. pv_sent s' = pv_sent s @ hs \<and> mset (ps_values s) = mset (ps_values s') + mset (map snd hs) \<and>
       mset (map fst hs) + mset (ps_requests s') \<subseteq># mset (ps_requests s))"

lemma advances_refl: "ps_wf s \<Longrightarrow> advances s s"
  by (simp add: advances_def)

lemma advances_trans:
  assumes "advances s1 s2" "advances s2 s3"
  shows "advances s1 s3"
proof -
  obtain hs where hs: "pv_sent s2 = pv_sent s1 @ hs" "mset (ps_values s1) = mset (ps_values s2) + mset (map snd hs)"
    "mset (map fst hs) + mset (ps_requests s2) \<subseteq># mset (ps_requests s1)" using assms(1) by (auto simp: advances_def)
  obtain hs' where hs': "pv_sent s3 = pv_sent s2 @ hs'" "mset (ps_values s2) = mset (ps_values s3) + mset (map snd hs')"
    "mset (map fst hs') + mset (ps_requests s3) \<subseteq># mset (ps_requests s2)" using assms(2) by (auto simp: advances_def)
  have "mset (map fst (hs @ hs')) + mset (ps_requests s3) = mset (map fst hs) + (mset (map fst hs') + mset (ps_requests s3))" by (simp add: ac_simps)
  also have "\<dots> \<subseteq># mset (map fst hs) + mset (ps_requests s2)" using hs'(3) by (rule subset_mset.add_left_mono)
  also have "\<dots> \<subseteq># mset (ps_requests s1)" by (rule hs(3))
  finally have "mset (map fst (hs @ hs')) + mset (ps_requests s3) \<subseteq># mset (ps_requests s1)" .
  with assms hs hs' show ?thesis unfolding advances_def by (intro conjI exI[of _ "hs @ hs'"]) (simp_all add: ac_simps)
qed

lemma hand_out_advances:
  assumes "ps_wf s" "ps_requests s \<noteq> []" "ps_values s = v # vs" "hand_out accept v vs s = (s', r)"
  shows "advances s s' \<and> length (ps_requests s) = Suc (length (ps_requests s'))"
proof -
  obtain item rest where h: "mset (ps_requests s) = add_mset item (mset rest)" "ps_requests s' = rest" "ps_wf s'" "ps_request_cnt s' = ps_request_cnt s"
    "if accept (snd (snd item)) v then ps_values s' = vs \<and> pv_sent s' = pv_sent s @ [(item, v)] else ps_values s' = vs @ [v] \<and> pv_sent s' = pv_sent s"
    using hand_out_effect[OF assms(1,2), of accept v vs] assms(4) by (auto split: if_splits)
  have "length (ps_requests s) = Suc (length rest)" using arg_cong[OF h(1), of size] by simp
  moreover have "advances s s'"
  proof (cases "accept (snd (snd item)) v")
    case True
    then show ?thesis unfolding advances_def using h assms(3) by (intro conjI exI[of _ "[(item, v)]"]) simp_all
  next
    case False
    then show ?thesis unfolding advances_def using h assms(3) by (intro conjI exI[of _ "[]"]) simp_all
  qed
  ultimately show ?thesis using h(2) by simp
qed

lemma schedule_loop_advances:
  assumes "ps_wf s" "length (ps_requests s) \<le> n" "schedule_loop accept n s = (s', r)"
  shows "advances s s' \<and> (r = Inr () \<longrightarrow> ps_values s' = [] \<or> ps_requests s' = [])"
  using assms
proof (induction n arbitrary: s)
  case 0
  then show ?case by (simp add: advances_refl)
next
  case (Suc n)
  show ?case
  proof (cases "ps_requests s = [] \<or> ps_values s = []")
    case True
    then have "s' = s" "r = Inr ()" using Suc.prems(3) by (auto split: list.splits)
    with True Suc.prems(1) show ?thesis by (auto simp: advances_refl)
  next
    case False
    then obtain v vs where v: "ps_values s = v # vs" by (cases "ps_values s") auto
    obtain s1 r1 where h: "hand_out accept v vs s = (s1, r1)" by (cases "hand_out accept v vs s")
    have a: "advances s s1" "length (ps_requests s) = Suc (length (ps_requests s1))" using hand_out_advances[OF Suc.prems(1) _ v h] False by auto
    have step: "schedule_loop accept (Suc n) s = (case r1 of Inl e \<Rightarrow> (s1, Inl e) | Inr _ \<Rightarrow> schedule_loop accept n s1)"
      using False v h by (cases r1) simp_all
    show ?thesis
    proof (cases r1)
      case (Inl e)
      then show ?thesis using step Suc.prems(3) a(1) by auto
    next
      case (Inr u)
      then have "schedule_loop accept n s1 = (s', r)" using step Suc.prems(3) by simp
      with Suc.IH[OF _ _ this] a Suc.prems(2) show ?thesis using advances_trans by (auto simp: advances_def)
    qed
  qed
qed

lemma schedule_advances:
  assumes "ps_wf s" "schedule accept s = (s', r)"
  shows "advances s s' \<and> (r = Inr () \<longrightarrow> ps_values s' = [] \<or> ps_requests s' = [])"
  using schedule_loop_advances[OF assms(1) order_refl, of accept s' r] assms(2) by (simp add: schedule_def)

section \<open>No resource waits with a request\<close>

definition ps_ok :: "'a pscheduler_scheme \<Rightarrow> bool" where
  "ps_ok s \<longleftrightarrow> ps_wf s \<and> (ps_values s = [] \<or> ps_requests s = [])"

lemma schedule_ok: "ps_wf s \<Longrightarrow> schedule accept s = (s', Inr ()) \<Longrightarrow> ps_ok s'"
  using schedule_advances[of s accept s' "Inr ()"] by (auto simp: ps_ok_def advances_def)

lemma ps_wf_values: "ps_wf (s\<lparr>ps_values := vs\<rparr> :: sched_view) = ps_wf s"
  by (simp add: ps_wf_def)

lemma put_ok: "ps_wf s \<Longrightarrow> ps_put accept v s = (s', Inr ()) \<Longrightarrow> ps_ok s'"
  using schedule_ok[of "s\<lparr>ps_values := ps_values s @ [v]\<rparr>" accept s'] by (simp add: ps_put_def ps_wf_values)

lemma remove_ok: "ps_ok s \<Longrightarrow> ps_remove accept v s = (s', Inr ()) \<Longrightarrow> ps_ok s'"
  using schedule_ok[of "s\<lparr>ps_values := remove1 v (ps_values s)\<rparr>" accept s']
  by (cases "v \<in> set (ps_values s)") (auto simp: ps_remove_def ps_wf_values ps_ok_def)

lemma request_wf:
  assumes "ps_wf (s :: sched_view)"
  shows "ps_wf (s\<lparr>ps_requests := heappush request_key (p, ps_request_cnt s, c) (ps_requests s), ps_request_cnt := Suc (ps_request_cnt s)\<rparr>)"
proof -
  let ?h = "heappush request_key (p, ps_request_cnt s, c) (ps_requests s)"
  have h: "is_heap request_key ?h" "mset ?h = add_mset (p, ps_request_cnt s, c) (mset (ps_requests s))"
    using heappush_correct[of request_key "ps_requests s"] assms by (simp_all add: ps_wf_def)
  have st: "set ?h = insert (p, ps_request_cnt s, c) (set (ps_requests s))" using arg_cong[OF h(2), of set_mset] by simp
  have "mset (map (\<lambda>r. fst (snd r)) ?h) = mset (map (\<lambda>r. fst (snd r)) ((p, ps_request_cnt s, c) # ps_requests s))" using h(2) by (simp add: mset_map)
  then have "distinct (map (\<lambda>r. fst (snd r)) ?h) = distinct (map (\<lambda>r. fst (snd r)) ((p, ps_request_cnt s, c) # ps_requests s))"
    by (rule mset_eq_imp_distinct_iff)
  then have "distinct (map (\<lambda>r. fst (snd r)) ?h)" using assms by (auto simp: ps_wf_def)
  moreover have "fst (snd r) < Suc (ps_request_cnt s)" if "r \<in> set ?h" for r using that st assms by (auto simp: ps_wf_def less_SucI)
  ultimately show ?thesis using h(1) by (simp add: ps_wf_def)
qed

lemma request_ok: "ps_wf s \<Longrightarrow> ps_request accept p c s = (s', Inr ()) \<Longrightarrow> ps_ok s'"
  using schedule_ok[OF request_wf, of s accept "- p" c s'] by (simp add: ps_request_def)

definition tracker_inv :: "tracker \<Rightarrow> bool" where
  "tracker_inv t \<longleftrightarrow> (\<forall>key ps. map_of (tk_schedulers t) key = Some ps \<longrightarrow> ps_ok ps)"

lemma tracker_inv_frame: "tk_schedulers t' = tk_schedulers t \<Longrightarrow> tracker_inv t' = tracker_inv t"
  by (simp add: tracker_inv_def)

lemma with_scheduler_inv:
  assumes "tracker_inv t" "with_scheduler key m t = (t', Inr ())"
    "\<And>s s'. ps_ok s \<Longrightarrow> m s = (s', Inr ()) \<Longrightarrow> ps_ok s'"
  shows "tracker_inv t'"
proof -
  obtain ps s where ps: "map_of (tk_schedulers t) key = Some ps" "m (view_of t ps) = (s, Inr ())"
    "tk_schedulers t' = AList.update key \<lparr>ps_request_cnt = ps_request_cnt s, ps_values = ps_values s, ps_requests = ps_requests s\<rparr> (tk_schedulers t)"
    using assms(2) by (auto simp: with_scheduler_def split: option.splits prod.splits)
  have "ps_ok (view_of t ps)" using assms(1) ps(1) by (auto simp: tracker_inv_def ps_ok_def ps_wf_def view_of_def)
  from assms(3)[OF this ps(2)] have "ps_ok \<lparr>ps_request_cnt = ps_request_cnt s, ps_values = ps_values s, ps_requests = ps_requests s\<rparr>"
    by (simp add: ps_ok_def ps_wf_def)
  with assms(1) show ?thesis by (auto simp: tracker_inv_def ps(3) update_conv' split: if_splits)
qed

lemma scheduler_new_ok: "ps_ok scheduler_new"
  by (simp add: scheduler_new_def ps_ok_def ps_wf_def heap_from_def)

lemma ensure_inv:
  assumes "tracker_inv t" "ensure_scheduler key t = (t', Inr ())"
  shows "tracker_inv t'"
proof (cases "key \<in> fst ` set (tk_schedulers t)")
  case False
  then have "tk_schedulers t' = AList.update key scheduler_new (tk_schedulers t)" using assms(2) by (auto simp: ensure_scheduler_def)
  with assms(1) scheduler_new_ok show ?thesis by (auto simp: tracker_inv_def update_conv')
qed (use assms in \<open>auto simp: ensure_scheduler_def\<close>)

lemma put_inv:
  assumes "tracker_inv t" "tracker_put io_ok key v t = (t', Inr ())"
  shows "tracker_inv t'"
proof -
  obtain t1 where t1: "ensure_scheduler key t = (t1, Inr ())" "with_scheduler key (ps_put (callback io_ok t1) v) t1 = (t', Inr ())"
    using assms(2) by (auto simp: tracker_put_def bindS_eq_Inr)
  have "ps_ok s'" if "ps_ok s" "ps_put (callback io_ok t1) v s = (s', Inr ())" for s s'
    using put_ok[OF _ that(2)] that(1) unfolding ps_ok_def[of s] by blast
  from with_scheduler_inv[OF ensure_inv[OF assms(1) t1(1)] t1(2) this] show ?thesis .
qed

lemma request_inv:
  assumes "tracker_inv t" "tracker_request io_ok key user p c t = (t', Inr ())"
  shows "tracker_inv t'"
proof -
  obtain t1 where t1: "ensure_scheduler key t = (t1, Inr ())" "with_scheduler key (ps_request (callback io_ok t1) p c) t1 = (t', Inr ())"
    using assms(2) by (auto simp: tracker_request_def bindS_eq_Inr)
  have "ps_ok s'" if "ps_ok s" "ps_request (callback io_ok t1) p c s = (s', Inr ())" for s s'
    using request_ok[OF _ that(2)] that(1) unfolding ps_ok_def[of s] by blast
  from with_scheduler_inv[OF ensure_inv[OF assms(1) t1(1)] t1(2) this] show ?thesis .
qed

lemma withdraw_inv: "tracker_inv t \<Longrightarrow> withdraw_values io_ok vs t = (t', Inr ()) \<Longrightarrow> tracker_inv t'"
proof (induction vs arbitrary: t)
  case (Cons v vs)
  obtain k t1 where t1: "with_scheduler k (ps_remove (callback io_ok t) v) t = (t1, Inr ())" "withdraw_values io_ok vs t1 = (t', Inr ())"
    using Cons.prems(2) by (auto simp: bindS_eq_Inr)
  have "tracker_inv t1" using with_scheduler_inv[OF Cons.prems(1) t1(1)] remove_ok by blast
  from Cons.IH[OF this t1(2)] show ?case .
qed simp

lemma close_inv:
  assumes "tracker_inv t" "tracker_close io_ok c t = (t', Inr ())"
  shows "tracker_inv t'"
proof -
  let ?t = "t\<lparr>tk_connections := filter (\<lambda>x. fst x \<noteq> c) (tk_connections t)\<rparr>"
  obtain vs where "withdraw_values io_ok vs ?t = (t', Inr ())"
    using assms(2) by (auto simp: tracker_close_def bindS_eq_Inr split: if_splits)
  moreover have "tracker_inv ?t" using assms(1) by (simp add: tracker_inv_def)
  ultimately show ?thesis by (rule withdraw_inv[rotated])
qed

lemma close_all_inv: "tracker_inv t \<Longrightarrow> close_all io_ok cs t = (t', Inr ()) \<Longrightarrow> tracker_inv t'"
  by (induction cs arbitrary: t) (auto simp: bindS_eq_Inr dest: close_inv)

lemma ret_value_inv: "tracker_inv t \<Longrightarrow> ret_value c r t = (t', Inr ()) \<Longrightarrow> tracker_inv t'"
  by (auto simp: ret_value_def tracker_inv_def split: if_splits)

lemma call_handler_inv:
  assumes "tracker_inv t" "call_handler io_ok c addr m t = (t', Inr ())"
  shows "tracker_inv t'"
proof (cases m)
  case (TPut key port mk custom)
  define v where "v = \<lparr>rs_conn = c, rs_addr = (case custom of Some a \<Rightarrow> a | None \<Rightarrow> addr), rs_port = port, rs_matchkey = mk\<rparr>"
  obtain t1 where t1: "tracker_put io_ok key v (t\<lparr>tk_pending := List.insert (c, mk) (tk_pending t)\<rparr>) = (t1, Inr ())"
    "ret_value c ReplySuccess (t1\<lparr>tk_put_values := tk_put_values t1 @ [(c, v)]\<rparr>) = (t', Inr ())"
    using assms(2) by (auto simp: TPut bindS_eq_Inr v_def Let_def)
  have "tracker_inv t1" by (rule put_inv[OF _ t1(1)]) (use assms(1) in \<open>simp add: tracker_inv_def\<close>)
  then have "tracker_inv (t1\<lparr>tk_put_values := tk_put_values t1 @ [(c, v)]\<rparr>)" by (simp add: tracker_inv_def)
  from ret_value_inv[OF this t1(2)] show ?thesis .
next
  case (TStop key)
  show ?thesis
  proof (cases "tk_stop_key t = key")
    case True
    then obtain t1 t2 where "ret_value c ReplySuccess t = (t1, Inr ())" "close_all io_ok (map fst (tk_connections t1)) t1 = (t2, Inr ())"
      "t' = t2\<lparr>tk_stopped := True\<rparr>"
      using assms(2) by (auto simp: TStop tracker_stop_def bindS_eq_Inr)
    moreover from this assms(1) have "tracker_inv t2" by (blast intro: ret_value_inv close_all_inv)
    ultimately show ?thesis by (simp add: tracker_inv_def)
  next
    case False
    then have "ret_value c ReplyFail t = (t', Inr ())" using assms(2) by (auto simp: TStop bindS_eq_Inr)
    with assms(1) show ?thesis by (blast intro: ret_value_inv)
  qed
next
  case (TUpdateInfo info)
  then obtain t1 where t1: "update_info c addr info t = (t1, Inr ())" "ret_value c ReplySuccess t1 = (t', Inr ())"
    using assms(2) by (auto simp: bindS_eq_Inr)
  obtain g where "t1 = t\<lparr>tk_info := g\<rparr>" using t1(1) by (auto simp: update_info_def bindS_eq_Inr)
  then have "tracker_inv t1" using assms(1) by (simp add: tracker_inv_def)
  from ret_value_inv[OF this t1(2)] show ?thesis .
qed (use assms in \<open>auto simp: bindS_eq_Inr intro: request_inv ret_value_inv close_inv\<close>)

lemma run_event_inv:
  assumes "tracker_inv t" "run_event io_ok ev t = (t', Inr ())"
  shows "tracker_inv t'"
proof (cases ev)
  case (Connect c addr)
  then show ?thesis using assms by (auto simp: run_event_def tracker_inv_def)
next
  case (Message c m)
  then show ?thesis using assms by (auto simp: run_event_def bindS_eq_Inr intro: call_handler_inv split: option.splits)
next
  case (Disconnect c)
  then show ?thesis using assms by (auto simp: run_event_def bindS_eq_Inr intro: close_inv split: if_splits)
qed

lemma run_events_inv: "tracker_inv t \<Longrightarrow> run_events io_ok k evs t = (t', Inr ()) \<Longrightarrow> tracker_inv t'"
  by (induction evs arbitrary: t k) (auto simp: bindS_eq_Inr dest: run_event_inv)

section \<open>Priorities\<close>

text \<open>The best among the requests that can be answered.\<close>

definition best_accepting :: "(nat \<Rightarrow> bool) \<Rightarrow> request \<Rightarrow> request list \<Rightarrow> bool" where
  "best_accepting acc r rs \<longleftrightarrow> r \<in> set rs \<and> acc (snd (snd r)) \<and>
     (\<forall>q \<in> set rs. acc (snd (snd q)) \<longrightarrow> fst r < fst q \<or> fst r = fst q \<and> fst (snd r) \<le> fst (snd q))"

lemma schedule_loop_no_values: "ps_values s = [] \<Longrightarrow> schedule_loop accept n s = (s, Inr ())"
  by (cases n) simp_all

lemma serve_one:
  assumes "ps_wf s" "ps_values s = [v]" "length (ps_requests s) \<le> n" "schedule_loop accept n s = (s', r)"
  shows "if \<exists>q \<in> set (ps_requests s). accept (snd (snd q)) v
    then \<exists>item. best_accepting (\<lambda>c. accept c v) item (ps_requests s) \<and> pv_sent s' = pv_sent s @ [(item, v)] \<and> ps_values s' = []
    else pv_sent s' = pv_sent s \<and> ps_values s' = [v] \<and> ps_requests s' = []"
  using assms
proof (induction n arbitrary: s)
  case 0
  then show ?case by simp
next
  case (Suc n)
  show ?case
  proof (cases "ps_requests s = []")
    case True
    then show ?thesis using Suc.prems(2,4) by auto
  next
    case False
    obtain s1 r1 where h1: "hand_out accept v [] s = (s1, r1)" by (cases "hand_out accept v [] s")
    obtain item rest where h: "best_request item (ps_requests s)" "mset (ps_requests s) = add_mset item (mset rest)" "ps_requests s1 = rest" "ps_wf s1"
      "if accept (snd (snd item)) v then ps_values s1 = [] \<and> pv_sent s1 = pv_sent s @ [(item, v)]
       else ps_values s1 = [v] \<and> pv_sent s1 = pv_sent s \<and> r1 = Inr ()"
      using hand_out_effect[OF Suc.prems(1) False, of accept v "[]"] h1 by (auto split: if_splits)
    have st: "set (ps_requests s) = insert item (set rest)" using arg_cong[OF h(2), of set_mset] by simp
    have len: "length rest \<le> n" using arg_cong[OF h(2), of size] Suc.prems(3) by simp
    have step: "schedule_loop accept (Suc n) s = (case r1 of Inl e \<Rightarrow> (s1, Inl e) | Inr _ \<Rightarrow> schedule_loop accept n s1)"
      using False Suc.prems(2) h1 by (cases r1) simp_all
    show ?thesis
    proof (cases "accept (snd (snd item)) v")
      case True
      then have "ps_values s1 = []" "pv_sent s1 = pv_sent s @ [(item, v)]" using h(5) by simp_all
      moreover from this(1) have "s' = s1" using step Suc.prems(4) schedule_loop_no_values by (cases r1) auto
      moreover have "best_accepting (\<lambda>c. accept c v) item (ps_requests s)" using h(1) True by (simp add: best_accepting_def best_request_def)
      moreover have ex: "\<exists>q \<in> set (ps_requests s). accept (snd (snd q)) v" using True st by blast
      ultimately show ?thesis unfolding if_P[OF ex] by blast
    next
      case False
      then have s1: "ps_values s1 = [v]" "pv_sent s1 = pv_sent s" "schedule_loop accept n s1 = (s', r)" using h(5) step Suc.prems(4) by simp_all
      have "best_accepting (\<lambda>c. accept c v) x (ps_requests s) = best_accepting (\<lambda>c. accept c v) x rest" for x
        using False st by (auto simp: best_accepting_def)
      moreover have "(\<exists>q \<in> set (ps_requests s). accept (snd (snd q)) v) = (\<exists>q \<in> set rest. accept (snd (snd q)) v)" using st False by simp
      ultimately show ?thesis using Suc.IH[OF h(4) s1(1) _ s1(3)] len unfolding h(3) s1(2) by (simp only: len simp_thms)
    qed
  qed
qed

text \<open>C39: The tracker never lets a request and a resource of the same key wait side by side, and it serves by priority. After any sequence of connections, messages and disconnections without an error, the scheduler of each key has no free resource or no waiting request; and when a server then offers a resource for a key with waiting requests, it goes to the request of the highest priority, the earliest among equals, whose connection can be answered, and to nobody if none can.\<close>

theorem tracker_serves_best:
  assumes "run_events io_ok 0 evs (tracker_new stop_key) = (t, Inr ())" "map_of (tk_schedulers t) key = Some ps"
    "call_handler io conn addr (TPut key port matchkey custom) t = (t', Inr ())"
  defines "v \<equiv> \<lparr>rs_conn = conn, rs_addr = (case custom of Some a \<Rightarrow> a | None \<Rightarrow> addr), rs_port = port, rs_matchkey = matchkey\<rparr>"
  shows "(ps_values ps = [] \<or> ps_requests ps = []) \<and>
    (ps_requests ps \<noteq> [] \<longrightarrow> (if \<exists>q \<in> set (ps_requests ps). callback io t (snd (snd q)) v
      then \<exists>item. best_accepting (\<lambda>c. callback io t c v) item (ps_requests ps) \<and> tk_sent t' = tk_sent t @ [(item, v)]
      else tk_sent t' = tk_sent t))"
proof -
  have "tracker_inv (tracker_new stop_key)" by (simp add: tracker_inv_def tracker_new_def)
  from run_events_inv[OF this assms(1)] have ok: "ps_ok ps" using assms(2) by (simp add: tracker_inv_def)
  define t0 where "t0 = t\<lparr>tk_pending := List.insert (conn, matchkey) (tk_pending t)\<rparr>"
  have known: "key \<in> fst ` set (tk_schedulers t)" using map_of_SomeD[OF assms(2)] by force
  obtain t1 where t1: "tracker_put io key v t0 = (t1, Inr ())" "tk_sent t' = tk_sent t1"
    using assms(3) by (auto simp: bindS_eq_Inr Let_def v_def t0_def ret_value_def split: if_splits)
  have cb: "callback io t0 = callback io t" by (intro ext) (simp add: callback_def t0_def)
  obtain s where s: "ps_put (callback io t) v (view_of t0 ps) = (s, Inr ())" "tk_sent t1 = pv_sent s"
  proof -
    have "tk_schedulers t0 = tk_schedulers t" by (simp add: t0_def)
    then show ?thesis using that t1(1) known assms(2)
      by (auto simp: tracker_put_def ensure_scheduler_def bindS_eq_Inr with_scheduler_def cb split: prod.splits)
  qed
  have sent: "tk_sent t' = pv_sent s" "tk_sent t = pv_sent (view_of t0 ps)" using t1(2) s(2) by (simp_all add: view_of_def t0_def)
  have serve: "if \<exists>q \<in> set (ps_requests ps). callback io t (snd (snd q)) v
      then \<exists>item. best_accepting (\<lambda>c. callback io t c v) item (ps_requests ps) \<and> pv_sent s = pv_sent (view_of t0 ps) @ [(item, v)]
      else pv_sent s = pv_sent (view_of t0 ps)" if "ps_requests ps \<noteq> []"
  proof -
    let ?s = "(view_of t0 ps)\<lparr>ps_values := [v]\<rparr>"
    have "ps_values ps = []" using ok that by (simp add: ps_ok_def)
    then have "schedule_loop (callback io t) (length (ps_requests ps)) ?s = (s, Inr ())"
      using s(1) by (simp add: ps_put_def schedule_def view_of_def)
    moreover have "ps_wf ?s" using ok by (simp add: ps_ok_def ps_wf_def view_of_def)
    ultimately show ?thesis using serve_one[of ?s v "length (ps_requests ps)" "callback io t" s "Inr ()"]
      by (simp add: view_of_def split: if_splits) blast
  qed
  have "ps_values ps = [] \<or> ps_requests ps = []" using ok by (simp add: ps_ok_def)
  then show ?thesis unfolding sent using serve by (intro conjI impI)
qed

theorem tracker_serves_best_witness:
  "\<exists>t t'. run_events (\<lambda>k c v. True) 0 [Connect 1 ''a'', Connect 2 ''b'', Connect 3 ''c'', Message 1 (TRequest ''k'' ''u'' 0), Message 2 (TRequest ''k'' ''u'' 5)]
       (tracker_new ''stop'') = (t, Inr ()) \<and>
     call_handler (\<lambda>c v. True) 3 ''c'' (TPut ''k'' 9090 ''k:1'' None) t = (t', Inr ()) \<and>
     (\<exists>item. tk_sent t' = tk_sent t @ [(item, \<lparr>rs_conn = 3, rs_addr = ''c'', rs_port = 9090, rs_matchkey = ''k:1''\<rparr>)] \<and> snd (snd item) = 2)"
proof -
  define evs where "evs = [Connect 1 ''a'', Connect 2 ''b'', Connect 3 ''c'', Message 1 (TRequest ''k'' ''u'' 0), Message 2 (TRequest ''k'' ''u'' 5)]"
  obtain t where t: "run_events (\<lambda>k c v. True) 0 evs (tracker_new ''stop'') = (t, Inr ())" "tk_schedulers t = [(''k'', \<lparr>ps_request_cnt = 2, ps_values = [], ps_requests = [(- 5, 1, 2), (0, 0, 1)]\<rparr>)]"
    "tk_connections t = [(1, ''a''), (2, ''b''), (3, ''c'')]" "tk_pending t = []" "tk_sent t = []"
    by (simp add: evs_def run_event_def tracker_new_def tracker_request_def ensure_scheduler_def with_scheduler_def view_of_def ps_request_def schedule_def
        scheduler_new_def heappush_def siftdown.simps request_key_def parent_def)
  let ?v = "\<lparr>rs_conn = 3, rs_addr = ''c'', rs_port = 9090, rs_matchkey = ''k:1''\<rparr>"
  obtain t' where t': "call_handler (\<lambda>c v. True) 3 ''c'' (TPut ''k'' 9090 ''k:1'' None) t = (t', Inr ())"
    using t(2-5) by (simp add: tracker_put_def ensure_scheduler_def with_scheduler_def view_of_def ps_put_def schedule_def hand_out_def callback_def
        heappop_def siftup_def sift_path.simps siftdown.simps smaller_child_def request_key_def parent_def ret_value_def Let_def numeral_2_eq_2)
  have "callback (\<lambda>c v. True) t 2 ?v" using t(3) by (simp add: callback_def)
  then obtain item where item: "best_accepting (\<lambda>c. callback (\<lambda>c v. True) t c ?v) item [(- 5, 1, 2), (0, 0, 1)]" "tk_sent t' = tk_sent t @ [(item, ?v)]"
    using tracker_serves_best[OF t(1) _ t', of "\<lparr>ps_request_cnt = 2, ps_values = [], ps_requests = [(- 5, 1, 2), (0, 0, 1)]\<rparr>"] t(2)
    by (auto split: if_splits)
  have "snd (snd item) = 2" using item(1) \<open>callback (\<lambda>c v. True) t 2 ?v\<close> by (auto simp: best_accepting_def)
  with t(1) t' item(2) show ?thesis unfolding evs_def by blast
qed

section \<open>Errors\<close>

text \<open>
  A server that offers the same match key twice: the key is removed from the set of pending keys when the first
  resource is handed out, so handing out the second one fails after the client has got it.
\<close>

lemma duplicate_matchkey_raises:
  assumes "ps_wf s" "ps_requests s \<noteq> []" "\<forall>c. accept c v" "(rs_conn v, rs_matchkey v) \<notin> set (pv_pending s)"
  shows "\<exists>s' item. hand_out accept v vs s = (s', Inl KeyError) \<and> pv_sent s' = pv_sent s @ [(item, v)]"
proof -
  obtain item rest where "heappop request_key (ps_requests s) = Inr (item, rest)"
    using heappop_correct[of request_key "ps_requests s"] assms(1,2) by (auto simp: ps_wf_def)
  with assms(3,4) show ?thesis by (cases item) (simp add: hand_out_def Let_def)
qed

text \<open>Closing a connection whose match key has no colon fails, after the connection has been taken off the list.\<close>

lemma close_without_colon:
  assumes "conn \<in> fst ` set (tk_connections t)" "''key'' \<in> fst ` set (tk_info t conn)"
    "filter (\<lambda>p. fst p = conn) (tk_put_values t) = (conn, v) # rest" "CHR '':'' \<notin> set (rs_matchkey v)"
  shows "\<exists>t'. tracker_close io_ok conn t = (t', Inl ValueError) \<and> conn \<notin> fst ` set (tk_connections t')"
  using assms by (auto simp: tracker_close_def split_random_key_def)

end
