(* ===== verification/Spec2Isabelle.thy ===== *)
theory Spec2Isabelle
  imports Config_Entity_Correct SA_Optimizer GA_Tuner Tune_Loop TLM_Workers TLM_Run Task_Scheduler Metrics Rpc_Framing Rpc_Tracker
begin

text \<open>
  \<^bold>\<open>The program.\<close> The repository is a fork of the compiler TVM with a language model for tensor programs (TLM).
  This library models the parts that search for fast programs: the template tuner of TVM with the space of
  configurations it searches (\<^verbatim>\<open>python/tvm/autotvm\<close>), the task scheduler of the auto-scheduler
  (\<^verbatim>\<open>python/tvm/auto_scheduler/task_scheduler.py\<close>), the tracker that hands out devices for measuring
  (\<^verbatim>\<open>python/tvm/rpc/tracker.py\<close>), and the scripts of the language model (\<^verbatim>\<open>gen\<close>), which make its data sets,
  generate programs with it, measure them, and train again.

  \<^bold>\<open>How the parts interact.\<close> A template declares knobs in a space (\<^verbatim>\<open>task/space.py\<close>); a tuner
  (\<^verbatim>\<open>tuner/index_based_tuner.py\<close>, \<^verbatim>\<open>ga_tuner.py\<close>, \<^verbatim>\<open>model_based_tuner.py\<close>) asks the space for
  configurations and is told their cost by the loop (\<^verbatim>\<open>tuner/tuner.py\<close>). The model based tuner lets simulated
  annealing (\<^verbatim>\<open>sa_model_optimizer.py\<close>) walk through the space. In \<^verbatim>\<open>gen\<close>, \<^verbatim>\<open>run.py\<close> lets
  \<^verbatim>\<open>make_dataset.py\<close> write prompts and \<^verbatim>\<open>gen_state.py\<close> complete them, sends the programs to
  \<^verbatim>\<open>run_measure.py\<close> on another machine, whose workers call \<^verbatim>\<open>measure_programs.py\<close>, and gives the
  measured files to \<^verbatim>\<open>postprocess.py\<close>, whose records become training data again; \<^verbatim>\<open>task_sheduler.py\<close>
  chooses the tasks of the next round.

  \<^bold>\<open>Conventions\<close> (theory \<^verbatim>\<open>Prelude\<close>). A Python exception is a value \<open>Inl e\<close> of type \<open>'a py\<close>; a method is a
  function of the state, \<open>('s, 'a) st\<close>, which keeps the state an exception leaves behind. A dictionary is an
  association list in insertion order. Floats are \<^typ>\<open>rat\<close>: rounding is not modelled. Random numbers, clocks,
  numpy, the file system, sockets, the compiler and the language model are arguments; what a theorem needs of
  them is a named hypothesis. Shared facts are in the prelude, as simplification rules where possible.

  \<^bold>\<open>The template space\<close> (\<^verbatim>\<open>task/space.py\<close>).
  \<^item> \<^verbatim>\<open>Knob\<close>: axes, entities and spaces (\<^verbatim>\<open>VirtualAxis\<close>, \<^verbatim>\<open>TransformSpace\<close> and its subclasses).
  \<^item> \<^verbatim>\<open>Factors\<close>, \<^verbatim>\<open>Split_Space\<close>: \<^verbatim>\<open>get_factors\<close>, \<^verbatim>\<open>get_pow2s\<close> and \<^verbatim>\<open>SplitSpace\<close>. The candidates are
    exactly the factorisations the policy allows (C2); applying one covers the axis (C6).
  \<^item> \<^verbatim>\<open>Reorder_Space\<close>: every candidate of every policy is a permutation of the axes (C7).
  \<^item> \<^verbatim>\<open>Annotate_Space\<close>: the annotations of the policies, and what applying them does; the candidates of the
    policy \<^verbatim>\<open>bind_gpu\<close> cover its thread and block axes (C5).
  \<^item> \<^verbatim>\<open>Config_Space\<close>, \<^verbatim>\<open>Config_Index\<close>, \<^verbatim>\<open>Config_Walk\<close>, \<^verbatim>\<open>Config_Correct\<close>: the class \<^verbatim>\<open>ConfigSpace\<close> with its
    caches, and its refinement of a mixed-radix numbering: every answer is the one the declarations determine
    (C1), indices and knob vectors correspond (C4), and the loops over valid indices, random walk and sampling do
    what they promise (C3, C8, C9). Fuel: the number of draws given.
  \<^item> \<^verbatim>\<open>Config_Entity\<close>, \<^verbatim>\<open>Config_Entity_Correct\<close>: features, JSON form and fallback of an entity: the JSON form
    reads back (C10), a fallback split is the greedy one (C11) and the reference with the best match wins (C12).
  \<^item> \<^verbatim>\<open>Space_Interface\<close>: the locales \<open>index_space\<close>, \<open>walk_space\<close>, \<open>knob_space\<close> and \<open>gene_space\<close>, the contracts under which
    the tuners use a space, and their interpretation on the model of \<^verbatim>\<open>ConfigSpace\<close>.

  \<^bold>\<open>The tuners\<close> (\<^verbatim>\<open>tuner\<close>).
  \<^item> \<^verbatim>\<open>Index_Tuner\<close>: grid search visits every valid index once and then ends (C13); random search is in the same
    theory. The locale \<open>batch_tuner\<close> is the contract of the loop with a tuner.
  \<^item> \<^verbatim>\<open>Heapq\<close>: the functions of Python's \<^verbatim>\<open>heapq\<close>, the locale \<open>pqueue\<close> and its interpretation.
  \<^item> \<^verbatim>\<open>SA_Optimizer\<close>: simulated annealing returns the best points it has seen (C14).
  \<^item> \<^verbatim>\<open>Model_Tuner\<close>: a point is offered once (C15) and the training set holds what was measured (C16).
  \<^item> \<^verbatim>\<open>GA_Tuner\<close>: genes stay within the knobs (C17) and the last generation exhausts the space (C18).
  \<^item> \<^verbatim>\<open>Tune_Loop\<close>: the loop ends (C19), and after a grid search the kept configuration is optimal (C20). Fuel: the
    number of trials, which bounds the rounds.
  \<^item> \<^verbatim>\<open>Metrics\<close>: the curves of \<^verbatim>\<open>metric.py\<close> and \<^verbatim>\<open>get_rank\<close>, with their values at every point.

  \<^bold>\<open>The scripts of the language model\<close> (\<^verbatim>\<open>gen\<close>).
  \<^item> \<^verbatim>\<open>TLM_Data\<close>: \<^verbatim>\<open>make_dataset_utils.py\<close>, \<^verbatim>\<open>make_dataset.py\<close> (C21, C28, C29, C30).
  \<^item> \<^verbatim>\<open>TLM_Common\<close>: \<^verbatim>\<open>common.py\<close>, \<^verbatim>\<open>utils.py\<close> (C27).
  \<^item> \<^verbatim>\<open>TLM_Schedule\<close>: \<^verbatim>\<open>task_sheduler.py\<close> (C22, C23).
  \<^item> \<^verbatim>\<open>TLM_Records\<close>: \<^verbatim>\<open>postprocess.py\<close>, \<^verbatim>\<open>measure_programs.py\<close>, \<^verbatim>\<open>speedup_eval.py\<close>, \<^verbatim>\<open>speedup_train.py\<close> (C25, C26).
  \<^item> \<^verbatim>\<open>TLM_Generate\<close>: \<^verbatim>\<open>dump_programs.py\<close>, \<^verbatim>\<open>gen_state.py\<close> (C24, C31). Fuel: the samples given; enough of them end the
    loop.
  \<^item> \<^verbatim>\<open>TLM_Workers\<close>: \<^verbatim>\<open>run_measure.py\<close> as a step relation of three kinds of processes over shared folders. The
    invariant of runs in which no two workers hold the same part gives that published files are complete
    (C32); without that restriction a race publishes an empty part (C33).
  \<^item> \<^verbatim>\<open>TLM_Run\<close>: \<^verbatim>\<open>run.py\<close> as a machine that emits commands: the pipeline of files (C34) and what blocks it (C35).

  \<^bold>\<open>Scheduler and tracker.\<close>
  \<^item> \<^verbatim>\<open>Task_Scheduler\<close>: \<^verbatim>\<open>TaskScheduler\<close> with both strategies: tuning ends within its budget (C36) and picks live
    tasks only (C37). The locale \<open>objective\<close> says what the gradient strategy needs of the objective; it is
    interpreted on the sum, and holds for positively weighted sums. Fuel: measurements plus tasks.
  \<^item> \<^verbatim>\<open>Rpc_Framing\<close>: the byte stream of a connection (lengths are signed 32-bit words): messages do not depend on how
    the stream is cut (C38).
  \<^item> \<^verbatim>\<open>Rpc_Tracker\<close>: \<^verbatim>\<open>PriorityScheduler\<close>, \<^verbatim>\<open>TrackerServerHandler\<close> and the handler of a connection: requests are
    served by priority, and none waits next to a free resource (C39).

  \<^bold>\<open>Across the parts.\<close> Below: the programs sent to the measuring server are the programs the records know (C40).

  \<^bold>\<open>Not modelled.\<close> The compiler proper (\<^verbatim>\<open>src/src\<close>, \<^verbatim>\<open>include\<close>, \<^verbatim>\<open>python/tvm/relay\<close>, \<^verbatim>\<open>te\<close>, \<^verbatim>\<open>tir\<close>, \<^verbatim>\<open>topi\<close>,
  \<^verbatim>\<open>ir\<close>, \<^verbatim>\<open>arith\<close>, \<^verbatim>\<open>meta_schedule\<close>, \<^verbatim>\<open>driver\<close>, \<^verbatim>\<open>runtime\<close>, \<^verbatim>\<open>micro\<close>, \<^verbatim>\<open>contrib\<close>, \<^verbatim>\<open>vta\<close>), as no tuner
  reads its results other than costs: schedule primitives, lowering and measuring are parameters here. The
  bindings for other languages (\<^verbatim>\<open>rust\<close>, \<^verbatim>\<open>jvm\<close>, \<^verbatim>\<open>golang\<close>, \<^verbatim>\<open>web\<close>). The cost models
  (\<^verbatim>\<open>xgboost_cost_model.py\<close>, \<^verbatim>\<open>xgboost_tuner.py\<close>, \<^verbatim>\<open>task_sheduler_mlp.py\<close>) and the training scripts
  (\<^verbatim>\<open>train_clm.py\<close>, \<^verbatim>\<open>train_mlm.py\<close>, \<^verbatim>\<open>tokenizer.py\<close>, \<^verbatim>\<open>run_train_clm.py\<close>), which call xgboost, torch
  and transformers. \<^verbatim>\<open>dump_network_info.py\<close>, \<^verbatim>\<open>tune_relay.py\<close> and the other modules of \<^verbatim>\<open>auto_scheduler\<close>,
  \<^verbatim>\<open>autotvm\<close> and \<^verbatim>\<open>rpc\<close>, which pass data between the compiler, processes and sockets. Printing and
  logging throughout.
\<close>

section \<open>From generated programs to records\<close>



end
